(* ===== verification/Prelude.thy ===== *)
theory Prelude
  imports Main "HOL-Library.Word" "HOL-Library.AList" "HOL-Library.Multiset"
begin

text \<open>
  Shared vocabulary of the development: the machine-integer types of the C++ sources, the
  decimal text of an unsigned integer (what \<open>std::format("{}", n)\<close> and
  \<open>std::to_chars\<close> produce), the part of \<open>std::unordered_map\<close> the program uses, and the
  generic lemmas on lists, maps and words that several components share.
\<close>

unbundle bit_operations_syntax

section \<open>Types and a collection\<close>

named_theorems run_simps \<open>defining equations that simp needs to run a concrete schedule\<close>

type_synonym u8 = "8 word"
type_synonym u16 = "16 word"
type_synonym u32 = "32 word"
type_synonym u64 = "64 word"

text \<open>The standard exceptions the program itself throws, with their messages.\<close>

datatype std_exception = Invalid_argument string | Runtime_error string

section \<open>Decimal text of unsigned integers\<close>

definition digit :: "nat \<Rightarrow> char" where
  "digit d = char_of (48 + d)"

fun dec :: "nat \<Rightarrow> string" where
  "dec n = (if n < 10 then [digit n] else dec (n div 10) @ [digit (n mod 10)])"

declare dec.simps [simp del]

definition undec :: "string \<Rightarrow> nat" where
  "undec s = foldl (\<lambda>a c. 10 * a + (of_char c - 48)) 0 s"

lemma of_char_digit [simp]: "d < 10 \<Longrightarrow> of_char (digit d) = 48 + (d :: nat)"
  by (simp add: digit_def)

lemma dec_nonempty [simp]: "dec n \<noteq> []"
  by (subst dec.simps) simp

lemma undec_snoc: "undec (s @ [c]) = 10 * undec s + (of_char c - 48)"
  by (simp add: undec_def)

lemma undec_dec [simp]: "undec (dec n) = n"
proof (induction n rule: dec.induct)
  case (1 n)
  show ?case
  proof (cases "n < 10")
    case True
    then show ?thesis by (subst dec.simps) (simp add: undec_def)
  next
    case False
    with 1 have "undec (dec (n div 10)) = n div 10" by simp
    with False show ?thesis by (subst dec.simps) (simp add: undec_snoc)
  qed
qed

lemma dec_inject [simp]: "dec m = dec n \<longleftrightarrow> m = n"
  by (metis undec_dec)

lemma dec_digits: "c \<in> set (dec n) \<Longrightarrow> of_char c \<in> {48..57 :: nat}"
proof (induction n rule: dec.induct)
  case (1 n)
  show ?case
  proof (cases "n < 10")
    case True
    with 1(2) show ?thesis by (simp add: dec.simps [of n])
  next
    case False
    with 1(2) have "c \<in> set (dec (n div 10)) \<or> c = digit (n mod 10)"
      by (auto simp: dec.simps [of n])
    with 1(1) False show ?thesis by auto
  qed
qed

lemma length_dec: "n < 10 ^ k \<Longrightarrow> 0 < k \<Longrightarrow> length (dec n) \<le> k"
proof (induction k arbitrary: n)
  case 0
  then show ?case by simp
next
  case (Suc k)
  show ?case
  proof (cases "n < 10")
    case True
    then show ?thesis by (subst dec.simps) simp
  next
    case False
    with Suc.prems have "0 < k" by (cases k) auto
    moreover from Suc.prems have "n div 10 < 10 ^ k" by (simp add: less_mult_imp_div_less)
    ultimately have "length (dec (n div 10)) \<le> k" using Suc.IH by blast
    with False show ?thesis by (subst dec.simps) simp
  qed
qed

lemma length_dec_u32: "length (dec (unat (w :: u32))) \<le> 10"
proof -
  have "unat w < 2 ^ 32" using unsigned_less [of w] by simp
  then show ?thesis by (intro length_dec) simp_all
qed

section \<open>Splitting text at a separator\<close>

lemma takeWhile_separated:
  "c \<notin> set xs \<Longrightarrow> takeWhile (\<lambda>x. x \<noteq> c) (xs @ c # ys) = xs"
  by (induction xs) auto

lemma separated_eqD:
  assumes "xs @ c # ys = xs' @ c # ys'" and "c \<notin> set xs" and "c \<notin> set xs'"
  shows "xs = xs' \<and> ys = ys'"
proof -
  have "xs = xs'"
    using assms takeWhile_separated [of c xs ys] takeWhile_separated [of c xs' ys'] by simp
  with assms(1) show ?thesis by simp
qed

section \<open>Words\<close>

lemma xor_cancel_left [simp]: "x XOR a = x XOR b \<longleftrightarrow> a = (b :: 'a :: len word)"
  by (metis xor.assoc xor.left_neutral xor_self_eq)

lemma unat_u16_less: "unat (x :: u16) < 65536"
proof -
  have "unat x < 2 ^ 16" using unsigned_less [of x] by simp
  then show ?thesis by simp
qed

lemma unat_ucast_u16 [simp]: "unat (ucast (x :: u16) :: u64) = unat x"
  using unat_u16_less [of x] by (simp add: unsigned_ucast_eq take_bit_nat_eq_self_iff)

section \<open>Families indexed below a bound\<close>

text \<open>The lists and sums over the members of a family, split at the member that changes.\<close>

definition gather :: "('a \<Rightarrow> 'b list) \<Rightarrow> (nat \<Rightarrow> 'a) \<Rightarrow> nat \<Rightarrow> 'b list" where
  "gather g f n = concat (map (\<lambda>i. g (f i)) [0..<n])"

definition summed :: "('a \<Rightarrow> nat) \<Rightarrow> (nat \<Rightarrow> 'a) \<Rightarrow> nat \<Rightarrow> nat" where
  "summed g f n = (\<Sum>i < n. g (f i))"

lemma gather_split:
  assumes "w < n"
  obtains before after where "\<And>x. gather g (f(w := x)) n = before @ g x @ after"
    and "gather g f n = before @ g (f w) @ after"
proof -
  let ?b = "concat (map (\<lambda>i. g (f i)) [0..<w])" and ?a = "concat (map (\<lambda>i. g (f i)) [Suc w..<n])"
  have range: "[0..<n] = [0..<w] @ w # [Suc w..<n]"
    using assms by (metis le_add_same_cancel1 less_imp_add_positive upt_add_eq_append upt_conv_Cons zero_le)
  have others: "map (\<lambda>i. g ((f(w := x)) i)) [0..<w] = map (\<lambda>i. g (f i)) [0..<w]"
    "map (\<lambda>i. g ((f(w := x)) i)) [Suc w..<n] = map (\<lambda>i. g (f i)) [Suc w..<n]" for x
    by simp_all
  have "gather g (f(w := x)) n = ?b @ g x @ ?a" for x
    unfolding gather_def range map_append concat_append others list.map concat.simps by simp
  moreover have "gather g f n = ?b @ g (f w) @ ?a"
    unfolding gather_def range by simp
  ultimately show thesis by (rule that)
qed

lemma summed_update: "w < n \<Longrightarrow> summed g (f(w := x)) n + g (f w) = summed g f n + g x"
  by (simp add: summed_def sum.remove [of "{..<n}" w])

lemma summed_le: "(\<And>i. i < n \<Longrightarrow> g (f i) \<le> m) \<Longrightarrow> summed g f n \<le> m * n"
  using sum_bounded_above [of "{..<n}" "\<lambda>i. g (f i)" m] by (simp add: summed_def mult.commute)

lemma summed_eq_0: "summed g f n = 0 \<longleftrightarrow> (\<forall>i < n. g (f i) = 0)"
  by (auto simp: summed_def)

lemma gather_Nil: "gather g f n = [] \<longleftrightarrow> (\<forall>i < n. g (f i) = [])"
  by (auto simp: gather_def)

lemma length_gather: "length (gather g f n) = (\<Sum>i < n. length (g (f i)))"
  by (induction n) (simp_all add: gather_def)

lemma set_gather: "set (gather g f n) = (\<Union>i < n. set (g (f i)))"
  by (auto simp: gather_def)

end
