(* ===== verification/Error_Model.thy ===== *)
theory Error_Model
  imports Prelude
begin

text \<open>
  The error model of \<open>include/vosp/error.hpp\<close>: the category enumeration, the owning
  \<open>Error\<close> value, \<open>Result\<close> and \<open>OperationResult\<close>, the textual form, the hash, the exception
  boundary \<open>attempt\<close>, the predefined errors and the \<open>std::formatter\<close> specialisation.
\<close>

section \<open>Categories\<close>

text \<open>
  \<open>enum class Category : std::uint16_t\<close> may hold every 16-bit value, not the four named ones
  only (the tests build one with a cast), so the type wraps its underlying integer.
\<close>

datatype Category = Category (underlying: u16)

definition NETWORK :: Category where "NETWORK = Category 0"

definition DATABASE :: Category where "DATABASE = Category 1"

definition FILESYSTEM :: Category where "FILESYSTEM = Category 2"

definition NONE :: Category where "NONE = Category 0xffff"

lemmas category_defs = NETWORK_def DATABASE_def FILESYSTEM_def NONE_def

lemma category_distinct [simp]:
  "NETWORK \<noteq> DATABASE" "NETWORK \<noteq> FILESYSTEM" "NETWORK \<noteq> NONE"
  "DATABASE \<noteq> NETWORK" "DATABASE \<noteq> FILESYSTEM" "DATABASE \<noteq> NONE"
  "FILESYSTEM \<noteq> NETWORK" "FILESYSTEM \<noteq> DATABASE" "FILESYSTEM \<noteq> NONE"
  "NONE \<noteq> NETWORK" "NONE \<noteq> DATABASE" "NONE \<noteq> FILESYSTEM"
  by (simp_all add: category_defs)

instantiation Category :: linorder
begin

definition less_eq_Category :: "Category \<Rightarrow> Category \<Rightarrow> bool" where
  "less_eq_Category a b \<longleftrightarrow> underlying a \<le> underlying b"

definition less_Category :: "Category \<Rightarrow> Category \<Rightarrow> bool" where
  "less_Category a b \<longleftrightarrow> underlying a < underlying b"

instance
  by standard
    (auto simp: less_eq_Category_def less_Category_def Category.expand)

end

definition category_name :: "Category \<Rightarrow> string" where
  "category_name c =
     (if c = NETWORK then ''NETWORK''
      else if c = DATABASE then ''DATABASE''
      else if c = FILESYSTEM then ''FILESYSTEM''
      else if c = NONE then ''NONE''
      else ''UNKNOWN'')"

definition named :: "Category \<Rightarrow> bool" where
  "named c \<longleftrightarrow> c = NETWORK \<or> c = DATABASE \<or> c = FILESYSTEM \<or> c = NONE"

lemma category_name_inject:
  "named c \<Longrightarrow> named d \<Longrightarrow> category_name c = category_name d \<Longrightarrow> c = d"
  by (auto simp: named_def category_name_def)

lemma category_name_no_colon: "CHR '':'' \<notin> set (category_name c)"
  by (simp add: category_name_def)

lemma length_category_name: "length (category_name c) \<le> 10"
  by (simp add: category_name_def)

section \<open>Errors and results\<close>

record Error =
  err_message :: string
  err_code :: u32
  err_category :: Category

definition make_Error :: "Category \<Rightarrow> u32 \<Rightarrow> string \<Rightarrow> Error" where
  "make_Error category code message =
     \<lparr>err_message = message, err_code = code, err_category = category\<rparr>"

lemma make_Error_sel [simp]:
  "err_message (make_Error c n m) = m"
  "err_code (make_Error c n m) = n"
  "err_category (make_Error c n m) = c"
  by (simp_all add: make_Error_def)

lemma make_Error_inject [simp]:
  "make_Error c n m = make_Error c' n' m' \<longleftrightarrow> c = c' \<and> n = n' \<and> m = m'"
  by (auto simp: make_Error_def)

definition error_eq :: "Error \<Rightarrow> Error \<Rightarrow> bool" where
  "error_eq a b \<longleftrightarrow> err_message a = err_message b \<and> err_code a = err_code b \<and>
     err_category a = err_category b"

lemma error_eq_iff [simp]: "error_eq a b \<longleftrightarrow> a = b"
  by (auto simp: error_eq_def)

definition has_category :: "Error \<Rightarrow> bool" where
  "has_category e \<longleftrightarrow> err_category e \<noteq> NONE"

text \<open>
  \<open>std::expected<T, Error>\<close> is a sum: \<open>Inl\<close> holds the unexpected error, \<open>Inr\<close> the value.
\<close>

type_synonym 'a Result = "Error + 'a"
type_synonym OperationResult = "unit Result"

abbreviation ok :: OperationResult where "ok \<equiv> Inr ()"

definition Model_make_error :: "u32 \<Rightarrow> string \<Rightarrow> Error" where
  "Model_make_error code message = make_Error NONE code message"

section \<open>Textual form\<close>

definition to_string :: "Error \<Rightarrow> string" where
  "to_string e = ''['' @ category_name (err_category e) @ '':'' @ dec (unat (err_code e)) @
     ''] '' @ err_message e"

lemma dec_no_char: "of_char c \<notin> {48..57 :: nat} \<Longrightarrow> c \<notin> set (dec n)"
  using dec_digits by blast

lemma to_string_inject_named:
  assumes "named (err_category a)" and "named (err_category b)" and "to_string a = to_string b"
  shows "a = b"
proof -
  let ?rest = "\<lambda>e. dec (unat (err_code e)) @ CHR '']'' # CHR '' '' # err_message e"
  have "category_name (err_category a) @ CHR '':'' # ?rest a =
        category_name (err_category b) @ CHR '':'' # ?rest b"
    using assms(3) by (simp add: to_string_def)
  note split = separated_eqD [OF this category_name_no_colon category_name_no_colon]
  then have "?rest a = ?rest b" by (rule conjunct2)
  moreover have "CHR '']'' \<notin> set (dec n)" for n
    by (rule dec_no_char) simp
  ultimately have "dec (unat (err_code a)) = dec (unat (err_code b)) \<and>
    CHR '' '' # err_message a = CHR '' '' # err_message b"
    by (intro separated_eqD)
  with split show ?thesis
    using category_name_inject [OF assms(1,2)]
    by (auto intro!: Error.equality simp: word_unat_eq_iff)
qed

text \<open>
  \<open>std::formatter<Error>\<close>: \<open>parse\<close> reads the rest of the format string after the colon and
  leaves its iterator at the closing brace; any specifier throws \<open>std::format_error\<close>.
\<close>

datatype format_error = format_error string

definition formatter_parse :: "string \<Rightarrow> format_error + string" where
  "formatter_parse context =
     (if context \<noteq> [] \<and> hd context \<noteq> CHR ''}''
      then Inl (format_error ''vosp::error::Error does not accept format specifiers'')
      else Inr context)"

definition formatter_format :: "Error \<Rightarrow> string \<Rightarrow> string" where
  "formatter_format e out = out @ ''['' @ category_name (err_category e) @ '':'' @
     dec (unat (err_code e)) @ ''] '' @ err_message e"

lemma formatter_format_to_string: "formatter_format e out = out @ to_string e"
  by (simp add: formatter_format_def to_string_def)

section \<open>Hashing\<close>

text \<open>
  \<open>ErrorHash\<close> mixes three \<open>std::hash\<close> values, which are implementation-defined and therefore
  arguments here. \<open>size_t\<close> has 64 bits, so sums wrap and shifted-out bits are lost.
\<close>

definition error_hash ::
  "(u32 \<Rightarrow> u64) \<Rightarrow> (string \<Rightarrow> u64) \<Rightarrow> (u16 \<Rightarrow> u64) \<Rightarrow> Error \<Rightarrow> u64" where
  "error_hash hash32 hash_text hash16 e =
     (let code_hash = hash32 (err_code e);
          message_hash = hash_text (err_message e);
          category_hash = hash16 (underlying (err_category e))
      in (code_hash XOR (message_hash + 0x9e3779b9 + (push_bit 6 code_hash + drop_bit 2 code_hash)))
           XOR push_bit 1 category_hash)"

lemma push_bit_1_inject:
  fixes a b :: u64
  assumes "a < 2 ^ 63" and "b < 2 ^ 63" and "push_bit 1 a = push_bit 1 b"
  shows "a = b"
proof -
  have bound: "unat x < 2 ^ 63" if "x < 2 ^ 63" for x :: u64
    using that by (simp add: word_less_nat_alt)
  have "unat (push_bit 1 x) = 2 * unat x" if "x < 2 ^ 63" for x :: u64
    using bound [OF that] by (simp add: unat_word_ariths push_bit_eq_mult)
  with assms show ?thesis by (metis mult_cancel1 unat_eq_zero word_unat_eq_iff zero_neq_numeral)
qed

section \<open>The exception boundary\<close>

text \<open>
  A callable may change the state of the program and either returns, throws an object derived
  from \<open>std::exception\<close> (whose \<open>what()\<close> is a C string or the null pointer), or throws
  something else.
\<close>

datatype 'a completion = Returned 'a | Threw_std "string option" | Threw_other

type_synonym ('s, 'a) callable = "'s \<Rightarrow> 'a completion \<times> 's"

definition failure_text :: "string \<Rightarrow> string option \<Rightarrow> string" where
  "failure_text message diagnostic =
     (let detail = (case diagnostic of Some d \<Rightarrow> d | None \<Rightarrow> [])
      in if detail \<noteq> []
         then (if message \<noteq> [] then message @ '': '' else message) @ detail
         else message)"

definition completion_result :: "Error \<Rightarrow> 'a completion \<Rightarrow> 'a Result" where
  "completion_result failure c =
     (case c of
        Returned v \<Rightarrow> Inr v
      | Threw_std diagnostic \<Rightarrow>
          Inl (make_Error (err_category failure) (err_code failure)
                 (failure_text (err_message failure) diagnostic))
      | Threw_other \<Rightarrow> Inl failure)"

definition attempt :: "Error \<Rightarrow> ('s, 'a) callable \<Rightarrow> 's \<Rightarrow> 'a Result \<times> 's" where
  "attempt failure f s = (case f s of (c, s') \<Rightarrow> (completion_result failure c, s'))"

section \<open>Predefined codes and errors\<close>

definition duplicate_error_code :: u32 where "duplicate_error_code = 0xE001"

definition missing_error_code :: u32 where "missing_error_code = 0xE002"

definition missing_register_code :: u32 where "missing_register_code = 0xE003"

definition task_cancelled_code :: u32 where "task_cancelled_code = 0xE004"

definition register_capacity_error_code :: u32 where "register_capacity_error_code = 0xE005"

definition register_category_error_code :: u32 where "register_category_error_code = 0xE006"

lemmas framework_code_defs = duplicate_error_code_def missing_error_code_def
  missing_register_code_def task_cancelled_code_def register_capacity_error_code_def
  register_category_error_code_def

lemma framework_codes_distinct:
  "distinct [duplicate_error_code, missing_error_code, missing_register_code,
     task_cancelled_code, register_capacity_error_code, register_category_error_code]"
  by (simp add: framework_code_defs)

text \<open>
  \<open>predefined::make\<close> is \<open>noexcept\<close>: when the message cannot be allocated it falls back to the
  empty message. \<open>allocates\<close> says for which texts the allocation succeeds.
\<close>

definition predefined_make :: "(string \<Rightarrow> bool) \<Rightarrow> Category \<Rightarrow> u32 \<Rightarrow> string \<Rightarrow> Error" where
  "predefined_make allocates category code message =
     (if allocates message then make_Error category code message
      else make_Error category code [])"

definition predefined_errors :: "(string \<Rightarrow> bool) \<Rightarrow> Error list" where
  "predefined_errors allocates =
     [predefined_make allocates NETWORK 1000 ''Network error'',
      predefined_make allocates DATABASE 2000 ''Database error'',
      predefined_make allocates FILESYSTEM 3000 ''Filesystem error'',
      predefined_make allocates NONE 0 ''Uncategorized error'']"

section \<open>Properties\<close>

text \<open>
  C33. The textual form identifies an error: two errors with named categories that print the
  same \<open>[CATEGORY:code] message\<close> are equal, whatever characters their messages contain.
\<close>

theorem to_string_identifies_error:
  assumes "named (err_category a)" and "named (err_category b)" and "to_string a = to_string b"
  shows "error_eq a b"
  using to_string_inject_named [OF assms] by simp

theorem to_string_identifies_error_witness:
  "to_string (make_Error NONE 7 '']: x'') = ''[NONE:7] ]: x'' \<and>
   error_eq (make_Error NONE 7 '']: x'') (make_Error NONE 7 '']: x'')"
proof -
  have "named (err_category (make_Error NONE 7 '']: x''))" by (simp add: named_def)
  then have "error_eq (make_Error NONE 7 '']: x'') (make_Error NONE 7 '']: x'')"
    by (intro to_string_identifies_error) simp_all
  moreover have "to_string (make_Error NONE 7 '']: x'') = ''[NONE:7] ]: x''"
    by code_simp
  ultimately show ?thesis by blast
qed

text \<open>
  \<open>std::format("{}", error)\<close> appends exactly the text of \<open>to_string(error)\<close>: formatting an
  error with the empty specification is accepted and produces the stable representation, and a
  specification that is not empty is rejected with \<open>format_error\<close>.
\<close>

lemma formatter_agrees_with_to_string:
  "map_sum (\<lambda>x. x) (\<lambda>rest. (formatter_format e out, rest)) (formatter_parse (spec @ ''}'' @ rest)) =
     (if spec = [] \<or> hd spec = CHR ''}'' then Inr (out @ to_string e, spec @ ''}'' @ rest)
      else Inl (format_error ''vosp::error::Error does not accept format specifiers''))"
  by (cases spec) (auto simp: formatter_parse_def formatter_format_to_string)

text \<open>
  C34. \<open>attempt\<close> is an exception boundary: it returns a value exactly when the callable returned
  that value, otherwise an error with the category and code of \<open>failure\<close> whose message begins
  with the message of \<open>failure\<close>; the callable runs once, and its state changes are kept.
\<close>

theorem attempt_boundary:
  "snd (attempt failure f s) = snd (f s) \<and>
   (case fst (attempt failure f s) of
      Inr v \<Rightarrow> fst (f s) = Returned v
    | Inl e \<Rightarrow> (\<forall>v. fst (f s) \<noteq> Returned v) \<and> err_category e = err_category failure \<and>
        err_code e = err_code failure \<and>
        take (length (err_message failure)) (err_message e) = err_message failure)"
  by (auto simp: attempt_def completion_result_def failure_text_def Let_def
      split: prod.splits completion.splits)

text \<open>
  \<open>ErrorHash\<close> separates categories: when \<open>std::hash<uint16_t>\<close> is injective with values below
  \<open>2^63\<close> (so the left shift loses nothing), errors that agree in code and message and differ in
  category have different hashes.
\<close>

lemma hash_separates_categories:
  assumes "inj hash16" and "\<And>x. hash16 x < 2 ^ 63"
    and "err_code a = err_code b" and "err_message a = err_message b"
    and "err_category a \<noteq> err_category b"
  shows "error_hash hash32 hash_text hash16 a \<noteq> error_hash hash32 hash_text hash16 b"
proof
  assume "error_hash hash32 hash_text hash16 a = error_hash hash32 hash_text hash16 b"
  then have "push_bit 1 (hash16 (underlying (err_category a))) =
             push_bit 1 (hash16 (underlying (err_category b)))"
    using assms(3,4) by (simp add: error_hash_def Let_def)
  then have "hash16 (underlying (err_category a)) = hash16 (underlying (err_category b))"
    using push_bit_1_inject assms(2) by blast
  with assms(1,5) show False by (simp add: inj_eq Category.expand)
qed

lemma hash_separates_categories_witness:
  "error_hash ucast (\<lambda>s. of_nat (length s)) ucast (make_Error NETWORK 5 ''io'') \<noteq>
   error_hash ucast (\<lambda>s. of_nat (length s)) ucast (make_Error DATABASE 5 ''io'')"
proof (rule hash_separates_categories)
  show "inj (ucast :: u16 \<Rightarrow> u64)"
    by (metis injI unat_ucast_u16 word_unat_eq_iff)
  show "(ucast x :: u64) < 2 ^ 63" for x :: u16
    using unat_u16_less [of x] by (simp add: word_less_nat_alt)
qed simp_all

end
