(* ===== verification/Unordered_Map.thy ===== *)
theory Unordered_Map
  imports Prelude
begin

text \<open>
  The part of \<open>std::unordered_map\<close> that the registers use, over a list of bindings with
  distinct keys, and the contract the registers rely on as a locale. The iteration order of an
  \<open>unordered_map\<close> is unspecified, so no law mentions the order of the list.
\<close>

type_synonym ('k, 'v) umap = "('k \<times> 'v) list"

definition umap_find :: "('k, 'v) umap \<Rightarrow> 'k \<Rightarrow> 'v option" where
  "umap_find m = map_of m"

definition umap_contains :: "('k, 'v) umap \<Rightarrow> 'k \<Rightarrow> bool" where
  "umap_contains m k \<longleftrightarrow> k \<in> fst ` set m"

definition umap_try_emplace :: "('k, 'v) umap \<Rightarrow> 'k \<Rightarrow> 'v \<Rightarrow> ('k, 'v) umap \<times> bool" where
  "umap_try_emplace m k v = (if umap_contains m k then (m, False) else ((k, v) # m, True))"

definition umap_erase :: "('k, 'v) umap \<Rightarrow> 'k \<Rightarrow> ('k, 'v) umap \<times> nat" where
  "umap_erase m k = (AList.delete k m, if umap_contains m k then 1 else 0)"

definition umap_size :: "('k, 'v) umap \<Rightarrow> nat" where
  "umap_size m = length m"

definition umap_ok :: "('k, 'v) umap \<Rightarrow> bool" where
  "umap_ok m \<longleftrightarrow> distinct (map fst m)"

section \<open>The contract of a store with unique keys\<close>

locale unique_store =
  fixes empty :: 'm
    and lookup :: "'m \<Rightarrow> 'k \<Rightarrow> 'v option"
    and contains :: "'m \<Rightarrow> 'k \<Rightarrow> bool"
    and emplace :: "'m \<Rightarrow> 'k \<Rightarrow> 'v \<Rightarrow> 'm \<times> bool"
    and erase :: "'m \<Rightarrow> 'k \<Rightarrow> 'm \<times> nat"
    and count :: "'m \<Rightarrow> nat"
    and invar :: "'m \<Rightarrow> bool"
  assumes invar_empty: "invar empty"
    and lookup_empty: "lookup empty k = None"
    and contains_lookup: "contains m k \<longleftrightarrow> lookup m k \<noteq> None"
    and emplace_present: "lookup m k \<noteq> None \<Longrightarrow> emplace m k v = (m, False)"
    and emplace_flag: "lookup m k = None \<Longrightarrow> snd (emplace m k v)"
    and lookup_emplace: "lookup m k = None \<Longrightarrow> lookup (fst (emplace m k v)) = (lookup m)(k \<mapsto> v)"
    and invar_emplace: "invar m \<Longrightarrow> invar (fst (emplace m k v))"
    and lookup_erase: "lookup (fst (erase m k)) = (lookup m)(k := None)"
    and erase_count: "snd (erase m k) = (if lookup m k = None then 0 else 1)"
    and invar_erase: "invar m \<Longrightarrow> invar (fst (erase m k))"
    and finite_lookup: "finite (dom (lookup m))"
    and count_card: "invar m \<Longrightarrow> count m = card (dom (lookup m))"
begin

lemma count_empty: "count empty = 0"
proof -
  have "dom (lookup empty) = {}" using lookup_empty by (auto simp: dom_def)
  then show ?thesis using count_card [OF invar_empty] by simp
qed

lemma count_emplace:
  "invar m \<Longrightarrow> lookup m k = None \<Longrightarrow> count (fst (emplace m k v)) = Suc (count m)"
  using finite_lookup [of m] domIff [of k "lookup m"]
  by (simp add: count_card invar_emplace lookup_emplace)

lemma count_emplace_le: "invar m \<Longrightarrow> count (fst (emplace m k v)) \<le> Suc (count m)"
  using count_emplace [of m k v] emplace_present [of m k v] by (cases "lookup m k") auto

lemma count_erase: "invar m \<Longrightarrow> count (fst (erase m k)) = count m - snd (erase m k)"
  using finite_lookup [of m] domIff [of k "lookup m"]
  by (simp add: count_card invar_erase lookup_erase erase_count card_Diff_singleton_if)

lemma lookup_erase_emplace:
  "lookup m k = None \<Longrightarrow> lookup (fst (erase (fst (emplace m k v)) k)) = lookup m"
  by (simp add: lookup_erase lookup_emplace fun_upd_idem)

lemma lookup_emplace_any:
  "lookup (fst (emplace m k v)) = (if lookup m k = None then (lookup m)(k \<mapsto> v) else lookup m)"
  using lookup_emplace emplace_present by simp

end

text \<open>The list of bindings meets the contract.\<close>

interpretation um: unique_store "[]" umap_find umap_contains umap_try_emplace umap_erase
  umap_size umap_ok
proof unfold_locales
  fix m :: "('k, 'v) umap" and k :: 'k and v :: 'v
  show "umap_contains m k \<longleftrightarrow> umap_find m k \<noteq> None"
    by (auto simp: umap_contains_def umap_find_def map_of_eq_None_iff)
  show "umap_find m k \<noteq> None \<Longrightarrow> umap_try_emplace m k v = (m, False)"
    by (auto simp: umap_try_emplace_def umap_contains_def umap_find_def map_of_eq_None_iff)
  show "umap_find m k = None \<Longrightarrow> snd (umap_try_emplace m k v)"
    and "umap_find m k = None \<Longrightarrow> umap_find (fst (umap_try_emplace m k v)) = (umap_find m)(k \<mapsto> v)"
    by (auto simp: umap_try_emplace_def umap_contains_def umap_find_def map_of_eq_None_iff)
  show "umap_ok m \<Longrightarrow> umap_ok (fst (umap_try_emplace m k v))"
    by (auto simp: umap_ok_def umap_try_emplace_def umap_contains_def)
  show "umap_find (fst (umap_erase m k)) = (umap_find m)(k := None)"
    by (auto simp: umap_find_def umap_erase_def delete_conv')
  show "snd (umap_erase m k) = (if umap_find m k = None then 0 else 1)"
    by (auto simp: umap_erase_def umap_contains_def umap_find_def map_of_eq_None_iff)
  show "umap_ok m \<Longrightarrow> umap_ok (fst (umap_erase m k))"
    by (auto simp: umap_ok_def umap_erase_def intro: distinct_delete)
  show "finite (dom (umap_find m))"
    by (simp add: umap_find_def finite_dom_map_of)
  show "umap_ok m \<Longrightarrow> umap_size m = card (dom (umap_find m))"
    by (metis distinct_card dom_map_of_conv_image_fst length_map list.set_map umap_find_def
        umap_ok_def umap_size_def)
qed (simp_all add: umap_ok_def umap_find_def)

section \<open>Iteration\<close>

text \<open>A traversal order of the container: it visits every binding once, in some order.\<close>

definition traversal :: "(('k, 'v) umap \<Rightarrow> ('k \<times> 'v) list) \<Rightarrow> bool" where
  "traversal it \<longleftrightarrow> (\<forall>m. mset (it m) = mset m)"

lemma traversal_map:
  assumes "traversal it"
  shows "mset (map f (it m)) = mset (map f m)"
  using assms by (simp add: traversal_def)

lemma umap_ok_values:
  "umap_ok m \<Longrightarrow> image_mset snd (mset m) = image_mset (\<lambda>k. the (umap_find m k)) (mset_set (dom (umap_find m)))"
proof (induction m)
  case Nil
  then show ?case by (simp add: umap_find_def)
next
  case (Cons a m)
  obtain k v where a: "a = (k, v)" by force
  let ?D = "dom (umap_find m)"
  have k: "k \<notin> ?D" and "umap_ok m"
    using Cons.prems by (simp_all add: a umap_ok_def umap_find_def dom_map_of_conv_image_fst)
  then have IH: "image_mset snd (mset m) = image_mset (\<lambda>k. the (umap_find m k)) (mset_set ?D)"
    using Cons.IH by blast
  have "image_mset (\<lambda>k'. the (umap_find (a # m) k')) (mset_set ?D) =
        image_mset (\<lambda>k'. the (umap_find m k')) (mset_set ?D)"
    using k um.finite_lookup [of m] by (intro image_mset_cong) (auto simp: a umap_find_def)
  moreover have "dom (umap_find (a # m)) = insert k ?D" "the (umap_find (a # m) k) = v"
    by (auto simp: a umap_find_def)
  ultimately show ?case
    using k um.finite_lookup [of m] IH by (simp add: a)
qed

end
