(* ===== verification/Refinement.thy ===== *)
theory Refinement
  imports Prelude
begin

text \<open>
  Objects driven by a sequence of calls, and data refinement as an interface: an implementation
  step that commutes with an abstraction function under an invariant, and keeps the invariant,
  answers every sequence of calls as its specification does.
\<close>

fun run_calls :: "('c \<Rightarrow> 's \<Rightarrow> 'r \<times> 's) \<Rightarrow> 'c list \<Rightarrow> 's \<Rightarrow> 'r list \<times> 's" where
  "run_calls step [] s = ([], s)"
| "run_calls step (c # cs) s =
     (case step c s of (r, s') \<Rightarrow> map_prod (\<lambda>rs. r # rs) id (run_calls step cs s'))"

lemma length_run_calls [simp]: "length (fst (run_calls step cs s)) = length cs"
  by (induction cs arbitrary: s) (auto split: prod.splits)

lemma snd_run_calls_Cons:
  "snd (run_calls step (c # cs) s) = snd (run_calls step cs (snd (step c s)))"
  by (simp split: prod.splits)

lemma run_calls_snoc: "run_calls step (cs @ [c]) s =
    (case run_calls step cs s of (rs, s') \<Rightarrow> (case step c s' of (r, s'') \<Rightarrow> (rs @ [r], s'')))"
  by (induction cs arbitrary: s) (auto split: prod.splits)

locale data_refinement =
  fixes step :: "'c \<Rightarrow> 's \<Rightarrow> 'r \<times> 's"
    and spec :: "'c \<Rightarrow> 'a \<Rightarrow> 'r \<times> 'a"
    and view :: "'s \<Rightarrow> 'a"
    and invar :: "'s \<Rightarrow> bool"
  assumes commutes: "invar s \<Longrightarrow> map_prod id view (step c s) = spec c (view s)"
    and preserves: "invar s \<Longrightarrow> invar (snd (step c s))"
begin

lemma run_invar: "invar s \<Longrightarrow> invar (snd (run_calls step cs s))"
proof (induction cs arbitrary: s)
  case Nil
  then show ?case by simp
next
  case (Cons c cs)
  then show ?case using preserves unfolding snd_run_calls_Cons by blast
qed

lemma run_refines: "invar s \<Longrightarrow> map_prod id view (run_calls step cs s) = run_calls spec cs (view s)"
proof (induction cs arbitrary: s)
  case Nil
  then show ?case by simp
next
  case (Cons c cs)
  obtain r s' where step: "step c s = (r, s')" by force
  have "invar s'" using preserves [OF Cons.prems, of c] step by simp
  then have IH: "map_prod id view (run_calls step cs s') = run_calls spec cs (view s')"
    by (rule Cons.IH)
  have "spec c (view s) = (r, view s')" using commutes [OF Cons.prems, of c] step by simp
  with step show ?case
    by (simp add: IH [symmetric] prod.map_comp comp_def)
qed

lemma run_replies: "invar s \<Longrightarrow> fst (run_calls step cs s) = fst (run_calls spec cs (view s))"
  by (simp flip: run_refines)

lemma run_view: "invar s \<Longrightarrow> view (snd (run_calls step cs s)) = snd (run_calls spec cs (view s))"
  by (simp flip: run_refines)

end

end
