(* ===== verification/Registers.thy ===== *)
theory Registers
  imports Error_Model Unordered_Map Refinement
begin

text \<open>
  The bounded in-memory register of \<open>include/vosp/error.hpp\<close> (class \<open>Register\<close>), the interface
  \<open>IRegister\<close> it implements, and its refinement of a finite map from codes to errors. Every
  operation holds the register's mutex for its whole body under \<open>register_policy::ThreadSafe\<close>, so
  one call is one step on the state; under \<open>SingleThreaded\<close> the caller serialises the calls.
  \<open>size_t\<close> sizes are only compared here, never added, and are natural numbers.
\<close>

section \<open>State and construction\<close>

definition max_register_capacity :: nat where "max_register_capacity = 1000000"

record Register =
  register_category :: Category
  capacity_limit :: nat
  errors :: "(u32, Error) umap"

definition validate_limits :: "nat \<Rightarrow> nat \<Rightarrow> std_exception + unit" where
  "validate_limits expected_size capacity =
     (if capacity = 0 \<or> capacity > max_register_capacity
      then Inl (Invalid_argument ''Register capacity must be in [1, max_register_capacity]'')
      else if expected_size > capacity
      then Inl (Invalid_argument ''Register expected size exceeds its capacity limit'')
      else Inr ())"

text \<open>\<open>errors_.reserve\<close> allocates buckets only; the contents of the table stay as they are.\<close>

definition Register_new :: "Category \<Rightarrow> nat \<Rightarrow> nat \<Rightarrow> std_exception + Register" where
  "Register_new category expected_size capacity =
     (case validate_limits expected_size capacity of
        Inl e \<Rightarrow> Inl e
      | Inr _ \<Rightarrow> Inr \<lparr>register_category = category, capacity_limit = capacity, errors = []\<rparr>)"

definition reserve :: "nat \<Rightarrow> Register \<Rightarrow> (std_exception + unit) \<times> Register" where
  "reserve expected_size r = (validate_limits expected_size (capacity_limit r), r)"

section \<open>Operations\<close>

definition category_mismatch :: "Category \<Rightarrow> Error" where
  "category_mismatch c = make_Error c register_category_error_code
     ''Error category does not match this register''"

definition already_registered :: "Category \<Rightarrow> Error" where
  "already_registered c = make_Error c duplicate_error_code ''Error is already registered''"

definition capacity_reached :: "Category \<Rightarrow> Error" where
  "capacity_reached c = make_Error c register_capacity_error_code
     ''Error register capacity limit reached''"

definition not_registered :: "Category \<Rightarrow> Error" where
  "not_registered c = make_Error c missing_error_code ''Error is not registered''"

definition code_not_registered :: "Category \<Rightarrow> Error" where
  "code_not_registered c = make_Error c missing_error_code ''Error code is not registered''"

definition add :: "Error \<Rightarrow> Register \<Rightarrow> OperationResult \<times> Register" where
  "add e r =
     (if err_category e \<noteq> register_category r then (Inl (category_mismatch (register_category r)), r)
      else if umap_size (errors r) \<ge> capacity_limit r then
        (if umap_contains (errors r) (err_code e)
         then (Inl (already_registered (register_category r)), r)
         else (Inl (capacity_reached (register_category r)), r))
      else
        (case umap_try_emplace (errors r) (err_code e) e of (m, inserted) \<Rightarrow>
           (if \<not> inserted then Inl (already_registered (register_category r)) else ok,
            r\<lparr>errors := m\<rparr>)))"

definition remove :: "Error \<Rightarrow> Register \<Rightarrow> OperationResult \<times> Register" where
  "remove e r =
     (if err_category e \<noteq> register_category r then (Inl (category_mismatch (register_category r)), r)
      else
        (case umap_find (errors r) (err_code e) of
           None \<Rightarrow> (Inl (not_registered (register_category r)), r)
         | Some stored \<Rightarrow>
             if \<not> error_eq stored e then (Inl (not_registered (register_category r)), r)
             else (ok, r\<lparr>errors := fst (umap_erase (errors r) (err_code e))\<rparr>)))"

definition remove_code :: "u32 \<Rightarrow> Register \<Rightarrow> OperationResult \<times> Register" where
  "remove_code code r =
     (case umap_erase (errors r) code of (m, erased) \<Rightarrow>
        (if erased = 0 then Inl (code_not_registered (register_category r)) else ok, r\<lparr>errors := m\<rparr>))"

definition contains :: "Error \<Rightarrow> Register \<Rightarrow> bool" where
  "contains e r \<longleftrightarrow>
     (case umap_find (errors r) (err_code e) of None \<Rightarrow> False | Some stored \<Rightarrow> error_eq stored e)"

definition contains_code :: "u32 \<Rightarrow> Register \<Rightarrow> bool" where
  "contains_code code r \<longleftrightarrow> umap_contains (errors r) code"

definition find_code :: "u32 \<Rightarrow> Register \<Rightarrow> Error option" where
  "find_code code r = umap_find (errors r) code"

text \<open>\<open>snapshot\<close> copies the stored errors in the traversal order \<open>it\<close> of the hash table.\<close>

definition snapshot ::
  "((u32, Error) umap \<Rightarrow> (u32 \<times> Error) list) \<Rightarrow> Register \<Rightarrow> Error list" where
  "snapshot it r = map snd (it (errors r))"

definition clear :: "Register \<Rightarrow> nat \<times> Register" where
  "clear r = (umap_size (errors r), r\<lparr>errors := []\<rparr>)"

definition register_size :: "Register \<Rightarrow> nat" where
  "register_size r = umap_size (errors r)"

section \<open>Invariant\<close>

abbreviation reg_view :: "Register \<Rightarrow> u32 \<rightharpoonup> Error" where
  "reg_view r \<equiv> umap_find (errors r)"

definition reg_inv :: "Register \<Rightarrow> bool" where
  "reg_inv r \<longleftrightarrow> 0 < capacity_limit r \<and> capacity_limit r \<le> max_register_capacity \<and>
     umap_ok (errors r) \<and> umap_size (errors r) \<le> capacity_limit r \<and>
     (\<forall>k e. reg_view r k = Some e \<longrightarrow> err_code e = k \<and> err_category e = register_category r)"

lemma reg_inv_ok [dest]: "reg_inv r \<Longrightarrow> umap_ok (errors r)"
  by (simp add: reg_inv_def)

lemma Register_new_inv: "Register_new c n cap = Inr r \<Longrightarrow> reg_inv r"
  by (auto simp: Register_new_def validate_limits_def reg_inv_def umap_size_def
      um.invar_empty um.lookup_empty split: if_splits)

lemma add_frame [simp]:
  "register_category (snd (add e r)) = register_category r"
  "capacity_limit (snd (add e r)) = capacity_limit r"
  by (auto simp: add_def split: prod.splits)

lemma remove_frame [simp]:
  "register_category (snd (remove e r)) = register_category r"
  "capacity_limit (snd (remove e r)) = capacity_limit r"
  by (auto simp: remove_def split: option.splits)

lemma errors_add:
  "errors (snd (add e r)) =
     (if err_category e = register_category r \<and> umap_size (errors r) < capacity_limit r
      then fst (umap_try_emplace (errors r) (err_code e) e) else errors r)"
  by (auto simp: add_def split: prod.splits)

lemma result_add:
  "fst (add e r) =
     (if err_category e \<noteq> register_category r then Inl (category_mismatch (register_category r))
      else if reg_view r (err_code e) \<noteq> None then Inl (already_registered (register_category r))
      else if umap_size (errors r) \<ge> capacity_limit r
      then Inl (capacity_reached (register_category r))
      else ok)"
  using um.emplace_present [of "errors r" "err_code e" e]
    um.emplace_flag [of "errors r" "err_code e" e]
  by (auto simp: add_def um.contains_lookup split: prod.splits)

lemma add_inv: "reg_inv r \<Longrightarrow> reg_inv (snd (add e r))"
  using um.count_emplace_le [of "errors r" "err_code e" e]
  by (auto simp: reg_inv_def errors_add um.invar_emplace um.lookup_emplace_any split: if_splits)

lemma erase_inv:
  "reg_inv r \<Longrightarrow> reg_inv (r\<lparr>errors := fst (umap_erase (errors r) k)\<rparr>)"
  by (auto simp: reg_inv_def um.invar_erase um.lookup_erase um.count_erase split: if_splits)

lemma remove_inv: "reg_inv r \<Longrightarrow> reg_inv (snd (remove e r))"
  by (auto simp: remove_def erase_inv split: option.splits)

lemma remove_code_inv: "reg_inv r \<Longrightarrow> reg_inv (snd (remove_code k r))"
  using erase_inv [of r k] by (auto simp: remove_code_def split: prod.splits)

lemma clear_inv: "reg_inv r \<Longrightarrow> reg_inv (snd (clear r))"
  by (simp add: clear_def reg_inv_def um.invar_empty um.lookup_empty umap_size_def)

lemmas register_invs = add_inv remove_inv remove_code_inv clear_inv

section \<open>The specification: a finite map with a bound\<close>

text \<open>
  What a register promises, on a finite map from codes to errors and independently of the hash
  table: a known code is a duplicate whether the register is full or not.
\<close>

definition spec_add ::
  "Category \<Rightarrow> nat \<Rightarrow> Error \<Rightarrow> (u32 \<rightharpoonup> Error) \<Rightarrow> OperationResult \<times> (u32 \<rightharpoonup> Error)" where
  "spec_add c cap e m =
     (if err_category e \<noteq> c then (Inl (category_mismatch c), m)
      else if err_code e \<in> dom m then (Inl (already_registered c), m)
      else if card (dom m) \<ge> cap then (Inl (capacity_reached c), m)
      else (ok, m(err_code e \<mapsto> e)))"

definition spec_remove ::
  "Category \<Rightarrow> Error \<Rightarrow> (u32 \<rightharpoonup> Error) \<Rightarrow> OperationResult \<times> (u32 \<rightharpoonup> Error)" where
  "spec_remove c e m =
     (if err_category e \<noteq> c then (Inl (category_mismatch c), m)
      else if e \<notin> ran m then (Inl (not_registered c), m)
      else (ok, m |` (- {err_code e})))"

definition spec_remove_code ::
  "Category \<Rightarrow> u32 \<Rightarrow> (u32 \<rightharpoonup> Error) \<Rightarrow> OperationResult \<times> (u32 \<rightharpoonup> Error)" where
  "spec_remove_code c k m =
     (if k \<in> dom m then (ok, m |` (- {k})) else (Inl (code_not_registered c), m))"

datatype register_call =
    Call_add Error | Call_remove Error | Call_remove_code u32
  | Call_contains Error | Call_contains_code u32 | Call_find u32
  | Call_snapshot | Call_clear | Call_size | Call_reserve nat

datatype register_reply =
    Reply_result OperationResult | Reply_bool bool | Reply_find "Error option"
  | Reply_errors "Error multiset" | Reply_size nat | Reply_reserve "std_exception + unit"

fun perform ::
  "((u32, Error) umap \<Rightarrow> (u32 \<times> Error) list) \<Rightarrow> register_call \<Rightarrow> Register \<Rightarrow>
     register_reply \<times> Register" where
  "perform it (Call_add e) r = map_prod Reply_result id (add e r)"
| "perform it (Call_remove e) r = map_prod Reply_result id (remove e r)"
| "perform it (Call_remove_code k) r = map_prod Reply_result id (remove_code k r)"
| "perform it (Call_contains e) r = (Reply_bool (contains e r), r)"
| "perform it (Call_contains_code k) r = (Reply_bool (contains_code k r), r)"
| "perform it (Call_find k) r = (Reply_find (find_code k r), r)"
| "perform it Call_snapshot r = (Reply_errors (mset (snapshot it r)), r)"
| "perform it Call_clear r = map_prod Reply_size id (clear r)"
| "perform it Call_size r = (Reply_size (register_size r), r)"
| "perform it (Call_reserve n) r = map_prod Reply_reserve id (reserve n r)"

fun spec_call ::
  "Category \<Rightarrow> nat \<Rightarrow> register_call \<Rightarrow> (u32 \<rightharpoonup> Error) \<Rightarrow> register_reply \<times> (u32 \<rightharpoonup> Error)" where
  "spec_call c cap (Call_add e) m = map_prod Reply_result id (spec_add c cap e m)"
| "spec_call c cap (Call_remove e) m = map_prod Reply_result id (spec_remove c e m)"
| "spec_call c cap (Call_remove_code k) m = map_prod Reply_result id (spec_remove_code c k m)"
| "spec_call c cap (Call_contains e) m = (Reply_bool (e \<in> ran m), m)"
| "spec_call c cap (Call_contains_code k) m = (Reply_bool (k \<in> dom m), m)"
| "spec_call c cap (Call_find k) m = (Reply_find (m k), m)"
| "spec_call c cap Call_snapshot m =
     (Reply_errors (image_mset (\<lambda>k. the (m k)) (mset_set (dom m))), m)"
| "spec_call c cap Call_clear m = (Reply_size (card (dom m)), Map.empty)"
| "spec_call c cap Call_size m = (Reply_size (card (dom m)), m)"
| "spec_call c cap (Call_reserve n) m =
     (Reply_reserve (if n \<le> cap then Inr ()
        else Inl (Invalid_argument ''Register expected size exceeds its capacity limit'')), m)"

section \<open>Each operation refines its specification\<close>

lemma reg_inv_size: "reg_inv r \<Longrightarrow> umap_size (errors r) = card (dom (reg_view r))"
  by (auto intro: um.count_card)

lemma view_ran: "reg_inv r \<Longrightarrow> e \<in> ran (reg_view r) \<longleftrightarrow> reg_view r (err_code e) = Some e"
  by (auto simp: reg_inv_def ran_def)

lemma restrict_minus_single: "m |` (- {k}) = m(k := None)"
  by (auto simp: restrict_map_def fun_eq_iff)

lemma add_refines:
  "reg_inv r \<Longrightarrow> map_prod id reg_view (add e r) =
     spec_add (register_category r) (capacity_limit r) e (reg_view r)"
  by (rule prod_eqI)
    (auto simp: result_add spec_add_def errors_add um.lookup_emplace_any reg_inv_size)

lemma remove_refines:
  "reg_inv r \<Longrightarrow> map_prod id reg_view (remove e r) =
     spec_remove (register_category r) e (reg_view r)"
  by (auto simp: remove_def spec_remove_def view_ran um.lookup_erase restrict_minus_single
      split: option.splits)

lemma remove_code_refines:
  "map_prod id reg_view (remove_code k r) =
     spec_remove_code (register_category r) k (reg_view r)"
  by (auto simp: remove_code_def spec_remove_code_def restrict_minus_single case_prod_unfold
      um.lookup_erase um.erase_count fun_upd_idem)

lemma snapshot_refines:
  "traversal it \<Longrightarrow> umap_ok (errors r) \<Longrightarrow>
     mset (snapshot it r) = image_mset (\<lambda>k. the (reg_view r k)) (mset_set (dom (reg_view r)))"
  using traversal_map [of it snd "errors r"] by (simp add: snapshot_def umap_ok_values)

lemma clear_refines:
  "reg_inv r \<Longrightarrow> map_prod id reg_view (clear r) = (card (dom (reg_view r)), Map.empty)"
  by (auto simp: clear_def reg_inv_size um.lookup_empty)

lemma reserve_refines:
  "reg_inv r \<Longrightarrow> reserve n r =
     (if n \<le> capacity_limit r then Inr ()
      else Inl (Invalid_argument ''Register expected size exceeds its capacity limit''), r)"
  by (auto simp: reserve_def validate_limits_def reg_inv_def)

lemmas register_refines = add_refines remove_refines remove_code_refines snapshot_refines
  clear_refines reserve_refines

lemma perform_frame:
  "register_category (snd (perform it c r)) = register_category r \<and>
   capacity_limit (snd (perform it c r)) = capacity_limit r"
  by (cases c) (auto simp: remove_code_def clear_def reserve_def split: prod.splits)

lemma perform_inv: "reg_inv r \<Longrightarrow> reg_inv (snd (perform it c r))"
  by (cases c) (auto simp: register_invs reserve_def)

lemma map_prod_view: "map_prod id f (map_prod g id p) = map_prod g id (map_prod id f p)"
  by (cases p) simp

lemma perform_refines:
  "reg_inv r \<Longrightarrow> traversal it \<Longrightarrow> map_prod id reg_view (perform it c r) =
     spec_call (register_category r) (capacity_limit r) c (reg_view r)"
  by (cases c)
    (auto simp: map_prod_view register_refines reg_inv_ok contains_def contains_code_def
      find_code_def register_size_def reg_inv_size view_ran um.contains_lookup split: option.splits)

interpretation reg: data_refinement "perform it" "spec_call c cap" reg_view
  "\<lambda>r. reg_inv r \<and> register_category r = c \<and> capacity_limit r = cap \<and> traversal it"
  for it c cap
  by unfold_locales (auto simp: perform_refines perform_inv perform_frame)

lemma Register_new_fields:
  "Register_new c n cap = Inr r \<Longrightarrow>
     register_category r = c \<and> capacity_limit r = cap \<and> reg_view r = Map.empty"
  by (auto simp: Register_new_def um.lookup_empty split: sum.splits)

lemma snapshot_codes_distinct:
  assumes "reg_inv r" and "traversal it"
  shows "distinct (map err_code (snapshot it r))"
proof -
  have codes: "map err_code (map snd (errors r)) = map fst (errors r)"
    using assms(1) by (auto simp: reg_inv_def umap_ok_def umap_find_def)
  have "distinct (map err_code (map snd (errors r)))"
    unfolding codes using assms(1) by (simp add: reg_inv_def umap_ok_def)
  moreover have "mset (map err_code (snapshot it r)) = mset (map err_code (map snd (errors r)))"
    using traversal_map [OF assms(2), of "\<lambda>b. err_code (snd b)" "errors r"]
    by (simp add: snapshot_def image_mset.compositionality comp_def)
  ultimately show ?thesis using mset_eq_imp_distinct_iff by blast
qed

lemma snapshot_categories:
  assumes "reg_inv r" and "traversal it" and "e \<in> set (snapshot it r)"
  shows "err_category e = register_category r"
proof -
  have "set (snapshot it r) = set (map snd (errors r))"
    using traversal_map [OF assms(2), of snd "errors r"] by (metis snapshot_def set_mset_mset)
  with assms(1,3) show ?thesis by (auto simp: reg_inv_def umap_ok_def umap_find_def)
qed

lemma reg_inv_limits:
  assumes "reg_inv r" and "traversal it"
  shows "register_size r \<le> capacity_limit r \<and> capacity_limit r \<le> 1000000 \<and>
    distinct (map err_code (snapshot it r)) \<and>
    (\<forall>e \<in> set (snapshot it r). err_category e = register_category r)"
proof (intro conjI ballI)
  show "register_size r \<le> capacity_limit r" and "capacity_limit r \<le> 1000000"
    using assms(1) by (simp_all add: register_size_def reg_inv_def max_register_capacity_def)
  show "err_category e = register_category r" if "e \<in> set (snapshot it r)" for e
    using assms that by (rule snapshot_categories)
qed (simp add: assms snapshot_codes_distinct)

lemma erase_absent: "umap_find m k = None \<Longrightarrow> fst (umap_erase m k) = m"
  by (simp add: umap_erase_def umap_find_def map_of_eq_None_iff delete_idem)

section \<open>Properties\<close>

text \<open>
  C1. A register is a bounded map: every sequence of calls on a freshly constructed register gets
  the replies that the finite-map specification gives, and leaves the contents the specification
  leaves, whatever order the hash table is traversed in.
\<close>

theorem register_refines_bounded_map:
  assumes "Register_new c n cap = Inr r" and "traversal it"
  shows "fst (run_calls (perform it) cs r) = fst (run_calls (spec_call c cap) cs Map.empty) \<and>
    reg_view (snd (run_calls (perform it) cs r)) = snd (run_calls (spec_call c cap) cs Map.empty)"
proof -
  have "reg_inv r \<and> register_category r = c \<and> capacity_limit r = cap \<and> traversal it"
    using assms Register_new_inv Register_new_fields by blast
  then show ?thesis
    using reg.run_replies reg.run_view Register_new_fields [OF assms(1)] by metis
qed

theorem register_refines_bounded_map_witness:
  "fst (run_calls (perform rev)
     [Call_add (make_Error NETWORK 7 ''io''), Call_add (make_Error NETWORK 7 ''again''), Call_size]
     \<lparr>register_category = NETWORK, capacity_limit = 1, errors = []\<rparr>) =
   [Reply_result ok, Reply_result (Inl (already_registered NETWORK)), Reply_size 1]"
  (is "fst (run_calls _ ?cs ?r) = _")
proof -
  have "Register_new NETWORK 1 1 = Inr ?r"
    by (simp add: Register_new_def validate_limits_def max_register_capacity_def)
  moreover have "traversal rev" by (simp add: traversal_def)
  ultimately have "fst (run_calls (perform rev) ?cs ?r) =
      fst (run_calls (spec_call NETWORK 1) ?cs Map.empty)"
    by (intro register_refines_bounded_map [THEN conjunct1])
  also have "\<dots> = [Reply_result ok, Reply_result (Inl (already_registered NETWORK)), Reply_size 1]"
    by (simp add: spec_add_def)
  finally show ?thesis .
qed

text \<open>
  C29. A register never exceeds its capacity and keeps one error per code, all of its own category:
  after any calls on a fresh register, the size is within the limit that was configured, the codes
  of a snapshot are distinct, and every snapshot element has the category of the register.
\<close>

theorem register_keeps_limits:
  assumes "Register_new c n cap = Inr r" and "traversal it"
  shows "register_size (snd (run_calls (perform it) cs r)) \<le> cap \<and> cap \<le> 1000000 \<and>
    distinct (map err_code (snapshot it (snd (run_calls (perform it) cs r)))) \<and>
    (\<forall>e \<in> set (snapshot it (snd (run_calls (perform it) cs r))). err_category e = c)"
proof -
  let ?r = "snd (run_calls (perform it) cs r)"
  have "reg_inv ?r \<and> register_category ?r = c \<and> capacity_limit ?r = cap \<and> traversal it"
    using assms Register_new_inv Register_new_fields by (intro reg.run_invar) blast
  then show ?thesis using reg_inv_limits [of ?r it] by simp
qed

theorem register_keeps_limits_witness:
  "register_size (snd (run_calls (perform rev)
     [Call_add (make_Error NONE 1 []), Call_add (make_Error NONE 2 []), Call_add (make_Error NONE 3 [])]
     \<lparr>register_category = NONE, capacity_limit = 2, errors = []\<rparr>)) \<le> 2"
  (is "register_size (snd (run_calls _ ?cs ?r)) \<le> _")
proof -
  have "Register_new NONE 0 2 = Inr ?r"
    by (simp add: Register_new_def validate_limits_def max_register_capacity_def)
  moreover have "traversal rev" by (simp add: traversal_def)
  ultimately show ?thesis by (intro register_keeps_limits [THEN conjunct1])
qed

text \<open>
  Storing and retrieving: when \<open>add\<close> accepts an error, \<open>find\<close> by its code and \<open>contains\<close> see
  exactly that error, the size grows by one, and removing it succeeds and restores the contents.
\<close>

lemma add_find_remove_roundtrip:
  assumes "reg_inv r" and "fst (add e r) = ok"
  shows "find_code (err_code e) (snd (add e r)) = Some e \<and> contains e (snd (add e r)) \<and>
    register_size (snd (add e r)) = Suc (register_size r) \<and>
    fst (remove e (snd (add e r))) = ok \<and> reg_view (snd (remove e (snd (add e r)))) = reg_view r"
proof -
  have c: "err_category e = register_category r" "reg_view r (err_code e) = None"
    "umap_size (errors r) < capacity_limit r"
    using assms(2) by (auto simp: result_add split: if_splits)
  then have m: "errors (snd (add e r)) = fst (umap_try_emplace (errors r) (err_code e) e)"
    by (simp add: errors_add)
  with c show ?thesis
    using assms(1)
    by (simp add: find_code_def contains_def register_size_def remove_def um.lookup_emplace
        um.count_emplace reg_inv_ok um.lookup_erase fun_upd_idem)
qed

lemma add_find_remove_roundtrip_witness:
  "find_code 7 (snd (add (make_Error NONE 7 ''x'')
     \<lparr>register_category = NONE, capacity_limit = 2, errors = []\<rparr>)) = Some (make_Error NONE 7 ''x'')"
proof -
  let ?r = "\<lparr>register_category = NONE, capacity_limit = 2, errors = []\<rparr>"
  have "reg_inv ?r" by (simp add: reg_inv_def max_register_capacity_def umap_ok_def umap_size_def umap_find_def)
  moreover have "fst (add (make_Error NONE 7 ''x'') ?r) = ok"
    by (simp add: result_add umap_find_def umap_size_def)
  ultimately show ?thesis using add_find_remove_roundtrip by fastforce
qed

lemmas register_errors = category_mismatch_def already_registered_def capacity_reached_def
  not_registered_def code_not_registered_def

text \<open>
  C30. A failed operation changes nothing: when \<open>add\<close>, \<open>remove(error)\<close> or \<open>remove(code)\<close> reports
  an error, the register is exactly the one before the call, and the reported error names the category
  of the register, whatever the category of the argument.
\<close>

theorem failed_operations_keep_register:
  "(fst (add e r) \<noteq> ok \<longrightarrow> snd (add e r) = r \<and>
     (\<exists>err. fst (add e r) = Inl err \<and> err_category err = register_category r)) \<and>
   (fst (remove e r) \<noteq> ok \<longrightarrow> snd (remove e r) = r \<and>
     (\<exists>err. fst (remove e r) = Inl err \<and> err_category err = register_category r)) \<and>
   (fst (remove_code k r) \<noteq> ok \<longrightarrow> snd (remove_code k r) = r \<and>
     (\<exists>err. fst (remove_code k r) = Inl err \<and> err_category err = register_category r))"
proof (intro conjI impI)
  assume "fst (add e r) \<noteq> ok"
  then have "errors (snd (add e r)) = errors r"
    using um.emplace_present [of "errors r" "err_code e" e]
    by (auto simp: result_add errors_add split: if_splits)
  then show "snd (add e r) = r" by (simp add: Register.equality)
next
  assume "fst (remove e r) \<noteq> ok"
  then show "snd (remove e r) = r" by (auto simp: remove_def split: option.splits if_splits)
next
  assume "fst (remove_code k r) \<noteq> ok"
  then show "snd (remove_code k r) = r"
    by (auto simp: remove_code_def case_prod_unfold um.erase_count erase_absent split: if_splits)
qed (auto simp: add_def remove_def remove_code_def register_errors case_prod_unfold
    split: option.splits if_splits)

theorem failed_operations_keep_register_witness:
  "let r = \<lparr>register_category = NONE, capacity_limit = 2, errors = []\<rparr> in
   snd (add (make_Error NETWORK 7 ''x'') r) = r \<and>
   (\<exists>err. fst (add (make_Error NETWORK 7 ''x'') r) = Inl err \<and> err_category err = NONE)"
  using failed_operations_keep_register
    [of "make_Error NETWORK 7 ''x''" "\<lparr>register_category = NONE, capacity_limit = 2, errors = []\<rparr>"]
  by (simp add: result_add)

end
