(* ===== verification/Concurrent_Register.thy ===== *)
theory Concurrent_Register
  imports Registers
begin

text \<open>
  A \<open>Register<Category, Policy>\<close> of \<open>include/vosp/error.hpp\<close> that several threads use directly. The
  body of an operation is not atomic: it reads the hash table and writes it back later. With
  \<open>register_policy::ThreadSafe\<close> a thread holds the mutex of the register meanwhile; the mutex of
  \<open>register_policy::SingleThreaded\<close> does nothing. A \<open>reserve\<close> whose
  limits do not fit is refused before it locks.
\<close>

datatype register_policy = ThreadSafe | SingleThreaded

text \<open>Where a thread stands: outside, before the lock, in the critical section before and after its
  read, after its write, or with its reply.\<close>

datatype register_phase =
    Away
  | Calling register_call
  | Locked register_call
  | Holding_copy register_call Register
  | Written register_reply
  | Answered register_reply

record shared_register =
  object :: Register
  mutex :: "nat option"
  phases :: "nat \<Rightarrow> register_phase"
  completed :: "(register_call \<times> register_reply) list"

definition shared_start :: "Register \<Rightarrow> shared_register" where
  "shared_start r = \<lparr>object = r, mutex = None, phases = (\<lambda>_. Away), completed = []\<rparr>"

definition acquire_mutex :: "register_policy \<Rightarrow> nat \<Rightarrow> shared_register \<Rightarrow> shared_register option" where
  "acquire_mutex policy t s =
     (case policy of
        ThreadSafe \<Rightarrow> (if mutex s = None then Some (s\<lparr>mutex := Some t\<rparr>) else None)
      | SingleThreaded \<Rightarrow> Some s)"

definition release_mutex :: "register_policy \<Rightarrow> shared_register \<Rightarrow> shared_register" where
  "release_mutex policy s =
     (case policy of ThreadSafe \<Rightarrow> s\<lparr>mutex := None\<rparr> | SingleThreaded \<Rightarrow> s)"

text \<open>The calls that are refused before the lock.\<close>

fun refused_early :: "register_call \<Rightarrow> Register \<Rightarrow> bool" where
  "refused_early (Call_reserve n) r \<longleftrightarrow> validate_limits n (capacity_limit r) \<noteq> Inr ()"
| "refused_early c r \<longleftrightarrow> False"

definition turn_to :: "nat \<Rightarrow> register_phase \<Rightarrow> shared_register \<Rightarrow> shared_register" where
  "turn_to t p s = s\<lparr>phases := (phases s)(t := p)\<rparr>"

inductive shared_step :: "((u32, Error) umap \<Rightarrow> (u32 \<times> Error) list) \<Rightarrow> register_policy \<Rightarrow>
    shared_register \<Rightarrow> shared_register \<Rightarrow> bool" for it policy where
  calls: "phases s t = Away \<Longrightarrow> shared_step it policy s (turn_to t (Calling c) s)"
| refuses: "phases s t = Calling c \<Longrightarrow> refused_early c (object s) \<Longrightarrow>
     fst (perform it c (object s)) = answer \<Longrightarrow>
     shared_step it policy s (turn_to t (Answered answer) (s\<lparr>completed := completed s @ [(c, answer)]\<rparr>))"
| locks: "phases s t = Calling c \<Longrightarrow> \<not> refused_early c (object s) \<Longrightarrow> acquire_mutex policy t s = Some s1 \<Longrightarrow>
     shared_step it policy s (turn_to t (Locked c) s1)"
| reads: "phases s t = Locked c \<Longrightarrow> shared_step it policy s (turn_to t (Holding_copy c (object s)) s)"
| changes: "phases s t = Holding_copy c r \<Longrightarrow> perform it c r = (answer, r') \<Longrightarrow>
     shared_step it policy s
       (turn_to t (Written answer) (s\<lparr>object := r', completed := completed s @ [(c, answer)]\<rparr>))"
| unlocks: "phases s t = Written answer \<Longrightarrow>
     shared_step it policy s (turn_to t (Answered answer) (release_mutex policy s))"
| answers: "phases s t = Answered answer \<Longrightarrow> shared_step it policy s (turn_to t Away s)"

inductive shared_reach :: "((u32, Error) umap \<Rightarrow> (u32 \<times> Error) list) \<Rightarrow> register_policy \<Rightarrow> Register \<Rightarrow>
    shared_register \<Rightarrow> bool" for it policy r where
  shared: "shared_reach it policy r (shared_start r)"
| moves: "shared_reach it policy r s \<Longrightarrow> shared_step it policy s s' \<Longrightarrow> shared_reach it policy r s'"

section \<open>Schedules\<close>

datatype register_move = Call nat register_call | Go nat

fun register_turn :: "((u32, Error) umap \<Rightarrow> (u32 \<times> Error) list) \<Rightarrow> register_policy \<Rightarrow> register_move \<Rightarrow>
    shared_register \<Rightarrow> shared_register option" where
  "register_turn it policy (Call t c) s =
     (case phases s t of Away \<Rightarrow> Some (turn_to t (Calling c) s) | _ \<Rightarrow> None)"
| "register_turn it policy (Go t) s =
     (case phases s t of
        Away \<Rightarrow> None
      | Calling c \<Rightarrow>
          if refused_early c (object s)
          then (let answer = fst (perform it c (object s)) in
            Some (turn_to t (Answered answer) (s\<lparr>completed := completed s @ [(c, answer)]\<rparr>)))
          else map_option (turn_to t (Locked c)) (acquire_mutex policy t s)
      | Locked c \<Rightarrow> Some (turn_to t (Holding_copy c (object s)) s)
      | Holding_copy c r \<Rightarrow> (case perform it c r of (answer, r') \<Rightarrow>
          Some (turn_to t (Written answer) (s\<lparr>object := r', completed := completed s @ [(c, answer)]\<rparr>)))
      | Written answer \<Rightarrow> Some (turn_to t (Answered answer) (release_mutex policy s))
      | Answered answer \<Rightarrow> Some (turn_to t Away s))"

lemma register_turn_step: "register_turn it policy m s = Some s' \<Longrightarrow> shared_step it policy s s'"
  by (cases m) (auto simp: Let_def split: register_phase.splits if_splits prod.splits intro: shared_step.intros)

fun register_turns :: "((u32, Error) umap \<Rightarrow> (u32 \<times> Error) list) \<Rightarrow> register_policy \<Rightarrow> register_move list \<Rightarrow>
    shared_register \<Rightarrow> shared_register option" where
  "register_turns it policy [] s = Some s"
| "register_turns it policy (m # ms) s =
     (case register_turn it policy m s of Some s' \<Rightarrow> register_turns it policy ms s' | None \<Rightarrow> None)"

lemma register_turns_reach:
  "register_turns it policy ms s = Some s' \<Longrightarrow> shared_reach it policy r s \<Longrightarrow> shared_reach it policy r s'"
proof (induction it policy ms s rule: register_turns.induct)
  case (2 it policy m ms s)
  then show ?case using register_turn_step shared_reach.moves by (fastforce split: option.splits)
qed simp

section \<open>Exclusion and replay\<close>

fun in_section :: "register_phase \<Rightarrow> bool" where
  "in_section (Locked c) = True"
| "in_section (Holding_copy c r) = True"
| "in_section (Written answer) = True"
| "in_section p = False"

definition shared_inv :: "((u32, Error) umap \<Rightarrow> (u32 \<times> Error) list) \<Rightarrow> Register \<Rightarrow> shared_register \<Rightarrow> bool" where
  "shared_inv it r s \<longleftrightarrow>
     (\<forall>t. in_section (phases s t) \<longleftrightarrow> mutex s = Some t) \<and>
     (\<forall>t c copy. phases s t = Holding_copy c copy \<longrightarrow> copy = object s) \<and>
     run_calls (perform it) (map fst (completed s)) r = (map snd (completed s), object s)"

lemma refused_early_same: "refused_early c r \<Longrightarrow> snd (perform it c r) = r"
  by (cases c) (auto simp: reserve_def)

lemma shared_inv_phase:
  assumes "shared_inv it r s" and "in_section p \<longleftrightarrow> in_section (phases s t)"
    and "\<And>c copy. p = Holding_copy c copy \<Longrightarrow> copy = object s"
  shows "shared_inv it r (turn_to t p s)"
  using assms by (auto simp: shared_inv_def turn_to_def)

lemma shared_step_inv: "shared_step it ThreadSafe s s' \<Longrightarrow> shared_inv it r s \<Longrightarrow> shared_inv it r s'"
proof (induction rule: shared_step.induct)
  case (calls s t c)
  then show ?case by (intro shared_inv_phase) simp_all
next
  case (refuses s t c answer)
  let ?s = "s\<lparr>completed := completed s @ [(c, answer)]\<rparr>"
  have "perform it c (object s) = (answer, object s)"
    using refuses(3) refused_early_same [OF refuses(2), of it] by (simp add: prod_eq_iff)
  then have "shared_inv it r ?s" using refuses(4) by (simp add: shared_inv_def run_calls_snoc)
  then show ?case using refuses(1) by (intro shared_inv_phase) simp_all
next
  case (locks s t c s1)
  then have s1: "mutex s = None" "s1 = s\<lparr>mutex := Some t\<rparr>" by (simp_all add: acquire_mutex_def split: if_splits)
  have out: "\<not> in_section (phases s u)" for u using locks(4) s1(1) by (simp add: shared_inv_def)
  have "phases s u \<noteq> Holding_copy d cp" for u d cp using out [of u] by auto
  then show ?case using locks(4) out by (simp add: s1(2) shared_inv_def turn_to_def)
next
  case (reads s t c)
  then show ?case by (intro shared_inv_phase) simp_all
next
  case (changes s t c copy answer r')
  have sec: "in_section (phases s u) \<longleftrightarrow> mutex s = Some u" and copies: "phases s u = Holding_copy d cp \<Longrightarrow> cp = object s"
    and run: "run_calls (perform it) (map fst (completed s)) r = (map snd (completed s), object s)" for u d cp
    using changes(3) by (simp_all add: shared_inv_def)
  have copy: "copy = object s" and mine: "mutex s = Some t" using copies [OF changes(1)] sec [of t] changes(1) by simp_all
  have "phases s u \<noteq> Holding_copy d cp" if "u \<noteq> t" for u d cp using sec [of u] mine that by auto
  then show ?case
    using sec mine run changes(2) by (simp add: shared_inv_def turn_to_def run_calls_snoc copy)
next
  case (unlocks s t answer)
  have sec: "in_section (phases s u) \<longleftrightarrow> mutex s = Some u" and copies: "phases s u = Holding_copy d cp \<Longrightarrow> cp = object s"
    and run: "run_calls (perform it) (map fst (completed s)) r = (map snd (completed s), object s)" for u d cp
    using unlocks(2) by (simp_all add: shared_inv_def)
  have mine: "mutex s = Some t" using sec [of t] unlocks(1) by simp
  have "\<not> in_section (phases s u)" if "u \<noteq> t" for u using sec [of u] mine that by simp
  then show ?case
    using copies run by (simp add: shared_inv_def turn_to_def release_mutex_def)
next
  case (answers s t answer)
  then show ?case by (intro shared_inv_phase) simp_all
qed

lemma shared_reach_inv: "shared_reach it ThreadSafe r s \<Longrightarrow> shared_inv it r s"
proof (induction rule: shared_reach.induct)
  case shared
  then show ?case by (simp add: shared_inv_def shared_start_def)
next
  case (moves s s')
  then show ?case using shared_step_inv by blast
qed

section \<open>Properties\<close>

text \<open>
  C4. A default register linearises when threads use it directly: whatever calls of \<open>add\<close>, \<open>remove\<close>,
  \<open>find\<close>, \<open>contains\<close>, \<open>snapshot\<close>, \<open>clear\<close>, \<open>size\<close> and \<open>reserve\<close> interleave, the completed ones,
  one after the other, got the replies of a bounded map from codes to errors and left the register at
  that map; at most one thread is in the critical section.
\<close>

theorem concurrent_register_linearizes:
  assumes "Register_new c n cap = Inr r" and "traversal it" and "shared_reach it ThreadSafe r s"
  shows "run_calls (spec_call c cap) (map fst (completed s)) Map.empty =
      (map snd (completed s), reg_view (object s)) \<and>
    (in_section (phases s t) \<and> in_section (phases s u) \<longrightarrow> t = u)"
proof
  have inv: "shared_inv it r s" by (rule shared_reach_inv [OF assms(3)])
  have ok: "reg_inv r \<and> register_category r = c \<and> capacity_limit r = cap \<and> traversal it"
    using Register_new_fields [OF assms(1)] Register_new_inv [OF assms(1)] assms(2) by simp
  have "run_calls (spec_call c cap) (map fst (completed s)) Map.empty =
      map_prod id reg_view (run_calls (perform it) (map fst (completed s)) r)"
    using reg.run_refines [OF ok] Register_new_fields [OF assms(1)] by simp
  then show "run_calls (spec_call c cap) (map fst (completed s)) Map.empty =
      (map snd (completed s), reg_view (object s))"
    using inv by (simp add: shared_inv_def)
  show "in_section (phases s t) \<and> in_section (phases s u) \<longrightarrow> t = u"
    using inv by (auto simp: shared_inv_def)
qed

text \<open>Two threads add the same code; the second waits for the mutex and is told of the duplicate.\<close>

definition racing_adds :: "register_move list" where
  "racing_adds = [Call 0 (Call_add (make_Error NETWORK 7 ''x'')), Call 1 (Call_add (make_Error NETWORK 7 ''y'')),
     Go 1, Go 1, Go 1, Go 1, Go 0, Go 0, Go 0]"

lemma racing_run:
  "case register_turns id ThreadSafe racing_adds
      (shared_start \<lparr>register_category = NETWORK, capacity_limit = 2, errors = []\<rparr>) of
     Some s \<Rightarrow> map snd (completed s) = [Reply_result ok, Reply_result (Inl (already_registered NETWORK))]
   | None \<Rightarrow> False"
  by code_simp

theorem concurrent_register_linearizes_witness:
  "\<exists>r s. Register_new NETWORK 1 2 = Inr r \<and> shared_reach id ThreadSafe r s \<and>
     fst (run_calls (spec_call NETWORK 2) (map fst (completed s)) Map.empty) =
       [Reply_result ok, Reply_result (Inl (already_registered NETWORK))]"
proof -
  let ?r = "\<lparr>register_category = NETWORK, capacity_limit = 2, errors = []\<rparr>"
  have r: "Register_new NETWORK 1 2 = Inr ?r"
    by (simp add: Register_new_def validate_limits_def max_register_capacity_def)
  obtain s where "register_turns id ThreadSafe racing_adds (shared_start ?r) = Some s"
    and out: "map snd (completed s) = [Reply_result ok, Reply_result (Inl (already_registered NETWORK))]"
    using racing_run by (auto split: option.splits)
  then have reach: "shared_reach id ThreadSafe ?r s" using register_turns_reach shared_reach.shared by blast
  have "traversal id" by (simp add: traversal_def)
  from concurrent_register_linearizes [OF r this reach] out
  have "fst (run_calls (spec_call NETWORK 2) (map fst (completed s)) Map.empty) =
      [Reply_result ok, Reply_result (Inl (already_registered NETWORK))]" by simp
  with r reach show ?thesis by blast
qed

end
