(* ===== verification/Routing.thy ===== *)
theory Routing
  imports Registers
begin

text \<open>
  Category routing of \<open>include/vosp/error.hpp\<close>: the interface \<open>IRegister\<close> as a table of virtual
  functions, \<open>detail::BasicHandler\<close> with its two instances \<open>Handler\<close> and \<open>ConcurrentHandler\<close>, and
  the synchronous \<open>ErrorSystem\<close>s. A handler holds references, so register objects live in a heap
  and a handler holds addresses; one object may be referenced more than once.

  One call of a handler is one step here: that is what a caller of \<open>Handler\<close> must provide and what
  the mutexes of \<open>ConcurrentHandler\<close> establish (theory \<open>Concurrent_Routing\<close>).
\<close>

section \<open>The register interface\<close>

record 'r IRegister =
  virtual_add :: "Error \<Rightarrow> 'r \<Rightarrow> OperationResult \<times> 'r"
  virtual_remove :: "Error \<Rightarrow> 'r \<Rightarrow> OperationResult \<times> 'r"
  virtual_category :: "'r \<Rightarrow> Category"

definition Register_vtable :: "Register IRegister" where
  "Register_vtable =
     \<lparr>virtual_add = add, virtual_remove = remove, virtual_category = register_category\<rparr>"

datatype Operation = Op_add | Op_remove

fun invoke :: "'r IRegister \<Rightarrow> Operation \<Rightarrow> Error \<Rightarrow> 'r \<Rightarrow> OperationResult \<times> 'r" where
  "invoke vt Op_add = virtual_add vt"
| "invoke vt Op_remove = virtual_remove vt"

section \<open>Handlers\<close>

type_synonym addr = nat
type_synonym 'r heap = "addr \<Rightarrow> 'r"

definition no_register :: "Category \<Rightarrow> Error" where
  "no_register c = make_Error c missing_register_code ''No register is configured for this category''"

fun dispatch ::
  "'r IRegister \<Rightarrow> Operation \<Rightarrow> addr list \<Rightarrow> Error \<Rightarrow> 'r heap \<Rightarrow> OperationResult \<times> 'r heap" where
  "dispatch vt op [] e h = (Inl (no_register (err_category e)), h)"
| "dispatch vt op (a # as) e h =
     (if virtual_category vt (h a) \<noteq> err_category e then dispatch vt op as e h
      else (case invoke vt op e (h a) of (result, r) \<Rightarrow> (result, h(a := r))))"

text \<open>\<open>synchronized\<close> is the template argument: with it, each index has a mutex of its own.\<close>

record BasicHandler =
  registers :: "addr list"
  synchronized :: bool

definition Handler :: "addr list \<Rightarrow> BasicHandler" where
  "Handler as = \<lparr>registers = as, synchronized = False\<rparr>"

definition ConcurrentHandler :: "addr list \<Rightarrow> BasicHandler" where
  "ConcurrentHandler as = \<lparr>registers = as, synchronized = True\<rparr>"

definition handler_add ::
  "'r IRegister \<Rightarrow> BasicHandler \<Rightarrow> Error \<Rightarrow> 'r heap \<Rightarrow> OperationResult \<times> 'r heap" where
  "handler_add vt hdl e h = dispatch vt Op_add (registers hdl) e h"

definition handler_remove ::
  "'r IRegister \<Rightarrow> BasicHandler \<Rightarrow> Error \<Rightarrow> 'r heap \<Rightarrow> OperationResult \<times> 'r heap" where
  "handler_remove vt hdl e h = dispatch vt Op_remove (registers hdl) e h"

section \<open>Error systems\<close>

text \<open>\<open>detail::SystemSelector\<close> chooses the handler of a synchronous system by its policy.\<close>

datatype sync_policy = SingleThreaded | MultiThreaded

record ErrorSystem =
  system_handler :: BasicHandler

fun System_new :: "sync_policy \<Rightarrow> addr list \<Rightarrow> ErrorSystem" where
  "System_new SingleThreaded as = \<lparr>system_handler = Handler as\<rparr>"
| "System_new MultiThreaded as = \<lparr>system_handler = ConcurrentHandler as\<rparr>"

definition system_add ::
  "'r IRegister \<Rightarrow> ErrorSystem \<Rightarrow> Error \<Rightarrow> 'r heap \<Rightarrow> OperationResult \<times> 'r heap" where
  "system_add vt sys e h = handler_add vt (system_handler sys) e h"

definition system_remove ::
  "'r IRegister \<Rightarrow> ErrorSystem \<Rightarrow> Error \<Rightarrow> 'r heap \<Rightarrow> OperationResult \<times> 'r heap" where
  "system_remove vt sys e h = handler_remove vt (system_handler sys) e h"

lemma system_registers [simp]: "registers (system_handler (System_new p as)) = as"
  by (cases p) (simp_all add: Handler_def ConcurrentHandler_def)

datatype system_call = System_add Error | System_remove Error

fun system_step ::
  "'r IRegister \<Rightarrow> ErrorSystem \<Rightarrow> system_call \<Rightarrow> 'r heap \<Rightarrow> OperationResult \<times> 'r heap" where
  "system_step vt sys (System_add e) h = system_add vt sys e h"
| "system_step vt sys (System_remove e) h = system_remove vt sys e h"

section \<open>Routing goes to the first match\<close>

definition route :: "'r IRegister \<Rightarrow> addr list \<Rightarrow> Category \<Rightarrow> 'r heap \<Rightarrow> addr option" where
  "route vt as c h = find (\<lambda>a. virtual_category vt (h a) = c) as"

lemma route_Some: "route vt as c h = Some a \<Longrightarrow> a \<in> set as \<and> virtual_category vt (h a) = c"
  by (auto simp: route_def find_Some_iff)

lemma route_None: "route vt as c h = None \<longleftrightarrow> (\<forall>a \<in> set as. virtual_category vt (h a) \<noteq> c)"
  by (auto simp: route_def find_None_iff)

lemma dispatch_route:
  "dispatch vt op as e h =
     (case route vt as (err_category e) h of
        None \<Rightarrow> (Inl (no_register (err_category e)), h)
      | Some a \<Rightarrow> (fst (invoke vt op e (h a)), h(a := snd (invoke vt op e (h a)))))"
  by (induction as) (auto simp: route_def split: prod.splits)

section \<open>The specification of a system: one bounded map per category\<close>

type_synonym system_map = "Category \<Rightarrow> u32 \<rightharpoonup> Error"

fun spec_system :: "(Category \<Rightarrow> nat option) \<Rightarrow> system_call \<Rightarrow> system_map \<Rightarrow>
    OperationResult \<times> system_map" where
  "spec_system limits (System_add e) m =
     (case limits (err_category e) of
        None \<Rightarrow> (Inl (no_register (err_category e)), m)
      | Some n \<Rightarrow> map_prod id (\<lambda>x. m(err_category e := x))
          (spec_add (err_category e) n e (m (err_category e))))"
| "spec_system limits (System_remove e) m =
     (case limits (err_category e) of
        None \<Rightarrow> (Inl (no_register (err_category e)), m)
      | Some n \<Rightarrow> map_prod id (\<lambda>x. m(err_category e := x))
          (spec_remove (err_category e) e (m (err_category e))))"

definition system_view ::
  "'r IRegister \<Rightarrow> ('r \<Rightarrow> u32 \<rightharpoonup> Error) \<Rightarrow> addr list \<Rightarrow> 'r heap \<Rightarrow> system_map" where
  "system_view vt view as h c =
     (case route vt as c h of None \<Rightarrow> Map.empty | Some a \<Rightarrow> view (h a))"

definition system_limits ::
  "'r IRegister \<Rightarrow> ('r \<Rightarrow> nat) \<Rightarrow> addr list \<Rightarrow> 'r heap \<Rightarrow> Category \<Rightarrow> nat option" where
  "system_limits vt limit as h c = map_option (\<lambda>a. limit (h a)) (route vt as c h)"

section \<open>What a register must promise to be routed to\<close>

text \<open>
  Routing relies on one thing only: an operation never changes the category a register reports.
  A register that behaves as a bounded map, in addition, makes the system one.
\<close>

locale iregister =
  fixes vt :: "'r IRegister"
  assumes category_add: "virtual_category vt (snd (virtual_add vt e r)) = virtual_category vt r"
    and category_remove: "virtual_category vt (snd (virtual_remove vt e r)) = virtual_category vt r"
begin

lemma category_invoke: "virtual_category vt (snd (invoke vt op e r)) = virtual_category vt r"
  by (cases op) (simp_all add: category_add category_remove)

lemma dispatch_category:
  "virtual_category vt (snd (dispatch vt op as e h) a) = virtual_category vt (h a)"
  by (simp add: dispatch_route category_invoke split: option.splits)

lemma route_dispatch: "route vt as' c (snd (dispatch vt op as e h)) = route vt as' c h"
  by (simp add: route_def dispatch_category)

lemma dispatch_frame:
  "virtual_category vt (h a) \<noteq> err_category e \<Longrightarrow> snd (dispatch vt op as e h) a = h a"
  by (auto simp: dispatch_route dest: route_Some split: option.splits)

end

locale map_register = iregister +
  fixes view :: "'r \<Rightarrow> u32 \<rightharpoonup> Error"
    and limit :: "'r \<Rightarrow> nat"
    and good :: "'r \<Rightarrow> bool"
  assumes add_map: "good r \<Longrightarrow> map_prod id view (virtual_add vt e r) =
      spec_add (virtual_category vt r) (limit r) e (view r)"
    and remove_map: "good r \<Longrightarrow> map_prod id view (virtual_remove vt e r) =
      spec_remove (virtual_category vt r) e (view r)"
    and limit_invoke: "limit (snd (invoke vt op e r)) = limit r"
    and good_invoke: "good r \<Longrightarrow> good (snd (invoke vt op e r))"
begin

lemma fst_snd_add:
  "good r \<Longrightarrow> fst (virtual_add vt e r) = fst (spec_add (virtual_category vt r) (limit r) e (view r))"
  "good r \<Longrightarrow> view (snd (virtual_add vt e r)) =
     snd (spec_add (virtual_category vt r) (limit r) e (view r))"
  by (simp_all flip: add_map)

lemma fst_snd_remove:
  "good r \<Longrightarrow> fst (virtual_remove vt e r) = fst (spec_remove (virtual_category vt r) e (view r))"
  "good r \<Longrightarrow> view (snd (virtual_remove vt e r)) =
     snd (spec_remove (virtual_category vt r) e (view r))"
  by (simp_all flip: remove_map)

lemma dispatch_good: "\<forall>a \<in> S. good (h a) \<Longrightarrow> \<forall>a \<in> S. good (snd (dispatch vt op as e h) a)"
  by (simp add: dispatch_route good_invoke split: option.splits)

lemma dispatch_limit: "limit (snd (dispatch vt op as e h) a) = limit (h a)"
  by (simp add: dispatch_route limit_invoke split: option.splits)

lemma dispatch_limits:
  "system_limits vt limit as (snd (dispatch vt op as' e h)) = system_limits vt limit as h"
  by (auto simp: system_limits_def route_dispatch dispatch_limit fun_eq_iff)

lemma dispatch_view:
  assumes "route vt as (err_category e) h = Some a"
  shows "system_view vt view as (snd (dispatch vt op as e h)) =
    (system_view vt view as h)(err_category e := view (snd (invoke vt op e (h a))))"
proof
  fix c
  show "system_view vt view as (snd (dispatch vt op as e h)) c =
    ((system_view vt view as h)(err_category e := view (snd (invoke vt op e (h a))))) c"
  proof (cases "c = err_category e")
    case True
    then show ?thesis using assms by (simp add: system_view_def route_dispatch) (simp add: dispatch_route)
  next
    case False
    then have "snd (dispatch vt op as e h) b = h b" if "route vt as c h = Some b" for b
      using route_Some [OF that] by (intro dispatch_frame) simp
    with False show ?thesis by (simp add: system_view_def route_dispatch split: option.splits)
  qed
qed

lemma dispatch_unrouted:
  "route vt as (err_category e) h = None \<Longrightarrow>
     dispatch vt op as e h = (Inl (no_register (err_category e)), h)"
  by (simp add: dispatch_route)

lemma system_step_refines:
  assumes "\<forall>a \<in> set as. good (h a)"
  shows "map_prod id (system_view vt view as) (system_step vt (System_new p as) call h) =
    spec_system (system_limits vt limit as h) call (system_view vt view as h)"
proof -
  have routed: "good (h a) \<and> virtual_category vt (h a) = c" if "route vt as c h = Some a" for a c
    using route_Some [OF that] assms by blast
  show ?thesis
  proof (cases call)
    case (System_add e)
    show ?thesis
    proof (cases "route vt as (err_category e) h")
      case None
      then show ?thesis
        by (simp add: System_add system_add_def handler_add_def dispatch_unrouted system_limits_def)
    next
      case (Some a)
      then show ?thesis
        using routed [OF Some] dispatch_view [OF Some, of Op_add]
        by (simp add: System_add system_add_def handler_add_def system_limits_def system_view_def
            dispatch_route fst_snd_add map_prod_def case_prod_unfold)
    qed
  next
    case (System_remove e)
    show ?thesis
    proof (cases "route vt as (err_category e) h")
      case None
      then show ?thesis
        by (simp add: System_remove system_remove_def handler_remove_def dispatch_unrouted
            system_limits_def)
    next
      case (Some a)
      then show ?thesis
        using routed [OF Some] dispatch_view [OF Some, of Op_remove]
        by (simp add: System_remove system_remove_def handler_remove_def system_limits_def
            system_view_def dispatch_route fst_snd_remove map_prod_def case_prod_unfold)
    qed
  qed
qed

lemma system_step_dispatch: "\<exists>op e. system_step vt (System_new p as) call h = dispatch vt op as e h"
  by (cases call)
    (auto simp: system_add_def handler_add_def system_remove_def handler_remove_def)

lemma system_step_invariant:
  assumes "\<forall>a \<in> set as. good (h a)"
  shows "(\<forall>a \<in> set as. good (snd (system_step vt (System_new p as) call h) a)) \<and>
    system_limits vt limit as (snd (system_step vt (System_new p as) call h)) = system_limits vt limit as h"
proof -
  obtain op e where "system_step vt (System_new p as) call h = dispatch vt op as e h"
    using system_step_dispatch by blast
  then show ?thesis using dispatch_good [OF assms] dispatch_limits by metis
qed

end

section \<open>The built-in register meets the contract\<close>

interpretation register_vt: map_register Register_vtable reg_view capacity_limit reg_inv
proof unfold_locales
  fix r :: Register and e :: Error and op :: Operation
  show "capacity_limit (snd (invoke Register_vtable op e r)) = capacity_limit r"
    and "reg_inv r \<Longrightarrow> reg_inv (snd (invoke Register_vtable op e r))"
    by (cases op; simp add: Register_vtable_def add_inv remove_inv)+
qed (simp_all add: Register_vtable_def add_refines remove_refines)

text \<open>Hence a system of built-in registers refines one bounded map per category.\<close>

interpretation sys: data_refinement "system_step Register_vtable (System_new p as)"
  "spec_system limits" "system_view Register_vtable reg_view as"
  "\<lambda>h. (\<forall>a \<in> set as. reg_inv (h a)) \<and> system_limits Register_vtable capacity_limit as h = limits"
  for p as limits
  using register_vt.system_step_refines register_vt.system_step_invariant
  by unfold_locales auto

section \<open>Properties\<close>

text \<open>
  C31. Routing goes to the first register of the error's category and to no other object: the
  result is that register's, every other register is unchanged, and without such a register the
  call reports \<open>missing_register_code\<close> in the error's own category and changes nothing. (For
  \<open>Handler\<close> and \<open>ConcurrentHandler\<close>, any register type and both operations.)
\<close>

theorem handler_routes_to_first_match:
  "handler_add vt hdl e h =
     (case find (\<lambda>a. virtual_category vt (h a) = err_category e) (registers hdl) of
        None \<Rightarrow> (Inl (make_Error (err_category e) 0xE003 ''No register is configured for this category''), h)
      | Some a \<Rightarrow> (fst (virtual_add vt e (h a)), h(a := snd (virtual_add vt e (h a))))) \<and>
   handler_remove vt hdl e h =
     (case find (\<lambda>a. virtual_category vt (h a) = err_category e) (registers hdl) of
        None \<Rightarrow> (Inl (make_Error (err_category e) 0xE003 ''No register is configured for this category''), h)
      | Some a \<Rightarrow> (fst (virtual_remove vt e (h a)), h(a := snd (virtual_remove vt e (h a)))))"
  by (simp add: handler_add_def handler_remove_def dispatch_route route_def no_register_def
      missing_register_code_def split: option.splits)

text \<open>
  C26. A synchronous system, under either policy, is one bounded map per configured category:
  every sequence of \<open>add\<close> and \<open>remove\<close> calls gets the replies of the specification and leaves its
  contents, and an error of a category without a register is refused.
\<close>

theorem system_refines_category_maps:
  assumes "\<forall>a \<in> set as. reg_inv (h a)"
  shows "fst (run_calls (system_step Register_vtable (System_new p as)) calls h) =
      fst (run_calls (spec_system (system_limits Register_vtable capacity_limit as h)) calls
        (system_view Register_vtable reg_view as h)) \<and>
    system_view Register_vtable reg_view as
      (snd (run_calls (system_step Register_vtable (System_new p as)) calls h)) =
      snd (run_calls (spec_system (system_limits Register_vtable capacity_limit as h)) calls
        (system_view Register_vtable reg_view as h))"
  using assms sys.run_replies sys.run_view by metis

theorem system_refines_category_maps_witness:
  "fst (run_calls (system_step Register_vtable (System_new MultiThreaded [0, 1]))
     [System_add (make_Error DATABASE 7 ''db''), System_add (make_Error FILESYSTEM 7 ''fs''),
      System_remove (make_Error DATABASE 7 ''db'')]
     (\<lambda>a. \<lparr>register_category = (if a = 0 then NETWORK else DATABASE), capacity_limit = 4, errors = []\<rparr>)) =
   [ok, Inl (no_register FILESYSTEM), ok]"
  (is "fst (run_calls _ ?calls ?h) = _")
proof -
  let ?limits = "system_limits Register_vtable capacity_limit [0, 1] ?h"
  let ?view = "system_view Register_vtable reg_view [0, 1] ?h"
  have "\<forall>a \<in> set [0, 1]. reg_inv (?h a)"
    by (simp add: reg_inv_def max_register_capacity_def umap_ok_def umap_size_def umap_find_def)
  then have "fst (run_calls (system_step Register_vtable (System_new MultiThreaded [0, 1])) ?calls ?h) =
      fst (run_calls (spec_system ?limits) ?calls ?view)"
    by (rule system_refines_category_maps [THEN conjunct1])
  also have "?limits DATABASE = Some 4" "?limits FILESYSTEM = None"
    by (simp_all add: system_limits_def route_def Register_vtable_def)
  then have "fst (run_calls (spec_system ?limits) ?calls ?view) = [ok, Inl (no_register FILESYSTEM), ok]"
    by (simp add: spec_add_def spec_remove_def system_view_def route_def Register_vtable_def umap_find_def)
  finally show ?thesis .
qed

end
