(* ===== verification/Concurrent_Routing.thy ===== *)
theory Concurrent_Routing
  imports Routing
begin

text \<open>
  \<open>detail::BasicHandler::dispatch\<close> under interleaving: any number of threads run it on the same
  handler, and the body of a register operation is not atomic (it reads the register and writes
  it back later), as for \<open>register_policy::SingleThreaded\<close>. With \<open>Synchronized\<close> set, a thread
  holds the mutex of the index it selected; the lemmas show that operations on one register then
  exclude each other and that every interleaving is equivalent to running the committed calls one
  after the other. Without it, and with registers that do not lock themselves, an update can be lost.
\<close>

section \<open>Threads\<close>

text \<open>Where a thread stands in \<open>dispatch\<close>: at loop index \<open>i\<close>, in the critical section of \<open>i\<close>
  before the operation, inside the operation after its read, after its write, or done.\<close>

datatype 'r phase =
    Idle
  | Scanning Operation Error nat
  | Selected Operation Error nat
  | Reading Operation Error nat 'r
  | Written nat OperationResult
  | Done OperationResult

record commit =
  by_thread :: nat
  operation :: Operation
  operand :: Error
  reply :: OperationResult

record 'r routing =
  objects :: "'r heap"
  mutexes :: "nat \<Rightarrow> nat option"
  phases :: "nat \<Rightarrow> 'r phase"
  commits :: "commit list"

definition routing_start :: "'r heap \<Rightarrow> 'r routing" where
  "routing_start h = \<lparr>objects = h, mutexes = Map.empty, phases = (\<lambda>_. Idle), commits = []\<rparr>"

abbreviation at_index :: "BasicHandler \<Rightarrow> 'r routing \<Rightarrow> nat \<Rightarrow> 'r" where
  "at_index hdl s i \<equiv> objects s (registers hdl ! i)"

definition goto :: "nat \<Rightarrow> 'r phase \<Rightarrow> 'r routing \<Rightarrow> 'r routing" where
  "goto t p s = s\<lparr>phases := (phases s)(t := p)\<rparr>"

definition lock :: "BasicHandler \<Rightarrow> nat \<Rightarrow> nat \<Rightarrow> 'r routing \<Rightarrow> 'r routing" where
  "lock hdl t i s = (if synchronized hdl then s\<lparr>mutexes := (mutexes s)(i \<mapsto> t)\<rparr> else s)"

definition unlock :: "BasicHandler \<Rightarrow> nat \<Rightarrow> 'r routing \<Rightarrow> 'r routing" where
  "unlock hdl i s = (if synchronized hdl then s\<lparr>mutexes := (mutexes s)(i := None)\<rparr> else s)"

definition lockable :: "BasicHandler \<Rightarrow> nat \<Rightarrow> 'r routing \<Rightarrow> bool" where
  "lockable hdl i s \<longleftrightarrow> synchronized hdl \<longrightarrow> mutexes s i = None"

definition log_commit :: "nat \<Rightarrow> Operation \<Rightarrow> Error \<Rightarrow> OperationResult \<Rightarrow> 'r routing \<Rightarrow> 'r routing" where
  "log_commit t op e res s = s\<lparr>commits := commits s @
     [\<lparr>by_thread = t, operation = op, operand = e, reply = res\<rparr>]\<rparr>"

inductive routing_step ::
  "'r IRegister \<Rightarrow> BasicHandler \<Rightarrow> 'r routing \<Rightarrow> 'r routing \<Rightarrow> bool"
  for vt :: "'r IRegister" and hdl :: BasicHandler where
  begin_call: "phases s t = Idle \<Longrightarrow> routing_step vt hdl s (goto t (Scanning op e 0) s)"
| skip: "phases s t = Scanning op e i \<Longrightarrow> i < length (registers hdl) \<Longrightarrow>
     virtual_category vt (at_index hdl s i) \<noteq> err_category e \<Longrightarrow>
     routing_step vt hdl s (goto t (Scanning op e (Suc i)) s)"
| acquire: "phases s t = Scanning op e i \<Longrightarrow> i < length (registers hdl) \<Longrightarrow>
     virtual_category vt (at_index hdl s i) = err_category e \<Longrightarrow> lockable hdl i s \<Longrightarrow>
     routing_step vt hdl s (goto t (Selected op e i) (lock hdl t i s))"
| load: "phases s t = Selected op e i \<Longrightarrow>
     routing_step vt hdl s (goto t (Reading op e i (at_index hdl s i)) s)"
| store: "phases s t = Reading op e i r \<Longrightarrow> invoke vt op e r = (res, r') \<Longrightarrow>
     routing_step vt hdl s (goto t (Written i res) (log_commit t op e res
       (s\<lparr>objects := (objects s)(registers hdl ! i := r')\<rparr>)))"
| release: "phases s t = Written i res \<Longrightarrow>
     routing_step vt hdl s (goto t (Done res) (unlock hdl i s))"
| miss: "phases s t = Scanning op e i \<Longrightarrow> i = length (registers hdl) \<Longrightarrow>
     res = Inl (no_register (err_category e)) \<Longrightarrow>
     routing_step vt hdl s (goto t (Done res) (log_commit t op e res s))"
| finish: "phases s t = Done res \<Longrightarrow> routing_step vt hdl s (goto t Idle s)"

inductive routing_reach ::
  "'r IRegister \<Rightarrow> BasicHandler \<Rightarrow> 'r heap \<Rightarrow> 'r routing \<Rightarrow> bool"
  for vt :: "'r IRegister" and hdl :: BasicHandler and h :: "'r heap" where
  start: "routing_reach vt hdl h (routing_start h)"
| step: "routing_reach vt hdl h s \<Longrightarrow> routing_step vt hdl s s' \<Longrightarrow> routing_reach vt hdl h s'"

lemmas routing_updates = goto_def lock_def unlock_def log_commit_def

section \<open>Executing a schedule\<close>

text \<open>The relation as a function of the thread that moves, to run concrete interleavings.\<close>

datatype event = Begin nat Operation Error | Move nat

fun advance ::
  "'r IRegister \<Rightarrow> BasicHandler \<Rightarrow> event \<Rightarrow> 'r routing \<Rightarrow> 'r routing option" where
  "advance vt hdl (Begin t op e) s =
     (case phases s t of Idle \<Rightarrow> Some (goto t (Scanning op e 0) s) | _ \<Rightarrow> None)"
| "advance vt hdl (Move t) s =
     (case phases s t of
        Idle \<Rightarrow> None
      | Scanning op e i \<Rightarrow>
          if i < length (registers hdl) then
            (if virtual_category vt (at_index hdl s i) \<noteq> err_category e
             then Some (goto t (Scanning op e (Suc i)) s)
             else if lockable hdl i s then Some (goto t (Selected op e i) (lock hdl t i s)) else None)
          else if i = length (registers hdl) then
            Some (goto t (Done (Inl (no_register (err_category e))))
              (log_commit t op e (Inl (no_register (err_category e))) s))
          else None
      | Selected op e i \<Rightarrow> Some (goto t (Reading op e i (at_index hdl s i)) s)
      | Reading op e i r \<Rightarrow> (case invoke vt op e r of (res, r') \<Rightarrow>
          Some (goto t (Written i res) (log_commit t op e res
            (s\<lparr>objects := (objects s)(registers hdl ! i := r')\<rparr>))))
      | Written i res \<Rightarrow> Some (goto t (Done res) (unlock hdl i s))
      | Done res \<Rightarrow> Some (goto t Idle s))"

lemma advance_sound: "advance vt hdl ev s = Some s' \<Longrightarrow> routing_step vt hdl s s'"
  by (cases ev) (auto split: phase.splits if_splits prod.splits intro: routing_step.intros)

fun run_schedule ::
  "'r IRegister \<Rightarrow> BasicHandler \<Rightarrow> event list \<Rightarrow> 'r routing \<Rightarrow> 'r routing option" where
  "run_schedule vt hdl [] s = Some s"
| "run_schedule vt hdl (ev # evs) s =
     (case advance vt hdl ev s of None \<Rightarrow> None | Some s' \<Rightarrow> run_schedule vt hdl evs s')"

lemma run_schedule_reach:
  "routing_reach vt hdl h s \<Longrightarrow> run_schedule vt hdl evs s = Some s' \<Longrightarrow> routing_reach vt hdl h s'"
proof (induction evs arbitrary: s)
  case Nil
  then show ?case by simp
next
  case (Cons ev evs)
  then obtain s1 where "advance vt hdl ev s = Some s1" and "run_schedule vt hdl evs s1 = Some s'"
    by (auto split: option.splits)
  with Cons show ?case using advance_sound routing_reach.step by blast
qed

lemmas schedule_reach = run_schedule_reach [OF routing_reach.start]

lemma schedule_exists:
  "case run_schedule vt hdl evs (routing_start h) of None \<Rightarrow> False | Some s \<Rightarrow> P s \<Longrightarrow>
     \<exists>s. routing_reach vt hdl h s \<and> P s"
  by (auto split: option.splits intro: schedule_reach)

section \<open>The invariant\<close>

text \<open>The index a thread works at is the first one of its error's category.\<close>

definition first_at :: "'r IRegister \<Rightarrow> BasicHandler \<Rightarrow> 'r heap \<Rightarrow> Error \<Rightarrow> nat \<Rightarrow> bool" where
  "first_at vt hdl h e i \<longleftrightarrow> i < length (registers hdl) \<and>
     virtual_category vt (h (registers hdl ! i)) = err_category e \<and>
     (\<forall>j < i. virtual_category vt (h (registers hdl ! j)) \<noteq> err_category e)"

fun phase_ok :: "'r IRegister \<Rightarrow> BasicHandler \<Rightarrow> 'r routing \<Rightarrow> nat \<Rightarrow> 'r phase \<Rightarrow> bool" where
  "phase_ok vt hdl s t (Scanning op e i) \<longleftrightarrow> i \<le> length (registers hdl) \<and>
     (\<forall>j < i. virtual_category vt (at_index hdl s j) \<noteq> err_category e)"
| "phase_ok vt hdl s t (Selected op e i) \<longleftrightarrow> first_at vt hdl (objects s) e i \<and> mutexes s i = Some t"
| "phase_ok vt hdl s t (Reading op e i r) \<longleftrightarrow> first_at vt hdl (objects s) e i \<and> mutexes s i = Some t \<and>
     r = at_index hdl s i"
| "phase_ok vt hdl s t (Written i res) \<longleftrightarrow> (\<exists>e. first_at vt hdl (objects s) e i) \<and> mutexes s i = Some t"
| "phase_ok vt hdl s t p \<longleftrightarrow> True"

definition replay :: "'r IRegister \<Rightarrow> BasicHandler \<Rightarrow> commit list \<Rightarrow> 'r heap \<Rightarrow>
    OperationResult list \<times> 'r heap" where
  "replay vt hdl cs h =
     run_calls (\<lambda>c. dispatch vt (operation c) (registers hdl) (operand c)) cs h"

definition routing_inv :: "'r IRegister \<Rightarrow> BasicHandler \<Rightarrow> 'r heap \<Rightarrow> 'r routing \<Rightarrow> bool" where
  "routing_inv vt hdl h s \<longleftrightarrow> (\<forall>t. phase_ok vt hdl s t (phases s t)) \<and>
     replay vt hdl (commits s) h = (map reply (commits s), objects s)"

lemma first_at_unique: "first_at vt hdl h e i \<Longrightarrow> first_at vt hdl h e' i' \<Longrightarrow>
    err_category e = err_category e' \<Longrightarrow> i = i'"
  using linorder_cases [of i i'] by (auto simp: first_at_def)

lemma first_at_cong:
  "(\<And>a. virtual_category vt (h' a) = virtual_category vt (h a)) \<Longrightarrow>
     first_at vt hdl h' e i \<longleftrightarrow> first_at vt hdl h e i"
  by (simp add: first_at_def)

lemma first_at_route:
  assumes "first_at vt hdl h e i"
  shows "route vt (registers hdl) (err_category e) h = Some (registers hdl ! i)"
  using assms by (auto simp: first_at_def route_def find_Some_iff intro!: exI [of _ i])

lemma replay_snoc:
  "replay vt hdl cs h = (rs, h') \<Longrightarrow>
     dispatch vt (operation c) (registers hdl) (operand c) h' = (r, h'') \<Longrightarrow>
     replay vt hdl (cs @ [c]) h = (rs @ [r], h'')"
  by (simp add: replay_def run_calls_snoc)

text \<open>The index whose critical section a thread is in.\<close>

fun critical :: "'r phase \<Rightarrow> nat option" where
  "critical (Selected op e i) = Some i"
| "critical (Reading op e i r) = Some i"
| "critical (Written i res) = Some i"
| "critical p = None"

section \<open>Every step keeps it\<close>

text \<open>A thread that does not move keeps its phase invariant if categories are stable, its
  mutexes stay its own, and the register it has read is not written.\<close>

lemma phase_ok_frame:
  assumes "phase_ok vt hdl s t p"
    and "\<And>a. virtual_category vt (objects s' a) = virtual_category vt (objects s a)"
    and "\<And>i. mutexes s i = Some t \<Longrightarrow> mutexes s' i = Some t"
    and "\<And>op e i r. p = Reading op e i r \<Longrightarrow> at_index hdl s' i = at_index hdl s i"
  shows "phase_ok vt hdl s' t p"
  using assms first_at_cong [of vt "objects s'" "objects s" hdl] by (cases p) auto

lemma phase_ok_goto [simp]: "phase_ok vt hdl (goto t q s) u p = phase_ok vt hdl s u p"
  by (cases p) (simp_all add: goto_def)

lemma phase_ok_log [simp]: "phase_ok vt hdl (log_commit t op e res s) u p = phase_ok vt hdl s u p"
  by (cases p) (simp_all add: log_commit_def)

lemma phases_goto [simp]: "phases (goto t p s) = (phases s)(t := p)"
  by (simp add: goto_def)

lemma phases_others [simp]:
  "phases (lock hdl t i s) = phases s" "phases (unlock hdl i s) = phases s"
  "phases (log_commit t op e res s) = phases s"
  by (simp_all add: lock_def unlock_def log_commit_def)

lemma same_register_same_index:
  assumes "first_at vt hdl h e i" and "first_at vt hdl h e' i'"
    and "registers hdl ! i = registers hdl ! i'"
  shows "i = i'"
proof -
  have "err_category e = err_category e'" using assms by (simp add: first_at_def)
  with assms show ?thesis by (intro first_at_unique)
qed

context iregister
begin

lemma store_category:
  assumes "phase_ok vt hdl s t (Reading op e i r)" and "invoke vt op e r = (res, r')"
  shows "virtual_category vt (((objects s)(registers hdl ! i := r')) a) = virtual_category vt (objects s a)"
  using assms category_invoke [of op e r] by simp

lemma phases_step:
  assumes "routing_step vt hdl s s'" and "synchronized hdl"
    and "\<forall>t. phase_ok vt hdl s t (phases s t)"
  shows "phase_ok vt hdl s' u (phases s' u)"
  using assms
proof (induction rule: routing_step.induct)
  case (begin_call s t op e)
  then show ?case by simp
next
  case (skip s t op e i)
  then have "phase_ok vt hdl s t (Scanning op e i)" by metis
  with skip show ?case by (auto simp: less_Suc_eq)
next
  case (acquire s t op e i)
  then have t: "phase_ok vt hdl s t (Scanning op e i)" and u: "phase_ok vt hdl s u (phases s u)"
    by metis+
  from u have "phase_ok vt hdl (lock hdl t i s) u (phases s u)"
    by (rule phase_ok_frame) (use acquire.hyps(4) in \<open>auto simp: lock_def lockable_def\<close>)
  moreover have "phase_ok vt hdl (lock hdl t i s) t (Selected op e i)"
    using t acquire.hyps(2,3) acquire.prems(1) by (simp add: lock_def first_at_def)
  ultimately show ?case by simp
next
  case (load s t op e i)
  then have "phase_ok vt hdl s t (Selected op e i)" and "phase_ok vt hdl s u (phases s u)"
    by metis+
  then show ?case by simp
next
  case (store s t op e i r res r')
  let ?s = "s\<lparr>objects := (objects s)(registers hdl ! i := r')\<rparr>"
  from store have t: "phase_ok vt hdl s t (Reading op e i r)" and u: "phase_ok vt hdl s u (phases s u)"
    by metis+
  from u have "phase_ok vt hdl ?s u (phases s u)" if "u \<noteq> t"
  proof (rule phase_ok_frame)
    fix op' e' i' r''
    assume "phases s u = Reading op' e' i' r''"
    with u have u': "phase_ok vt hdl s u (Reading op' e' i' r'')" by metis
    then have first: "first_at vt hdl (objects s) e i" "first_at vt hdl (objects s) e' i'"
      using t by simp_all
    have "i' \<noteq> i" using t u' that by auto
    with first have "registers hdl ! i' \<noteq> registers hdl ! i"
      by (metis same_register_same_index)
    then show "at_index hdl ?s i' = at_index hdl s i'" by simp
  next
    show "virtual_category vt (objects ?s a) = virtual_category vt (objects s a)" for a
      using store_category [OF t store.hyps(2)] by simp
  qed simp
  moreover have "first_at vt hdl (objects ?s) e i"
    using t first_at_cong [of vt "objects ?s" "objects s"] store_category [OF t store.hyps(2)] by simp
  ultimately show ?case using t by auto
next
  case (release s t i res)
  then have t: "phase_ok vt hdl s t (Written i res)" and u: "phase_ok vt hdl s u (phases s u)"
    by metis+
  from u have "phase_ok vt hdl (unlock hdl i s) u (phases s u)" if "u \<noteq> t"
    by (rule phase_ok_frame) (use t that in \<open>auto simp: unlock_def\<close>)
  then show ?case by simp
next
  case (miss s t op e i res)
  then show ?case by simp
next
  case (finish s t res)
  then show ?case by simp
qed

lemma replay_step:
  assumes "routing_step vt hdl s s'" and "\<forall>t. phase_ok vt hdl s t (phases s t)"
    and "replay vt hdl (commits s) h = (map reply (commits s), objects s)"
  shows "replay vt hdl (commits s') h = (map reply (commits s'), objects s')"
  using assms
proof (induction rule: routing_step.induct)
  case (store s t op e i r res r')
  then have "phase_ok vt hdl s t (Reading op e i r)" by metis
  then have "dispatch vt op (registers hdl) e (objects s) =
      (res, (objects s)(registers hdl ! i := r'))"
    using first_at_route [of vt hdl "objects s" e i] store.hyps(2) by (simp add: dispatch_route)
  with store show ?case by (simp add: routing_updates replay_snoc fun_upd_def)
next
  case (miss s t op e i res)
  then have "phase_ok vt hdl s t (Scanning op e i)" by metis
  then have "route vt (registers hdl) (err_category e) (objects s) = None"
    using miss.hyps(2) by (auto simp: route_None in_set_conv_nth)
  with miss show ?case by (simp add: routing_updates replay_snoc dispatch_route)
qed (simp_all add: routing_updates)

lemma reach_inv: "routing_reach vt hdl h s \<Longrightarrow> synchronized hdl \<Longrightarrow> routing_inv vt hdl h s"
proof (induction rule: routing_reach.induct)
  case start
  then show ?case by (simp add: routing_inv_def routing_start_def replay_def)
next
  case (step s s')
  then show ?case
    using phases_step replay_step unfolding routing_inv_def by blast
qed

lemma critical_first:
  assumes "routing_inv vt hdl h s" and "critical (phases s t) = Some i"
  shows "mutexes s i = Some t \<and> (\<exists>e. first_at vt hdl (objects s) e i)"
proof -
  have "phase_ok vt hdl s t (phases s t)" using assms(1) by (simp add: routing_inv_def)
  with assms(2) show ?thesis by (cases "phases s t") auto
qed

lemma mutual_exclusion:
  assumes "routing_inv vt hdl h s" and "critical (phases s t) = Some i"
    and "critical (phases s u) = Some j" and "registers hdl ! i = registers hdl ! j"
  shows "t = u"
proof -
  have "i = j"
    using critical_first [OF assms(1,2)] critical_first [OF assms(1,3)] assms(4)
    by (blast intro: same_register_same_index)
  then show ?thesis
    using critical_first [OF assms(1,2)] critical_first [OF assms(1,3)] by simp
qed

end

section \<open>Properties\<close>

lemma concurrent_inv:
  "routing_reach Register_vtable (ConcurrentHandler as) h s \<Longrightarrow>
     routing_inv Register_vtable (ConcurrentHandler as) h s"
  by (rule register_vt.reach_inv) (simp_all add: ConcurrentHandler_def)

text \<open>A one-register handler and the schedules the witnesses run on it.\<close>

definition one_register :: "Register heap" where
  "one_register = (\<lambda>_. \<lparr>register_category = NETWORK, capacity_limit = 2, errors = []\<rparr>)"

definition two_adds :: "event list" where
  "two_adds = [Begin 0 Op_add (make_Error NETWORK 7 ''x''), Begin 1 Op_add (make_Error NETWORK 8 ''y'')]"

text \<open>
  The multi-threaded and the asynchronous system serialise each register without any lock in
  the register: two threads inside operations on the same register object are the same thread,
  even when the object is listed at more than one index.
\<close>

lemma concurrent_handler_excludes:
  assumes "routing_reach Register_vtable (ConcurrentHandler as) h s"
    and "critical (phases s t) = Some i" and "critical (phases s u) = Some j" and "as ! i = as ! j"
  shows "t = u"
  using register_vt.mutual_exclusion [OF concurrent_inv [OF assms(1)] assms(2,3)] assms(4)
  by (simp add: ConcurrentHandler_def)

lemma concurrent_handler_excludes_witness:
  "\<exists>s. routing_reach Register_vtable (ConcurrentHandler [0]) one_register s \<and>
     critical (phases s 0) = Some 0 \<and> (\<forall>u. critical (phases s u) = Some 0 \<longrightarrow> 0 = u)"
proof -
  have "\<exists>s. routing_reach Register_vtable (ConcurrentHandler [0]) one_register s \<and>
      critical (phases s 0) = Some 0"
    by (rule schedule_exists [where evs = "two_adds @ [Move 0]"]) code_simp
  then show ?thesis using concurrent_handler_excludes by metis
qed

text \<open>
  C3. Every interleaving of threads in a \<open>ConcurrentHandler\<close> is equivalent to a sequential
  execution: running the committed calls one after the other, in commit order, gives each of them
  the reply it got and leaves the registers as they are.
\<close>

theorem concurrent_handler_linearizes:
  assumes "routing_reach Register_vtable (ConcurrentHandler as) h s"
  shows "run_calls (\<lambda>c. dispatch Register_vtable (operation c) as (operand c)) (commits s) h =
    (map reply (commits s), objects s)"
  using concurrent_inv [OF assms] by (simp add: routing_inv_def replay_def ConcurrentHandler_def)

lemma two_adds_reach:
  "\<exists>s. routing_reach Register_vtable (ConcurrentHandler [0]) one_register s \<and>
     map reply (commits s) = [ok, ok]"
  by (rule schedule_exists [where evs = "two_adds @ replicate 4 (Move 1) @ replicate 3 (Move 0)"])
    code_simp

theorem concurrent_handler_linearizes_witness:
  "\<exists>s. routing_reach Register_vtable (ConcurrentHandler [0]) one_register s \<and>
     map reply (commits s) = [ok, ok] \<and>
     run_calls (\<lambda>c. dispatch Register_vtable (operation c) [0] (operand c)) (commits s) one_register =
       ([ok, ok], objects s)"
proof -
  obtain s where s: "routing_reach Register_vtable (ConcurrentHandler [0]) one_register s"
    and replies: "map reply (commits s) = [ok, ok]"
    using two_adds_reach by (elim exE conjE) (rule that)
  show ?thesis
    by (rule exI [of _ s])
      (intro conjI s replies concurrent_handler_linearizes [OF s, unfolded replies])
qed

text \<open>
  The locks are what the linearisation rests on: for registers whose own operations are not
  synchronised (\<open>register_policy::SingleThreaded\<close>; the default register locks its own mutex, theory
  \<open>Concurrent_Register\<close>), a \<open>Handler\<close> shared by two threads can lose an update. Two concurrent \<open>add\<close>
  calls of different codes both report success, and one error is stored.
\<close>

lemma handler_without_locks_loses_update:
  "\<exists>s. routing_reach Register_vtable (Handler [0]) one_register s \<and>
     map reply (commits s) = [ok, ok] \<and> map operand (commits s) =
       [make_Error NETWORK 7 ''x'', make_Error NETWORK 8 ''y''] \<and>
     register_size (objects s 0) = 1 \<and> find_code 7 (objects s 0) = None"
  by (rule schedule_exists [where evs = "two_adds @ [Move 0, Move 0, Move 1, Move 1, Move 0, Move 1]"])
    code_simp

end
