(* ===== verification/Pool_State.thy ===== *)
theory Pool_State
  imports Prelude
begin

text \<open>
  The packed atomic word \<open>queue_state_\<close> of \<open>include/vosp/worker_pool.hpp\<close>: bits 0..10 count the
  queued tasks, bits 11..21 the active ones, bit 63 says that the pool is stopping. The masks and
  accessors are the source's; \<open>packed\<close> is the value the fields stand for, and the lemmas say what
  each atomic addition, subtraction and \<open>or\<close> does to the fields, within the bounds where nothing
  carries from one field into the next.
\<close>

section \<open>Masks and accessors\<close>

definition count_bits :: nat where "count_bits = 11"

definition active_shift :: nat where "active_shift = count_bits"

definition bulk_claim_size :: nat where "bulk_claim_size = 16"

definition stopping_mask :: u64 where "stopping_mask = push_bit 63 1"

definition pending_mask :: u64 where "pending_mask = push_bit count_bits 1 - 1"

definition active_unit :: u64 where "active_unit = push_bit active_shift 1"

definition active_mask :: u64 where "active_mask = push_bit active_shift pending_mask"

definition pending_from_state :: "u64 \<Rightarrow> nat" where
  "pending_from_state state = unat (state AND pending_mask)"

definition is_stopping_state :: "u64 \<Rightarrow> bool" where
  "is_stopping_state state \<longleftrightarrow> state AND stopping_mask \<noteq> 0"

definition active_from_state :: "u64 \<Rightarrow> nat" where
  "active_from_state state = unat (drop_bit active_shift (state AND active_mask))"

lemma mask_literals:
  "pending_mask = push_bit 11 1 - 1" "active_unit = push_bit 11 1" "active_mask = push_bit 11 pending_mask"
  "active_from_state state = unat (drop_bit 11 (state AND active_mask))"
  by (simp_all only: pending_mask_def active_unit_def active_mask_def active_from_state_def active_shift_def
      count_bits_def)

section \<open>The accessors as arithmetic\<close>

lemma pending_mask_mask: "pending_mask = mask 11"
  by (simp add: mask_literals(1) mask_eq_exp_minus_1 push_bit_eq_mult)

lemma pending_arith: "pending_from_state w = unat w mod 2048"
proof -
  have "w AND pending_mask = w mod 2048"
    by (simp add: pending_mask_mask take_bit_eq_mod flip: take_bit_eq_mask)
  then show ?thesis by (simp add: pending_from_state_def unat_mod)
qed

lemma active_arith: "active_from_state w = unat w div 2048 mod 2048"
proof -
  have "drop_bit 11 (w AND push_bit 11 (mask 11)) = take_bit 11 (drop_bit 11 w)"
    by (rule bit_word_eqI) (auto simp: bit_simps)
  also have "\<dots> = w div 2048 mod 2048"
    by (simp add: take_bit_eq_mod drop_bit_eq_div)
  finally have "drop_bit 11 (w AND active_mask) = w div 2048 mod 2048"
    by (simp only: mask_literals(3) pending_mask_mask)
  then show ?thesis by (simp only: mask_literals(4)) (simp add: unat_mod unat_div)
qed

lemma stopping_bit: "is_stopping_state w \<longleftrightarrow> bit w 63"
  unfolding is_stopping_state_def stopping_mask_def by (simp only: bit_iff_and_push_bit_not_eq_0)

lemma stopping_arith: "is_stopping_state w \<longleftrightarrow> 2 ^ 63 \<le> unat w"
proof -
  have "bit w 63 \<longleftrightarrow> bit (unat w) 63" by (simp add: bit_unsigned_iff)
  also have "\<dots> \<longleftrightarrow> odd (unat w div 2 ^ 63)" by (rule bit_iff_odd)
  also have "\<dots> \<longleftrightarrow> 2 ^ 63 \<le> unat w"
  proof -
    have "unat w < 2 ^ 64" using unsigned_less [of w] by simp
    then have "unat w div 2 ^ 63 < 2" by (simp add: less_mult_imp_div_less)
    then show ?thesis by (auto simp: less_2_cases_iff div_eq_0_iff dest: odd_pos)
  qed
  finally show ?thesis by (simp add: stopping_bit)
qed

section \<open>The fields\<close>

definition packed :: "nat \<Rightarrow> nat \<Rightarrow> bool \<Rightarrow> u64" where
  "packed p a s = of_nat p + of_nat a * active_unit + (if s then stopping_mask else 0)"

text \<open>The range in which the fields do not interfere: the true number of active tasks may
  exceed the eleven bits the accessor reads, but stays below bit 63.\<close>

definition in_range :: "nat \<Rightarrow> nat \<Rightarrow> bool" where
  "in_range p a \<longleftrightarrow> p < 2048 \<and> a < 2 ^ 52"

lemma unat_packed:
  assumes "in_range p a"
  shows "unat (packed p a s) = p + a * 2048 + (if s then 2 ^ 63 else 0)"
proof -
  let ?n = "p + a * 2048 + (if s then 2 ^ 63 else 0)"
  have "packed p a s = of_nat ?n"
    by (simp add: packed_def mask_literals(2) stopping_mask_def push_bit_eq_mult)
  then have "unat (packed p a s) = ?n mod 2 ^ 64" by (simp only: unat_of_nat) simp
  moreover have "?n < 2 ^ 64" using assms by (auto simp: in_range_def)
  ultimately show ?thesis by (simp only: mod_less)
qed

lemma pending_packed [simp]: "in_range p a \<Longrightarrow> pending_from_state (packed p a s) = p"
  by (simp add: pending_arith unat_packed in_range_def mod_add_eq [symmetric] flip: mod_mult_right_eq)

lemma active_packed [simp]: "in_range p a \<Longrightarrow> active_from_state (packed p a s) = a mod 2048"
proof -
  assume *: "in_range p a"
  then have "unat (packed p a s) = p + 2048 * (a + 2048 * (if s then 2 ^ 41 else 0))"
    by (simp add: unat_packed)
  then have "unat (packed p a s) div 2048 = a + 2048 * (if s then 2 ^ 41 else 0)"
    using * by (simp only: div_mult_self2) (simp add: in_range_def)
  then show ?thesis by (simp add: active_arith)
qed

lemma stopping_packed [simp]: "in_range p a \<Longrightarrow> is_stopping_state (packed p a s) = s"
  by (auto simp: stopping_arith unat_packed in_range_def)

lemma in_range_mono: "in_range p a \<Longrightarrow> p' \<le> p \<Longrightarrow> a' \<le> a \<Longrightarrow> in_range p' a'"
  by (simp add: in_range_def)

section \<open>The atomic updates\<close>

lemma packed_enqueue: "packed p a s + of_nat n = packed (p + n) a s"
  by (simp add: packed_def)

lemma packed_claim: "packed (p + n) a s + of_nat n * (active_unit - 1) = packed p (a + n) s"
  by (simp add: packed_def algebra_simps)

lemma packed_finish: "packed p (a + n) s - of_nat n * active_unit = packed p a s"
  by (simp add: packed_def algebra_simps)

lemma packed_cancel: "packed p a s - of_nat p = packed 0 a s"
  by (simp add: packed_def)

lemma packed_stop:
  assumes "in_range p a"
  shows "packed p a s OR stopping_mask = packed p a True"
proof (cases s)
  case True
  have "packed p a True OR stopping_mask = packed p a True"
    using stopping_packed [OF assms, of True] unfolding stopping_bit stopping_mask_def
    by (intro bit_word_eqI) (auto simp only: bit_or_iff bit_push_bit_iff bit_1_iff diff_is_0_eq
        dest!: le_antisym)
  with True show ?thesis by simp
next
  case False
  have "packed p a False AND stopping_mask = 0"
    using stopping_packed [OF assms, of False] by (simp add: is_stopping_state_def)
  then have "packed p a False OR stopping_mask = packed p a False + stopping_mask"
    by (rule disjunctive_add_eq_or [symmetric])
  with False show ?thesis by (simp add: packed_def)
qed

lemmas packed_updates = packed_enqueue packed_claim packed_finish packed_cancel packed_stop

end
