(* ===== verification/Pool_Ring.thy ===== *)
theory Pool_Ring
  imports Prelude
begin

text \<open>
  The ring of queue slots of \<open>include/vosp/worker_pool.hpp\<close> (\<open>tasks_\<close>, \<open>queue_head_\<close>,
  \<open>queue_tail_\<close>) and the contract of a bounded first-in first-out queue that the pool relies on.
  A slot is a \<open>std::optional\<close>; reading an empty one is undefined behaviour in C++ and the value
  \<open>None\<close> here. The number of queued items is not stored in the ring but in the packed state word,
  so it is the second component of the queue.
\<close>

section \<open>Slots\<close>

record 'a ring =
  tasks :: "'a option list"
  queue_head :: nat
  queue_tail :: nat

definition next_queue_index :: "nat \<Rightarrow> nat \<Rightarrow> nat" where
  "next_queue_index capacity index = (if index + 1 = capacity then 0 else index + 1)"

definition ring_new :: "nat \<Rightarrow> 'a ring" where
  "ring_new capacity = \<lparr>tasks = replicate capacity None, queue_head = 0, queue_tail = 0\<rparr>"

definition ring_emplace :: "'a \<Rightarrow> 'a ring \<Rightarrow> 'a ring" where
  "ring_emplace x r = r\<lparr>tasks := (tasks r)[queue_tail r := Some x],
     queue_tail := next_queue_index (length (tasks r)) (queue_tail r)\<rparr>"

definition ring_front :: "'a ring \<Rightarrow> 'a option" where
  "ring_front r = (if queue_head r < length (tasks r) then tasks r ! queue_head r else None)"

definition ring_drop :: "'a ring \<Rightarrow> 'a ring" where
  "ring_drop r = r\<lparr>tasks := (tasks r)[queue_head r := None],
     queue_head := next_queue_index (length (tasks r)) (queue_head r)\<rparr>"

section \<open>The contract of a bounded queue\<close>

locale bounded_queue =
  fixes enq :: "'a \<Rightarrow> 'q \<Rightarrow> 'q"
    and front :: "'q \<Rightarrow> 'a option"
    and deq :: "'q \<Rightarrow> 'q"
    and items :: "'q \<Rightarrow> 'a list"
    and room :: "'q \<Rightarrow> nat"
    and ok :: "'q \<Rightarrow> bool"
  assumes items_enq: "ok q \<Longrightarrow> length (items q) < room q \<Longrightarrow> items (enq x q) = items q @ [x]"
    and ok_enq: "ok q \<Longrightarrow> length (items q) < room q \<Longrightarrow> ok (enq x q)"
    and room_enq: "room (enq x q) = room q"
    and front_items: "ok q \<Longrightarrow> items q \<noteq> [] \<Longrightarrow> front q = Some (hd (items q))"
    and items_deq: "ok q \<Longrightarrow> items q \<noteq> [] \<Longrightarrow> items (deq q) = tl (items q)"
    and ok_deq: "ok q \<Longrightarrow> items q \<noteq> [] \<Longrightarrow> ok (deq q)"
    and room_deq: "room (deq q) = room q"
    and items_room: "ok q \<Longrightarrow> length (items q) \<le> room q"
begin

text \<open>Filling with a group of items, and dropping from the front.\<close>

lemma fill:
  "ok q \<Longrightarrow> length (items q) + length xs \<le> room q \<Longrightarrow>
     ok (fold enq xs q) \<and> items (fold enq xs q) = items q @ xs \<and> room (fold enq xs q) = room q"
  by (induction xs arbitrary: q) (simp_all add: items_enq ok_enq room_enq)

lemma drop_front:
  "ok q \<Longrightarrow> n \<le> length (items q) \<Longrightarrow>
     ok ((deq ^^ n) q) \<and> items ((deq ^^ n) q) = drop n (items q) \<and> room ((deq ^^ n) q) = room q"
proof (induction n)
  case 0
  then show ?case by simp
next
  case (Suc n)
  then have "ok ((deq ^^ n) q)" and "items ((deq ^^ n) q) = drop n (items q)"
    and "room ((deq ^^ n) q) = room q" by simp_all
  moreover have "drop n (items q) \<noteq> []" using Suc.prems by simp
  ultimately show ?case
    by (simp add: items_deq ok_deq room_deq tl_drop flip: drop_Suc)
qed

lemma deq_enq_front:
  "ok q \<Longrightarrow> length (items q) < room q \<Longrightarrow> items q \<noteq> [] \<Longrightarrow> front (enq x q) = front q"
  using front_items [of q] front_items [of "enq x q"] items_enq [of q x] ok_enq [of q x] by simp

end

section \<open>The ring implements it\<close>

text \<open>Slot \<open>k\<close> counted from the head.\<close>

definition slot :: "'a ring \<Rightarrow> nat \<Rightarrow> nat" where
  "slot r k = (queue_head r + k) mod length (tasks r)"

definition ring_items :: "'a ring \<times> nat \<Rightarrow> 'a list" where
  "ring_items q = map (\<lambda>k. the (tasks (fst q) ! slot (fst q) k)) [0..<snd q]"

definition ring_ok :: "'a ring \<times> nat \<Rightarrow> bool" where
  "ring_ok q \<longleftrightarrow> (let r = fst q; n = snd q in
     queue_head r < length (tasks r) \<and> n \<le> length (tasks r) \<and> queue_tail r = slot r n \<and>
     (\<forall>k < length (tasks r). tasks r ! slot r k \<noteq> None \<longleftrightarrow> k < n))"

definition ring_room :: "'a ring \<times> nat \<Rightarrow> nat" where
  "ring_room q = length (tasks (fst q))"

definition ring_enq :: "'a \<Rightarrow> 'a ring \<times> nat \<Rightarrow> 'a ring \<times> nat" where
  "ring_enq x q = (ring_emplace x (fst q), Suc (snd q))"

definition ring_deq :: "'a ring \<times> nat \<Rightarrow> 'a ring \<times> nat" where
  "ring_deq q = (ring_drop (fst q), snd q - 1)"

lemma length_ring_items [simp]: "length (ring_items q) = snd q"
  by (simp add: ring_items_def)

lemma mod_length_less: "h < length xs \<Longrightarrow> m mod length xs < length xs"
  by (cases xs) simp_all

lemma next_queue_index_mod: "i < c \<Longrightarrow> next_queue_index c i = Suc i mod c"
  by (auto simp: next_queue_index_def)

lemma slot_less: "queue_head r < length (tasks r) \<Longrightarrow> slot r k < length (tasks r)"
  unfolding slot_def by (rule mod_length_less)

lemma slot_Suc: "Suc (slot r k) mod length (tasks r) = slot r (Suc k)"
  by (simp add: slot_def mod_Suc_eq)

lemma slot_cases:
  assumes "queue_head r < length (tasks r)" and "k < length (tasks r)"
  shows "slot r k = (if queue_head r + k < length (tasks r) then queue_head r + k
    else queue_head r + k - length (tasks r))"
  using assms by (simp add: slot_def le_mod_geq)

lemma slot_inj:
  assumes "queue_head r < length (tasks r)" and "j < length (tasks r)" and "k < length (tasks r)"
    and "slot r j = slot r k"
  shows "j = k"
  using assms by (auto simp: slot_cases split: if_splits)

lemma slot_next:
  "queue_head r < length (tasks r) \<Longrightarrow>
     (next_queue_index (length (tasks r)) (queue_head r) + k) mod length (tasks r) = slot r (Suc k)"
  by (simp add: next_queue_index_mod slot_def mod_add_left_eq)

lemma ring_okD:
  assumes "ring_ok (r, n)"
  shows "queue_head r < length (tasks r)" and "n \<le> length (tasks r)" and "queue_tail r = slot r n"
    and "k < length (tasks r) \<Longrightarrow> tasks r ! slot r k \<noteq> None \<longleftrightarrow> k < n"
  using assms by (simp_all add: ring_ok_def Let_def)

lemma ring_emplace_slot:
  assumes "ring_ok (r, n)" and "n < length (tasks r)" and "k < length (tasks r)"
  shows "tasks (ring_emplace x r) ! slot r k = (if k = n then Some x else tasks r ! slot r k)"
proof -
  note ok = ring_okD [OF assms(1)]
  have "slot r k = slot r n \<longleftrightarrow> k = n" using slot_inj ok(1) assms(2,3) by metis
  then show ?thesis
    using ok(1,3) slot_less [OF ok(1)] by (auto simp: ring_emplace_def nth_list_update)
qed

lemma ring_emplace_sel [simp]:
  "queue_head (ring_emplace x r) = queue_head r"
  "length (tasks (ring_emplace x r)) = length (tasks r)"
  "slot (ring_emplace x r) = slot r"
  by (simp_all add: ring_emplace_def slot_def fun_eq_iff)

lemma ring_ok_emplace:
  assumes "ring_ok (r, n)" and "n < length (tasks r)"
  shows "ring_ok (ring_emplace x r, Suc n)"
proof -
  note ok = ring_okD [OF assms(1)]
  have "queue_tail (ring_emplace x r) = slot r (Suc n)"
    using ok(3) slot_less [OF ok(1)] by (simp add: ring_emplace_def next_queue_index_mod slot_Suc)
  moreover have "tasks (ring_emplace x r) ! slot r k \<noteq> None \<longleftrightarrow> k < Suc n" if "k < length (tasks r)" for k
    using ring_emplace_slot [OF assms that] ok(4) [OF that] by auto
  ultimately show ?thesis
    using ok(1) assms(2) by (simp add: ring_ok_def)
qed

lemma ring_items_emplace:
  assumes "ring_ok (r, n)" and "n < length (tasks r)"
  shows "ring_items (ring_emplace x r, Suc n) = ring_items (r, n) @ [x]"
proof -
  have "tasks (ring_emplace x r) ! slot r k = tasks r ! slot r k" if "k < n" for k
    using ring_emplace_slot [OF assms, of k] that assms(2) by simp
  then have "ring_items (ring_emplace x r, n) = ring_items (r, n)"
    by (simp add: ring_items_def)
  then show ?thesis
    using ring_emplace_slot [OF assms assms(2)] by (simp add: ring_items_def)
qed

lemma ring_front_items:
  assumes "ring_ok (r, n)" and "0 < n"
  shows "ring_front r = Some (hd (ring_items (r, n)))"
proof -
  note ok = ring_okD [OF assms(1)]
  have "0 < length (tasks r)" and head: "slot r 0 = queue_head r"
    using ok(1) by (auto simp: slot_def)
  then have "tasks r ! slot r 0 \<noteq> None" using ok(4) assms(2) by blast
  moreover have "hd (ring_items (r, n)) = the (tasks r ! slot r 0)"
    using assms(2) by (simp add: ring_items_def hd_map upt_conv_Cons)
  ultimately show ?thesis using ok(1) head by (simp add: ring_front_def)
qed

lemma ring_drop_sel:
  assumes "queue_head r < length (tasks r)"
  shows "length (tasks (ring_drop r)) = length (tasks r)"
    and "slot (ring_drop r) k = slot r (Suc k)"
    and "queue_head (ring_drop r) < length (tasks r)"
  using assms slot_next [OF assms, of k] mod_length_less [OF assms]
  by (auto simp: ring_drop_def slot_def next_queue_index_mod)

lemma ring_drop_slot:
  assumes "queue_head r < length (tasks r)" and "k < length (tasks r)"
  shows "tasks (ring_drop r) ! slot r k = (if k = 0 then None else tasks r ! slot r k)"
proof -
  have "slot r k = slot r 0 \<longleftrightarrow> k = 0" using slot_inj assms by (metis gr_zeroI less_nat_zero_code)
  moreover have "slot r 0 = queue_head r" using assms(1) by (simp add: slot_def)
  ultimately show ?thesis
    using assms(1) by (auto simp: ring_drop_def slot_def nth_list_update)
qed

lemma ring_ok_drop:
  assumes "ring_ok (r, n)" and "0 < n"
  shows "ring_ok (ring_drop r, n - 1)"
proof -
  note ok = ring_okD [OF assms(1)] and sel = ring_drop_sel [OF ring_okD(1) [OF assms(1)]]
  have "queue_tail (ring_drop r) = slot (ring_drop r) (n - 1)"
    using assms(2) ok(3) by (simp add: sel(2)) (simp add: ring_drop_def)
  moreover have "tasks (ring_drop r) ! slot (ring_drop r) k \<noteq> None \<longleftrightarrow> k < n - 1"
    if "k < length (tasks r)" for k
  proof (cases "Suc k < length (tasks r)")
    case True
    then show ?thesis
      using ring_drop_slot [OF ok(1) True] ok(4) [OF True] by (auto simp: sel(2))
  next
    case False
    with that have "Suc k = length (tasks r)" by simp
    then have "slot r (Suc k) = slot r 0" unfolding slot_def by simp
    moreover have "0 < length (tasks r)" using ok(1) by (rule le_less_trans [OF le0])
    ultimately show ?thesis
      using ring_drop_slot [OF ok(1), of 0] ok(2) False that by (simp add: sel(2))
  qed
  ultimately show ?thesis using sel ok(2) by (simp add: ring_ok_def Let_def)
qed

lemma ring_items_drop:
  assumes "ring_ok (r, n)" and "0 < n"
  shows "ring_items (ring_drop r, n - 1) = tl (ring_items (r, n))"
proof -
  note ok = ring_okD [OF assms(1)] and sel = ring_drop_sel [OF ring_okD(1) [OF assms(1)]]
  have "tasks (ring_drop r) ! slot (ring_drop r) k = tasks r ! slot r (Suc k)" if "k < n - 1" for k
    using ring_drop_slot [OF ok(1), of "Suc k"] that ok(2) by (simp add: sel(2))
  then show ?thesis
    by (intro nth_equalityI) (auto simp: ring_items_def nth_tl)
qed

interpretation rq: bounded_queue ring_enq "\<lambda>q. ring_front (fst q)" ring_deq ring_items ring_room ring_ok
proof unfold_locales
  fix q :: "'a ring \<times> nat" and x :: 'a
  obtain r n where q: "q = (r, n)" by force
  show "ring_room (ring_enq x q) = ring_room q" and "ring_room (ring_deq q) = ring_room q"
    by (simp_all add: ring_room_def ring_enq_def ring_deq_def ring_drop_def)
  show "ring_items q \<noteq> [] \<Longrightarrow> ring_ok q \<Longrightarrow> ring_front (fst q) = Some (hd (ring_items q))"
    using ring_front_items [of r n] by (cases n) (simp_all add: q ring_items_def)
  show "ring_ok q \<Longrightarrow> length (ring_items q) \<le> ring_room q"
    by (auto simp: q ring_room_def dest: ring_okD(2))
  assume "ring_ok q"
  then have ok: "ring_ok (r, n)" by (simp add: q)
  show "length (ring_items q) < ring_room q \<Longrightarrow> ring_items (ring_enq x q) = ring_items q @ [x]"
    and "length (ring_items q) < ring_room q \<Longrightarrow> ring_ok (ring_enq x q)"
    using ring_items_emplace [OF ok] ring_ok_emplace [OF ok]
    by (simp_all add: q ring_room_def ring_enq_def)
  assume "ring_items q \<noteq> []"
  then have "0 < n" by (cases n) (simp_all add: q ring_items_def)
  then show "ring_items (ring_deq q) = tl (ring_items q)" and "ring_ok (ring_deq q)"
    using ring_items_drop [OF ok] ring_ok_drop [OF ok] by (simp_all add: q ring_deq_def)
qed

end
