(* ===== verification/Worker_Pool.thy ===== *)
theory Worker_Pool
  imports Error_Model Pool_State Pool_Ring
begin

text \<open>
  \<open>IndustrialWorkerPool\<close> of \<open>include/vosp/worker_pool.hpp\<close>: its state, and one definition per
  critical section or atomic update. Promises and futures are entries of a table; setting a
  promise twice throws in C++ and leads to \<open>std::terminate\<close>, which is the value \<open>None\<close> here, as is
  reading an empty queue slot. A callback is an argument of the operations that run it: given the
  stop token and the state of the program it finishes with a result or raises an exception.
\<close>

section \<open>Tasks, futures and the state of a pool\<close>

definition max_worker_count :: nat where "max_worker_count = 1024"

definition max_queue_capacity :: nat where "max_queue_capacity = 1024"

datatype ShutdownMode = DRAIN | CANCEL_PENDING

definition task_cancelled_error :: Error where
  "task_cancelled_error = make_Error NONE task_cancelled_code
     ''Worker pool task was cancelled before execution''"

datatype exception_ptr = exception_ptr string

datatype outcome = Finished OperationResult | Raised exception_ptr

datatype future_state = Not_ready | Ready OperationResult | Failed exception_ptr

datatype 'c callback = Task 'c | CancellableTask 'c

record 'c TaskItem =
  callback :: "'c callback"
  completion :: "nat option"
  bulk :: bool

type_synonym promise_table = "nat \<rightharpoonup> future_state"

record 'c Pool =
  worker_count :: nat
  queue_capacity :: nat
  slots :: "'c TaskItem ring"
  queue_state :: u64
  failed_dispatches :: u64
  cancelled_dispatches :: u64
  promises :: promise_table
  next_promise :: nat
  workers :: "nat list"
  stop_requested :: "nat \<Rightarrow> bool"

definition validate_queue_capacity :: "nat \<Rightarrow> std_exception + nat" where
  "validate_queue_capacity capacity =
     (if capacity = 0 \<or> capacity > max_queue_capacity
      then Inl (Invalid_argument ''Worker pool queue capacity must be in [1, 1024]'')
      else Inr capacity)"

text \<open>\<open>hardware\<close> is \<open>std::thread::hardware_concurrency()\<close>, which may be zero; starting the
  threads is taken to succeed.\<close>

definition Pool_new :: "nat \<Rightarrow> nat \<Rightarrow> nat \<Rightarrow> std_exception + 'c Pool" where
  "Pool_new hardware requested capacity =
     (case validate_queue_capacity capacity of
        Inl e \<Rightarrow> Inl e
      | Inr capacity' \<Rightarrow>
          (let count' = (if requested = 0 then hardware else requested) in
           if count' = 0 \<or> count' > max_worker_count
           then Inl (Invalid_argument ''Worker pool worker count must be in [1, 1024]'')
           else Inr \<lparr>worker_count = count', queue_capacity = capacity',
             slots = ring_new capacity', queue_state = 0, failed_dispatches = 0,
             cancelled_dispatches = 0, promises = Map.empty, next_promise = 0,
             workers = [0..<count'], stop_requested = (\<lambda>_. False)\<rparr>))"

definition set_promise :: "nat \<Rightarrow> future_state \<Rightarrow> promise_table \<Rightarrow> promise_table option" where
  "set_promise i v ps = (if ps i = Some Not_ready then Some (ps(i \<mapsto> v)) else None)"

section \<open>Observers\<close>

definition pending_tasks :: "'c Pool \<Rightarrow> nat" where
  "pending_tasks p = pending_from_state (queue_state p)"

definition active_tasks :: "'c Pool \<Rightarrow> nat" where
  "active_tasks p = active_from_state (queue_state p)"

definition is_stopping :: "'c Pool \<Rightarrow> bool" where
  "is_stopping p = is_stopping_state (queue_state p)"

definition is_idle :: "'c Pool \<Rightarrow> bool" where
  "is_idle p \<longleftrightarrow> pending_from_state (queue_state p) = 0 \<and> active_from_state (queue_state p) = 0"

section \<open>Submission\<close>

text \<open>
  The critical section of \<open>enqueue\<close>. \<open>Blocked\<close> means that the caller stays in (or returns to)
  \<open>wait_for_space\<close>, which it leaves only when the queue has room or the pool stops.
\<close>

datatype 'a submission = Blocked | Threw std_exception | Accepted 'a

definition after_shutdown :: std_exception where
  "after_shutdown = Runtime_error ''Cannot submit task after worker pool shutdown''"

definition enqueue :: "'c TaskItem \<Rightarrow> 'c Pool \<Rightarrow> 'c Pool submission" where
  "enqueue item p =
     (if is_stopping_state (queue_state p) then Threw after_shutdown
      else if pending_from_state (queue_state p) = queue_capacity p then Blocked
      else Accepted (p\<lparr>slots := ring_emplace item (slots p), queue_state := queue_state p + 1\<rparr>))"

definition with_promise :: "'c Pool \<Rightarrow> 'c Pool" where
  "with_promise p = p\<lparr>promises := (promises p)(next_promise p \<mapsto> Not_ready),
     next_promise := Suc (next_promise p)\<rparr>"

definition tracked :: "'c callback \<Rightarrow> 'c Pool \<Rightarrow> 'c TaskItem" where
  "tracked c p = \<lparr>callback = c, completion = Some (next_promise p), bulk = False\<rparr>"

definition submit_tracked :: "'c callback \<Rightarrow> 'c Pool \<Rightarrow> (nat \<times> 'c Pool) submission" where
  "submit_tracked c p =
     (case enqueue (tracked c p) (with_promise p) of
        Blocked \<Rightarrow> Blocked
      | Threw e \<Rightarrow> Threw e
      | Accepted p' \<Rightarrow> Accepted (next_promise p, p'))"

definition submit :: "'c \<Rightarrow> 'c Pool \<Rightarrow> (nat \<times> 'c Pool) submission" where
  "submit task p = submit_tracked (Task task) p"

definition submit_cancellable :: "'c \<Rightarrow> 'c Pool \<Rightarrow> (nat \<times> 'c Pool) submission" where
  "submit_cancellable task p = submit_tracked (CancellableTask task) p"

definition pool_dispatch :: "'c \<Rightarrow> 'c Pool \<Rightarrow> 'c Pool submission" where
  "pool_dispatch task p = enqueue \<lparr>callback = Task task, completion = None, bulk = False\<rparr> p"

definition dispatch_cancellable :: "'c \<Rightarrow> 'c Pool \<Rightarrow> 'c Pool submission" where
  "dispatch_cancellable task p =
     enqueue \<lparr>callback = CancellableTask task, completion = None, bulk = False\<rparr> p"

definition bulk_item :: "'c \<Rightarrow> 'c TaskItem" where
  "bulk_item task = \<lparr>callback = Task task, completion = None, bulk = True\<rparr>"

text \<open>
  One round of the loop of \<open>dispatch_bulk\<close>, for the callbacks not yet accepted: it stops early,
  waits for room, or moves as many callbacks as fit. \<open>dispatch_bulk\<close> repeats it until every
  callback is accepted.
\<close>

datatype 'c bulk_round = Bulk_stopped | Bulk_blocked | Bulk_moved nat "'c Pool"

definition dispatch_bulk_round :: "'c list \<Rightarrow> 'c Pool \<Rightarrow> 'c bulk_round" where
  "dispatch_bulk_round remaining p =
     (let state = queue_state p in
      if is_stopping_state state then Bulk_stopped
      else (let available = queue_capacity p - pending_from_state state in
        if available = 0 then Bulk_blocked
        else (let enqueued = min (length remaining) available in
          Bulk_moved enqueued
            (p\<lparr>slots := fold ring_emplace (map bulk_item (take enqueued remaining)) (slots p),
               queue_state := state + of_nat enqueued\<rparr>))))"

section \<open>Claiming, executing, finishing\<close>

text \<open>The loop of \<open>process_bulk\<close>, for at most \<open>limit\<close> items.\<close>

fun claim_bulk :: "nat \<Rightarrow> 'c TaskItem ring \<Rightarrow> ('c TaskItem list \<times> 'c TaskItem ring) option" where
  "claim_bulk 0 r = Some ([], r)"
| "claim_bulk (Suc limit) r =
     (case ring_front r of
        None \<Rightarrow> None
      | Some item \<Rightarrow>
          if \<not> bulk item then Some ([], r)
          else map_option (\<lambda>(items, r'). (item # items, r')) (claim_bulk limit (ring_drop r)))"

text \<open>The critical section of a worker in \<open>run\<close> and \<open>process_bulk\<close>: the claimed items.\<close>

definition claim :: "'c Pool \<Rightarrow> ('c TaskItem list \<times> 'c Pool) option" where
  "claim p =
     (let state = queue_state p in
      if pending_from_state state = 0 then Some ([], p)
      else (case ring_front (slots p) of
        None \<Rightarrow> None
      | Some item \<Rightarrow>
          if bulk item then
            (case claim_bulk (min bulk_claim_size (pending_from_state state)) (slots p) of
               None \<Rightarrow> None
             | Some (items, r) \<Rightarrow> Some (items, p\<lparr>slots := r,
                 queue_state := state + of_nat (length items) * (active_unit - 1)\<rparr>))
          else Some ([item], p\<lparr>slots := ring_drop (slots p),
                 queue_state := state + (active_unit - 1)\<rparr>)))"

definition failing :: "outcome \<Rightarrow> bool" where
  "failing out = (case out of Finished r \<Rightarrow> isl r | Raised _ \<Rightarrow> True)"

definition settled :: "outcome \<Rightarrow> future_state" where
  "settled out = (case out of Finished r \<Rightarrow> Ready r | Raised x \<Rightarrow> Failed x)"

definition account :: "'c TaskItem \<Rightarrow> outcome \<Rightarrow> 'c Pool \<Rightarrow> 'c Pool option" where
  "account item out p =
     (case completion item of
        None \<Rightarrow> Some (if failing out then p\<lparr>failed_dispatches := failed_dispatches p + 1\<rparr> else p)
      | Some i \<Rightarrow> map_option (\<lambda>ps. p\<lparr>promises := ps\<rparr>) (set_promise i (settled out) (promises p)))"

type_synonym ('c, 's) caller = "'c callback \<Rightarrow> bool \<Rightarrow> 's \<Rightarrow> outcome \<times> 's"

definition execute ::
  "('c, 's) caller \<Rightarrow> bool \<Rightarrow> 'c TaskItem \<Rightarrow> 'c Pool \<times> 's \<Rightarrow> ('c Pool \<times> 's) option" where
  "execute call stop item ps =
     (case call (callback item) stop (snd ps) of
        (out, s') \<Rightarrow> map_option (\<lambda>p'. (p', s')) (account item out (fst ps)))"

text \<open>\<open>finish_tasks\<close> also reports whether it calls \<open>notify_idle_waiters\<close>.\<close>

definition finish_tasks :: "nat \<Rightarrow> 'c Pool \<Rightarrow> bool \<times> 'c Pool" where
  "finish_tasks n p =
     (let previous = queue_state p in
      (active_from_state previous = n \<and> pending_from_state previous = 0,
       p\<lparr>queue_state := previous - of_nat n * active_unit\<rparr>))"

section \<open>Cancellation and shutdown\<close>

text \<open>The loop of \<open>cancel_pending\<close> over the queued items, and the section around it.\<close>

fun cancel_items :: "nat \<Rightarrow> 'c Pool \<Rightarrow> 'c Pool option" where
  "cancel_items 0 p = Some p"
| "cancel_items (Suc remaining) p =
     (case ring_front (slots p) of
        None \<Rightarrow> None
      | Some item \<Rightarrow>
          (case completion item of
             Some i \<Rightarrow>
               (case set_promise i (Ready (Inl task_cancelled_error)) (promises p) of
                  None \<Rightarrow> None
                | Some ps \<Rightarrow>
                    cancel_items remaining (p\<lparr>promises := ps, slots := ring_drop (slots p)\<rparr>))
           | None \<Rightarrow>
               cancel_items remaining (p\<lparr>cancelled_dispatches := cancelled_dispatches p + 1,
                 slots := ring_drop (slots p)\<rparr>)))"

definition cancel_pending :: "'c Pool \<Rightarrow> (nat \<times> 'c Pool) option" where
  "cancel_pending p =
     (let cancelled = pending_from_state (queue_state p) in
      map_option (\<lambda>p'. (cancelled,
          p'\<lparr>slots := (slots p')\<lparr>queue_tail := queue_head (slots p')\<rparr>,
             queue_state := (if cancelled \<noteq> 0 then queue_state p' - of_nat cancelled
                             else queue_state p')\<rparr>))
        (cancel_items cancelled p))"

definition clear_queue :: "'c Pool \<Rightarrow> (nat \<times> 'c Pool) option" where
  "clear_queue p = cancel_pending p"

definition request_stop :: "'c Pool \<Rightarrow> 'c Pool" where
  "request_stop p = p\<lparr>stop_requested := (\<lambda>w. w \<in> set (workers p) \<or> stop_requested p w)\<rparr>"

definition signal_shutdown :: "ShutdownMode \<Rightarrow> 'c Pool \<Rightarrow> 'c Pool option" where
  "signal_shutdown mode p =
     (let p1 = p\<lparr>queue_state := queue_state p OR stopping_mask\<rparr> in
      if mode = CANCEL_PENDING
      then map_option (\<lambda>(n, p2). request_stop p2) (cancel_pending p1)
      else Some p1)"

end
