(* ===== verification/Pool_Invariant.thy ===== *)
theory Pool_Invariant
  imports Worker_Pool
begin

text \<open>
  The invariant of a worker pool and what each operation does to the abstract state: the queued
  tasks in order, the true number of active tasks, the stopping flag and the futures.
\<close>

section \<open>Abstraction and invariant\<close>

definition queued :: "'c Pool \<Rightarrow> 'c TaskItem list" where
  "queued p = ring_items (slots p, pending_from_state (queue_state p))"

definition promise_ids :: "'c TaskItem list \<Rightarrow> nat list" where
  "promise_ids items = List.map_filter completion items"

lemma promise_ids_simps [simp]:
  "promise_ids [] = []"
  "promise_ids (x # xs) = (case completion x of None \<Rightarrow> promise_ids xs | Some i \<Rightarrow> i # promise_ids xs)"
  "promise_ids (xs @ ys) = promise_ids xs @ promise_ids ys"
  by (simp_all add: promise_ids_def List.map_filter_def split: option.splits)

text \<open>\<open>a\<close> is the true number of active tasks (the packed field may hold it modulo 2048); the
  items in \<open>live\<close> have been claimed and not executed yet.\<close>

definition futures_ok :: "'c TaskItem list \<Rightarrow> promise_table \<Rightarrow> nat \<Rightarrow> bool" where
  "futures_ok items ps next \<longleftrightarrow> distinct (promise_ids items) \<and>
     (\<forall>i \<in> set (promise_ids items). ps i = Some Not_ready) \<and> (\<forall>i \<ge> next. ps i = None)"

text \<open>What the source asserts at compile time. The second bound is on workers, not on active tasks.\<close>

lemma static_asserts:
  "max_queue_capacity \<le> unat pending_mask" "max_worker_count \<le> unat pending_mask"
  "active_mask AND stopping_mask = 0"
  by code_simp+

definition pool_inv :: "nat \<Rightarrow> 'c TaskItem list \<Rightarrow> 'c Pool \<Rightarrow> bool" where
  "pool_inv a live p \<longleftrightarrow>
     0 < queue_capacity p \<and> queue_capacity p \<le> max_queue_capacity \<and>
     0 < worker_count p \<and> worker_count p \<le> max_worker_count \<and>
     length (tasks (slots p)) = queue_capacity p \<and> a < 2 ^ 52 \<and>
     (\<exists>n. queue_state p = packed n a (is_stopping p) \<and> ring_ok (slots p, n)) \<and>
     futures_ok (live @ queued p) (promises p) (next_promise p)"

lemma ring_ok_length: "ring_ok (r, n) \<Longrightarrow> n \<le> length (tasks r)"
  by (rule ring_okD(2))

lemma pool_state:
  assumes "pool_inv a live p"
  obtains n where "queue_state p = packed n a (is_stopping p)" and "ring_ok (slots p, n)"
    and "in_range n a" and "n \<le> queue_capacity p" and "length (queued p) = n"
    and "queued p = ring_items (slots p, n)"
proof -
  from assms obtain n where n: "queue_state p = packed n a (is_stopping p)" "ring_ok (slots p, n)"
    by (auto simp: pool_inv_def)
  have le: "n \<le> queue_capacity p"
    using assms ring_ok_length [OF n(2)] by (simp add: pool_inv_def)
  then have "in_range n a"
    using assms by (simp add: in_range_def pool_inv_def max_queue_capacity_def)
  with n le show thesis by (intro that [of n]) (simp_all add: queued_def)
qed

lemma pool_observers:
  assumes "pool_inv a live p"
  shows "pending_from_state (queue_state p) = length (queued p)"
    and "is_stopping_state (queue_state p) = is_stopping p"
    and "active_from_state (queue_state p) = a mod 2048"
    and "length (queued p) \<le> queue_capacity p"
proof -
  obtain n where "queue_state p = packed n a (is_stopping p)" "in_range n a" "length (queued p) = n"
    "n \<le> queue_capacity p"
    using pool_state [OF assms] by metis
  then show "pending_from_state (queue_state p) = length (queued p)"
    and "is_stopping_state (queue_state p) = is_stopping p"
    and "active_from_state (queue_state p) = a mod 2048" and "length (queued p) \<le> queue_capacity p"
    by simp_all
qed

text \<open>Re-establishing the invariant from a new packed word and a new ring.\<close>

lemma pool_invI:
  assumes "pool_inv a live p"
    and "queue_capacity p' = queue_capacity p" and "worker_count p' = worker_count p"
    and "length (tasks (slots p')) = length (tasks (slots p))"
    and "queue_state p' = packed n' a' s'" and "ring_ok (slots p', n')" and "a' < 2 ^ 52"
    and "futures_ok (live' @ ring_items (slots p', n')) (promises p') (next_promise p')"
  shows "pool_inv a' live' p' \<and> queued p' = ring_items (slots p', n') \<and> is_stopping p' = s'"
proof -
  have "n' \<le> queue_capacity p"
    using ring_ok_length [OF assms(6)] assms(1,4) by (simp add: pool_inv_def)
  then have "in_range n' a'"
    using assms(1,7) by (simp add: in_range_def pool_inv_def max_queue_capacity_def)
  then have "queued p' = ring_items (slots p', n')" and "is_stopping p' = s'"
    by (simp_all add: queued_def is_stopping_def assms(5))
  with assms show ?thesis by (auto simp: pool_inv_def)
qed

lemma Pool_new_inv:
  assumes "Pool_new hardware requested capacity = Inr p"
  shows "pool_inv 0 [] p \<and> queued p = [] \<and> \<not> is_stopping p \<and> queue_capacity p = capacity"
proof -
  have p: "0 < capacity" "capacity \<le> max_queue_capacity" "queue_capacity p = capacity"
    "0 < worker_count p" "worker_count p \<le> max_worker_count" "slots p = ring_new capacity"
    "queue_state p = 0" "promises p = Map.empty"
    using assms by (auto simp: Pool_new_def validate_queue_capacity_def Let_def split: if_splits)
  have ring: "ring_ok (ring_new capacity, 0)" "ring_items (ring_new capacity, 0) = []"
    "length (tasks (ring_new capacity)) = capacity"
    using p(1) by (simp_all add: ring_ok_def ring_new_def slot_def ring_items_def)
  have word: "pending_from_state 0 = 0" "\<not> is_stopping_state 0" "(0 :: u64) = packed 0 0 False"
    by (simp_all add: pending_arith stopping_arith packed_def)
  show ?thesis
    using p ring word
    by (auto simp: pool_inv_def futures_ok_def queued_def is_stopping_def intro!: exI [of _ 0])
qed

section \<open>Submission\<close>

lemma packed_Suc: "packed n a s + 1 = packed (Suc n) a s"
  using packed_enqueue [of n a s 1] by simp

definition fresh_item :: "'c TaskItem list \<Rightarrow> 'c TaskItem \<Rightarrow> 'c Pool \<Rightarrow> bool" where
  "fresh_item live item p \<longleftrightarrow> (\<forall>i. completion item = Some i \<longrightarrow>
     i \<notin> set (promise_ids (live @ queued p)) \<and> promises p i = Some Not_ready)"

lemma enqueue_cases:
  assumes "pool_inv a live p" and "fresh_item live item p"
  shows "enqueue item p =
     (if is_stopping p then Threw after_shutdown
      else if length (queued p) = queue_capacity p then Blocked
      else Accepted (p\<lparr>slots := ring_emplace item (slots p), queue_state := queue_state p + 1\<rparr>))"
    and "enqueue item p = Accepted p' \<Longrightarrow>
      pool_inv a live p' \<and> queued p' = queued p @ [item] \<and> is_stopping p' = is_stopping p"
proof -
  obtain n where n: "queue_state p = packed n a (is_stopping p)" "ring_ok (slots p, n)" "in_range n a"
    "n \<le> queue_capacity p" "length (queued p) = n" "queued p = ring_items (slots p, n)"
    using pool_state [OF assms(1)] by metis
  note obs = pool_observers [OF assms(1)]
  show eq: "enqueue item p =
     (if is_stopping p then Threw after_shutdown
      else if length (queued p) = queue_capacity p then Blocked
      else Accepted (p\<lparr>slots := ring_emplace item (slots p), queue_state := queue_state p + 1\<rparr>))"
    by (simp add: enqueue_def obs)
  assume acc: "enqueue item p = Accepted p'"
  then have p': "p' = p\<lparr>slots := ring_emplace item (slots p), queue_state := queue_state p + 1\<rparr>"
    and "n < length (tasks (slots p))"
    using n(4,5) assms(1) by (auto simp: eq pool_inv_def split: if_splits)
  then have ring: "ring_ok (slots p', Suc n)" "ring_items (slots p', Suc n) = queued p @ [item]"
    using n(2,6) ring_ok_emplace ring_items_emplace by simp_all
  have "futures_ok (live @ queued p @ [item]) (promises p) (next_promise p)"
    using assms by (auto simp: pool_inv_def futures_ok_def fresh_item_def split: option.splits)
  then have "pool_inv a live p' \<and> queued p' = ring_items (slots p', Suc n) \<and> is_stopping p' = is_stopping p"
    using assms(1) ring n(1) by (intro pool_invI [OF assms(1)]) (simp_all add: p' packed_Suc pool_inv_def)
  with ring show "pool_inv a live p' \<and> queued p' = queued p @ [item] \<and> is_stopping p' = is_stopping p"
    by simp
qed

lemma with_promise_inv:
  assumes "pool_inv a live p"
  shows "pool_inv a live (with_promise p)" and "queued (with_promise p) = queued p"
    and "is_stopping (with_promise p) = is_stopping p"
    and "fresh_item live (tracked c p) (with_promise p)"
proof -
  show q: "queued (with_promise p) = queued p" and s: "is_stopping (with_promise p) = is_stopping p"
    by (simp_all add: with_promise_def queued_def is_stopping_def)
  have new: "next_promise p \<notin> set (promise_ids (live @ queued p))"
    using assms unfolding pool_inv_def futures_ok_def
    by (metis le_refl option.distinct(1))
  then have "futures_ok (live @ queued p) (promises (with_promise p)) (next_promise (with_promise p))"
    using assms by (auto simp: pool_inv_def futures_ok_def with_promise_def)
  then show "pool_inv a live (with_promise p)"
    using assms s by (simp add: pool_inv_def q) (simp add: with_promise_def)
  show "fresh_item live (tracked c p) (with_promise p)"
    using new by (simp add: fresh_item_def tracked_def q) (simp add: with_promise_def)
qed

lemma fresh_untracked: "completion item = None \<Longrightarrow> fresh_item live item p"
  by (simp add: fresh_item_def)

lemma submit_tracked_accepted:
  assumes "pool_inv a live p" and "submit_tracked c p = Accepted (i, p')"
  shows "i = next_promise p \<and> pool_inv a live p' \<and> queued p' = queued p @ [tracked c p] \<and>
    is_stopping p' = is_stopping p \<and> promises p' i = Some Not_ready"
proof -
  note w = with_promise_inv [OF assms(1)]
  from assms(2) have i: "i = next_promise p" and acc: "enqueue (tracked c p) (with_promise p) = Accepted p'"
    by (auto simp: submit_tracked_def split: submission.splits)
  then have "promises p' = promises (with_promise p)"
    using enqueue_cases(1) [OF w(1,4)] by (auto split: if_splits)
  then show ?thesis
    using enqueue_cases(2) [OF w(1,4) acc] w(2,3) i by (simp add: with_promise_def)
qed

lemma submit_tracked_refused:
  assumes "pool_inv a live p"
  shows "submit_tracked c p = Threw e \<longleftrightarrow> is_stopping p \<and> e = after_shutdown"
    and "submit_tracked c p = Blocked \<longleftrightarrow> \<not> is_stopping p \<and> length (queued p) = queue_capacity p"
proof -
  note w = with_promise_inv [OF assms]
  have "queue_capacity (with_promise p) = queue_capacity p" by (simp add: with_promise_def)
  then show "submit_tracked c p = Threw e \<longleftrightarrow> is_stopping p \<and> e = after_shutdown"
    and "submit_tracked c p = Blocked \<longleftrightarrow> \<not> is_stopping p \<and> length (queued p) = queue_capacity p"
    by (auto simp: submit_tracked_def enqueue_cases(1) [OF w(1,4)] w(2,3))
qed

lemma fold_ring_enq: "fold ring_enq xs (r, n) = (fold ring_emplace xs r, n + length xs)"
  by (induction xs arbitrary: r n) (simp_all add: ring_enq_def)

lemma fold_emplace:
  assumes "ring_ok (r, n)" and "n + length xs \<le> length (tasks r)"
  shows "ring_ok (fold ring_emplace xs r, n + length xs) \<and>
    ring_items (fold ring_emplace xs r, n + length xs) = ring_items (r, n) @ xs \<and>
    length (tasks (fold ring_emplace xs r)) = length (tasks r)"
  using rq.fill [of "(r, n)" xs] assms by (simp add: fold_ring_enq ring_room_def)

lemma promise_ids_bulk [simp]: "promise_ids (map bulk_item ts) = []"
  by (induction ts) (simp_all add: bulk_item_def)

lemma futures_ok_bulk [simp]:
  "futures_ok (xs @ ys @ map bulk_item ts) ps i \<longleftrightarrow> futures_ok (xs @ ys) ps i"
  by (simp add: futures_ok_def)

lemma dispatch_bulk_round_cases:
  assumes "pool_inv a live p"
  shows "dispatch_bulk_round ts p = Bulk_stopped \<longleftrightarrow> is_stopping p"
    and "dispatch_bulk_round ts p = Bulk_blocked \<longleftrightarrow>
      \<not> is_stopping p \<and> length (queued p) = queue_capacity p"
    and "dispatch_bulk_round ts p = Bulk_moved k p' \<Longrightarrow>
      k = min (length ts) (queue_capacity p - length (queued p)) \<and> \<not> is_stopping p \<and>
      pool_inv a live p' \<and> queued p' = queued p @ map bulk_item (take k ts) \<and> \<not> is_stopping p' \<and>
      promises p' = promises p \<and> queue_capacity p' = queue_capacity p"
proof -
  note obs = pool_observers [OF assms]
  show "dispatch_bulk_round ts p = Bulk_stopped \<longleftrightarrow> is_stopping p"
    and "dispatch_bulk_round ts p = Bulk_blocked \<longleftrightarrow>
      \<not> is_stopping p \<and> length (queued p) = queue_capacity p"
    using obs(4) by (auto simp: dispatch_bulk_round_def obs(1,2) Let_def)
  obtain n where n: "queue_state p = packed n a (is_stopping p)" "ring_ok (slots p, n)"
    "n \<le> queue_capacity p" "length (queued p) = n" "queued p = ring_items (slots p, n)"
    using pool_state [OF assms] by metis
  assume "dispatch_bulk_round ts p = Bulk_moved k p'"
  then have k: "k = min (length ts) (queue_capacity p - length (queued p))" "\<not> is_stopping p"
    and p': "p' = p\<lparr>slots := fold ring_emplace (map bulk_item (take k ts)) (slots p),
               queue_state := queue_state p + of_nat k\<rparr>"
    by (auto simp: dispatch_bulk_round_def obs(1,2) Let_def split: if_splits)
  have "n + length (map bulk_item (take k ts)) \<le> length (tasks (slots p))"
    using n(3,4) k(1) assms by (auto simp: pool_inv_def)
  note ring = fold_emplace [OF n(2) this]
  have "pool_inv a live p' \<and> queued p' = ring_items (slots p', n + k) \<and> is_stopping p' = is_stopping p"
    using assms ring n k(1)
    by (intro pool_invI [OF assms]) (simp_all add: p' packed_enqueue pool_inv_def)
  with ring k n show "k = min (length ts) (queue_capacity p - length (queued p)) \<and> \<not> is_stopping p \<and>
      pool_inv a live p' \<and> queued p' = queued p @ map bulk_item (take k ts) \<and> \<not> is_stopping p' \<and>
      promises p' = promises p \<and> queue_capacity p' = queue_capacity p"
    by (simp add: p')
qed

section \<open>Claiming\<close>

lemma claim_bulk_items:
  assumes "ring_ok (r, n)" and "limit \<le> n"
  shows "\<exists>r'. claim_bulk limit r = Some (takeWhile bulk (take limit (ring_items (r, n))), r') \<and>
    (let k = length (takeWhile bulk (take limit (ring_items (r, n)))) in
     ring_ok (r', n - k) \<and> ring_items (r', n - k) = drop k (ring_items (r, n)) \<and>
     length (tasks r') = length (tasks r))"
  using assms
proof (induction limit arbitrary: r n)
  case 0
  then show ?case by simp
next
  case (Suc limit)
  then have "0 < n" by simp
  then obtain x xs where items: "ring_items (r, n) = x # xs"
    by (metis Suc.prems(2) length_0_conv length_ring_items list.exhaust not_less_zero snd_conv)
  have front: "ring_front r = Some x" using ring_front_items [OF Suc.prems(1) \<open>0 < n\<close>] items by simp
  have drop: "ring_ok (ring_drop r, n - 1)" "ring_items (ring_drop r, n - 1) = xs"
    using ring_ok_drop [OF Suc.prems(1) \<open>0 < n\<close>] ring_items_drop [OF Suc.prems(1) \<open>0 < n\<close>] items
    by simp_all
  show ?case
  proof (cases "bulk x")
    case False
    with front items Suc.prems show ?thesis by simp
  next
    case True
    have "limit \<le> n - 1" using Suc.prems(2) by simp
    from Suc.IH [OF drop(1) this] obtain r' where
      "claim_bulk limit (ring_drop r) = Some (takeWhile bulk (take limit xs), r')"
      "ring_ok (r', n - 1 - length (takeWhile bulk (take limit xs)))"
      "ring_items (r', n - 1 - length (takeWhile bulk (take limit xs))) =
        drop (length (takeWhile bulk (take limit xs))) xs"
      "length (tasks r') = length (tasks (ring_drop r))"
      unfolding drop(2) Let_def by blast
    with True front items show ?thesis by (simp add: ring_drop_def)
  qed
qed

text \<open>What a worker claims from a queue: one task, or up to sixteen bulk tasks.\<close>

definition claimed :: "'c TaskItem list \<Rightarrow> 'c TaskItem list" where
  "claimed q = (case q of [] \<Rightarrow> [] | x # _ \<Rightarrow>
     if bulk x then takeWhile bulk (take bulk_claim_size q) else [x])"

lemma claimed_prefix: "claimed q @ drop (length (claimed q)) q = q"
proof (cases q)
  case Nil
  then show ?thesis by (simp add: claimed_def)
next
  case (Cons x xs)
  have "takeWhile bulk (take m q) @ drop (length (takeWhile bulk (take m q))) q = q" for m
    by (metis append_take_drop_id takeWhile_eq_take take_take length_take min.absorb1 length_takeWhile_le
        append_eq_conv_conj takeWhile_dropWhile_id)
  with Cons show ?thesis by (auto simp: claimed_def)
qed

lemma claimed_bounds:
  "length (claimed q) \<le> bulk_claim_size" "q \<noteq> [] \<Longrightarrow> claimed q \<noteq> []"
  "\<forall>x \<in> set q. \<not> bulk x \<Longrightarrow> length (claimed q) \<le> 1"
proof -
  show "length (claimed q) \<le> bulk_claim_size"
    by (auto simp: claimed_def bulk_claim_size_def split: list.splits
        intro!: order_trans [OF length_takeWhile_le])
  show "q \<noteq> [] \<Longrightarrow> claimed q \<noteq> []" "\<forall>x \<in> set q. \<not> bulk x \<Longrightarrow> length (claimed q) \<le> 1"
    by (auto simp: claimed_def bulk_claim_size_def split: list.splits)
qed

lemma claim_empty:
  assumes "pool_inv a live p" and "queued p = []"
  shows "claim p = Some ([], p)"
  using assms pool_observers(1) [OF assms(1)] by (simp add: claim_def Let_def)

lemma futures_ok_move: "futures_ok (xs @ ys @ zs) ps i \<longleftrightarrow> futures_ok ((xs @ ys) @ zs) ps i"
  by simp

lemma claim_items:
  assumes "pool_inv a live p" and "queued p \<noteq> []" and "a + bulk_claim_size < 2 ^ 52"
  obtains p' where "claim p = Some (claimed (queued p), p')"
    and "pool_inv (a + length (claimed (queued p))) (live @ claimed (queued p)) p'"
    and "queued p' = drop (length (claimed (queued p))) (queued p)"
    and "is_stopping p' = is_stopping p" and "promises p' = promises p"
proof -
  obtain n where n: "queue_state p = packed n a (is_stopping p)" "ring_ok (slots p, n)"
    "n \<le> queue_capacity p" "length (queued p) = n" "queued p = ring_items (slots p, n)"
    using pool_state [OF assms(1)] by metis
  let ?k = "length (claimed (queued p))"
  have pos: "0 < n" using n(4) assms(2) by auto
  have front: "ring_front (slots p) = Some (hd (queued p))"
    using ring_front_items [OF n(2) pos] n(5) by simp
  have pending: "pending_from_state (queue_state p) = n"
    using pool_observers(1) [OF assms(1)] n(4) by simp
  have k: "?k \<le> n" using n(4) claimed_prefix [of "queued p"]
    by (metis append_eq_conv_conj length_take min.bounded_iff order_refl)
  obtain r where r: "claim p = Some (claimed (queued p), p\<lparr>slots := r,
      queue_state := queue_state p + of_nat ?k * (active_unit - 1)\<rparr>)"
    "ring_ok (r, n - ?k)" "ring_items (r, n - ?k) = drop ?k (queued p)"
    "length (tasks r) = length (tasks (slots p))"
  proof (cases "bulk (hd (queued p))")
    case True
    then have "claimed (queued p) = takeWhile bulk (take (min bulk_claim_size n) (queued p))"
      using assms(2) n(4) by (auto simp: claimed_def min_def split: list.splits)
    moreover obtain r' where "claim_bulk (min bulk_claim_size n) (slots p) =
        Some (takeWhile bulk (take (min bulk_claim_size n) (queued p)), r')"
      "(let k = length (takeWhile bulk (take (min bulk_claim_size n) (queued p))) in
         ring_ok (r', n - k) \<and> ring_items (r', n - k) = drop k (queued p) \<and>
         length (tasks r') = length (tasks (slots p)))"
      using claim_bulk_items [OF n(2), of "min bulk_claim_size n"] n(5) by auto
    ultimately show thesis
      using that front pending pos True by (simp add: claim_def Let_def)
  next
    case False
    then have "claimed (queued p) = [hd (queued p)]"
      using assms(2) by (auto simp: claimed_def split: list.splits)
    then show thesis
      using that [of "ring_drop (slots p)"] front pending pos False n(5)
        ring_ok_drop [OF n(2) pos] ring_items_drop [OF n(2) pos]
      by (simp add: claim_def Let_def ring_drop_def drop_Suc)
  qed
  let ?p = "p\<lparr>slots := r, queue_state := queue_state p + of_nat ?k * (active_unit - 1)\<rparr>"
  have "queue_state ?p = packed (n - ?k) (a + ?k) (is_stopping p)"
    using n(1) k packed_claim [of "n - ?k" ?k a "is_stopping p"] by simp
  moreover have "a + ?k < 2 ^ 52" using assms(3) claimed_bounds(1) [of "queued p"] by linarith
  moreover have "futures_ok ((live @ claimed (queued p)) @ drop ?k (queued p)) (promises p) (next_promise p)"
    using assms(1) claimed_prefix [of "queued p"] by (simp add: pool_inv_def)
  ultimately have "pool_inv (a + ?k) (live @ claimed (queued p)) ?p \<and>
      queued ?p = ring_items (slots ?p, n - ?k) \<and> is_stopping ?p = is_stopping p"
    using r by (intro pool_invI [OF assms(1)]) simp_all
  with r show thesis by (intro that [of ?p]) simp_all
qed

section \<open>Executing and finishing\<close>

text \<open>Executing an item completes its future or counts its failure.\<close>

definition account_effect :: "'c TaskItem \<Rightarrow> outcome \<Rightarrow> 'c Pool \<Rightarrow> 'c Pool" where
  "account_effect item out p =
     (case completion item of
        None \<Rightarrow> p\<lparr>failed_dispatches := failed_dispatches p + (if failing out then 1 else 0)\<rparr>
      | Some i \<Rightarrow> p\<lparr>promises := (promises p)(i \<mapsto> settled out)\<rparr>)"

lemma account_effect_frame [simp]:
  "slots (account_effect item out p) = slots p"
  "queue_state (account_effect item out p) = queue_state p"
  "queue_capacity (account_effect item out p) = queue_capacity p"
  "worker_count (account_effect item out p) = worker_count p"
  "next_promise (account_effect item out p) = next_promise p"
  "queued (account_effect item out p) = queued p"
  "is_stopping (account_effect item out p) = is_stopping p"
  "stop_requested (account_effect item out p) = stop_requested p"
  "workers (account_effect item out p) = workers p"
  by (simp_all add: account_effect_def queued_def is_stopping_def split: option.splits)

lemma account_item:
  assumes "pool_inv a (before @ item # after) p"
  shows "account item out p = Some (account_effect item out p)"
    and "pool_inv a (before @ after) (account_effect item out p)"
proof -
  have futures: "futures_ok (before @ item # after @ queued p) (promises p) (next_promise p)"
    using assms by (simp add: pool_inv_def)
  then show "account item out p = Some (account_effect item out p)"
    by (auto simp: account_def account_effect_def set_promise_def futures_ok_def split: option.splits)
  have "futures_ok ((before @ after) @ queued p) (promises (account_effect item out p)) (next_promise p)"
  proof (cases "completion item")
    case None
    with futures show ?thesis by (simp add: futures_ok_def account_effect_def)
  next
    case (Some i)
    with futures have "i < next_promise p"
      unfolding futures_ok_def by (metis linorder_not_le option.distinct(1) promise_ids_simps(2,3)
          option.simps(5) list.set_intros(1) Un_iff set_append)
    with futures Some show ?thesis by (auto simp: futures_ok_def account_effect_def)
  qed
  with assms show "pool_inv a (before @ after) (account_effect item out p)"
    by (simp add: pool_inv_def)
qed

lemma finish_tasks_effect:
  assumes "pool_inv (a + k) live p"
  shows "pool_inv a live (snd (finish_tasks k p))" and "queued (snd (finish_tasks k p)) = queued p"
    and "is_stopping (snd (finish_tasks k p)) = is_stopping p"
    and "promises (snd (finish_tasks k p)) = promises p"
    and "fst (finish_tasks k p) \<longleftrightarrow> (a + k) mod 2048 = k \<and> queued p = []"
proof -
  obtain n where n: "queue_state p = packed n (a + k) (is_stopping p)" "ring_ok (slots p, n)"
    "length (queued p) = n" "queued p = ring_items (slots p, n)"
    using pool_state [OF assms] by metis
  let ?p = "snd (finish_tasks k p)"
  have p: "?p = p\<lparr>queue_state := packed n a (is_stopping p)\<rparr>"
    by (simp add: finish_tasks_def Let_def n(1) packed_finish)
  have "pool_inv a live ?p \<and> queued ?p = ring_items (slots ?p, n) \<and> is_stopping ?p = is_stopping p"
    using assms n by (intro pool_invI [OF assms]) (simp_all add: p pool_inv_def)
  with n(4) p show "pool_inv a live ?p" and "queued ?p = queued p" and "is_stopping ?p = is_stopping p"
    and "promises ?p = promises p"
    by simp_all
  show "fst (finish_tasks k p) \<longleftrightarrow> (a + k) mod 2048 = k \<and> queued p = []"
    by (simp add: finish_tasks_def Let_def pool_observers [OF assms])
qed

section \<open>Cancellation and shutdown\<close>

text \<open>Cancelling the queue completes every queued future with the cancellation error and counts
  the fire-and-forget tasks.\<close>

definition cancelled_promises :: "'c TaskItem list \<Rightarrow> promise_table \<Rightarrow> promise_table" where
  "cancelled_promises items ps =
     (\<lambda>i. if i \<in> set (promise_ids items) then Some (Ready (Inl task_cancelled_error)) else ps i)"

definition untracked :: "'c TaskItem list \<Rightarrow> nat" where
  "untracked items = length (filter (\<lambda>x. completion x = None) items)"

definition cancel_effect :: "'c TaskItem list \<Rightarrow> 'c Pool \<Rightarrow> 'c Pool" where
  "cancel_effect items p = p\<lparr>promises := cancelled_promises items (promises p),
     cancelled_dispatches := cancelled_dispatches p + of_nat (untracked items)\<rparr>"

lemma cancelled_promises_Cons:
  "completion x = Some i \<Longrightarrow>
     cancelled_promises xs (ps(i \<mapsto> Ready (Inl task_cancelled_error))) = cancelled_promises (x # xs) ps"
  "completion x = None \<Longrightarrow> cancelled_promises xs ps = cancelled_promises (x # xs) ps"
  by (auto simp: cancelled_promises_def fun_eq_iff)

lemma cancel_items_effect:
  assumes "ring_ok (slots p, n)" and "distinct (promise_ids (ring_items (slots p, n)))"
    and "\<forall>i \<in> set (promise_ids (ring_items (slots p, n))). promises p i = Some Not_ready"
  shows "\<exists>r. cancel_items n p = Some ((cancel_effect (ring_items (slots p, n)) p)\<lparr>slots := r\<rparr>) \<and>
    ring_ok (r, 0) \<and> length (tasks r) = length (tasks (slots p))"
  using assms
proof (induction n arbitrary: p)
  case 0
  have "ring_items (slots p, 0) = []" by (simp add: ring_items_def)
  then have "p = (cancel_effect (ring_items (slots p, 0)) p)\<lparr>slots := slots p\<rparr>"
    by (simp add: cancel_effect_def cancelled_promises_def untracked_def)
  with 0(1) show ?case by (metis cancel_items.simps(1))
next
  case (Suc n)
  obtain x xs where items: "ring_items (slots p, Suc n) = x # xs"
    by (metis length_ring_items length_Suc_conv snd_conv)
  have front: "ring_front (slots p) = Some x" using ring_front_items [OF Suc.prems(1)] items by simp
  have drop: "ring_ok (ring_drop (slots p), n)" "ring_items (ring_drop (slots p), n) = xs"
    using ring_ok_drop [OF Suc.prems(1)] ring_items_drop [OF Suc.prems(1)] items by simp_all
  have len: "length (tasks (ring_drop (slots p))) = length (tasks (slots p))"
    by (simp add: ring_drop_def)
  show ?case
  proof (cases "completion x")
    case None
    let ?p = "p\<lparr>cancelled_dispatches := cancelled_dispatches p + 1, slots := ring_drop (slots p)\<rparr>"
    have "\<exists>r. cancel_items n ?p = Some ((cancel_effect (ring_items (slots ?p, n)) ?p)\<lparr>slots := r\<rparr>) \<and>
        ring_ok (r, 0) \<and> length (tasks r) = length (tasks (slots ?p))"
      using drop Suc.prems(2,3) None items by (intro Suc.IH) simp_all
    then show ?thesis
      using front drop items None len cancelled_promises_Cons(2) [OF None, of xs "promises p"]
      by (auto simp: cancel_effect_def untracked_def add.assoc)
  next
    case (Some i)
    let ?p = "p\<lparr>promises := (promises p)(i \<mapsto> Ready (Inl task_cancelled_error)),
        slots := ring_drop (slots p)\<rparr>"
    have "\<exists>r. cancel_items n ?p = Some ((cancel_effect (ring_items (slots ?p, n)) ?p)\<lparr>slots := r\<rparr>) \<and>
        ring_ok (r, 0) \<and> length (tasks r) = length (tasks (slots ?p))"
      using drop Suc.prems(2,3) Some items by (intro Suc.IH) auto
    moreover have "set_promise i (Ready (Inl task_cancelled_error)) (promises p) =
        Some ((promises p)(i \<mapsto> Ready (Inl task_cancelled_error)))"
      using Suc.prems(3) Some items by (simp add: set_promise_def)
    ultimately show ?thesis
      using front drop items Some len cancelled_promises_Cons(1) [OF Some, of xs "promises p"]
      by (auto simp: cancel_effect_def untracked_def)
  qed
qed

lemma futures_ok_cancelled:
  assumes "futures_ok (live @ items) ps next"
  shows "futures_ok live (cancelled_promises items ps) next"
proof -
  have "i < next" if "i \<in> set (promise_ids items)" for i
    using assms that unfolding futures_ok_def
    by (metis Un_iff linorder_not_le option.distinct(1) promise_ids_simps(3) set_append)
  with assms show ?thesis by (auto simp: futures_ok_def cancelled_promises_def)
qed

lemma cancel_pending_effect:
  assumes "pool_inv a live p"
  obtains p' where "cancel_pending p = Some (length (queued p), p')" and "pool_inv a live p'"
    and "queued p' = []" and "is_stopping p' = is_stopping p"
    and "promises p' = cancelled_promises (queued p) (promises p)"
    and "cancelled_dispatches p' = cancelled_dispatches p + of_nat (untracked (queued p))"
    and "workers p' = workers p" and "stop_requested p' = stop_requested p"
proof -
  obtain n where n: "queue_state p = packed n a (is_stopping p)" "ring_ok (slots p, n)"
    "length (queued p) = n" "queued p = ring_items (slots p, n)"
    using pool_state [OF assms] by metis
  have futures: "futures_ok (live @ queued p) (promises p) (next_promise p)"
    using assms by (simp add: pool_inv_def)
  then obtain r where r: "cancel_items n p = Some ((cancel_effect (queued p) p)\<lparr>slots := r\<rparr>)"
    "ring_ok (r, 0)" "length (tasks r) = length (tasks (slots p))"
    using cancel_items_effect [OF n(2)] n(4) by (auto simp: futures_ok_def)
  have tail: "r\<lparr>queue_tail := queue_head r\<rparr> = r"
    using ring_okD(1,3) [OF r(2)] by (simp add: slot_def)
  let ?p = "(cancel_effect (queued p) p)\<lparr>slots := r, queue_state := packed 0 a (is_stopping p)\<rparr>"
  have "cancel_pending p = Some (n, ?p)"
    using r(1) n(1,3) tail packed_cancel [of n a "is_stopping p"] pool_observers(1) [OF assms]
    by (auto simp: cancel_pending_def Let_def cancel_effect_def)
  moreover have "pool_inv a live ?p \<and> queued ?p = ring_items (slots ?p, 0) \<and> is_stopping ?p = is_stopping p"
    using assms r futures_ok_cancelled [OF futures]
    by (intro pool_invI [OF assms]) (simp_all add: cancel_effect_def pool_inv_def ring_items_def)
  ultimately show thesis
    using n(3) by (intro that [of ?p]) (simp_all add: cancel_effect_def ring_items_def)
qed

lemma signal_stop:
  assumes "pool_inv a live p"
  shows "pool_inv a live (p\<lparr>queue_state := queue_state p OR stopping_mask\<rparr>)"
    and "queued (p\<lparr>queue_state := queue_state p OR stopping_mask\<rparr>) = queued p"
    and "is_stopping (p\<lparr>queue_state := queue_state p OR stopping_mask\<rparr>)"
proof -
  obtain n where n: "queue_state p = packed n a (is_stopping p)" "ring_ok (slots p, n)" "in_range n a"
    "queued p = ring_items (slots p, n)"
    using pool_state [OF assms] by metis
  let ?p = "p\<lparr>queue_state := queue_state p OR stopping_mask\<rparr>"
  have "pool_inv a live ?p \<and> queued ?p = ring_items (slots ?p, n) \<and> is_stopping ?p = True"
    using assms n by (intro pool_invI [OF assms]) (simp_all add: pool_inv_def packed_stop)
  with n show "pool_inv a live ?p" and "queued ?p = queued p" and "is_stopping ?p" by simp_all
qed

lemma request_stop_frame [simp]:
  "pool_inv a live (request_stop p) = pool_inv a live p" "queued (request_stop p) = queued p"
  "is_stopping (request_stop p) = is_stopping p" "promises (request_stop p) = promises p"
  "cancelled_dispatches (request_stop p) = cancelled_dispatches p"
  by (simp_all add: request_stop_def pool_inv_def queued_def is_stopping_def)

lemma signal_shutdown_effect:
  assumes "pool_inv a live p"
  obtains p' where "signal_shutdown mode p = Some p'" and "pool_inv a live p'" and "is_stopping p'"
    and "queued p' = (case mode of DRAIN \<Rightarrow> queued p | CANCEL_PENDING \<Rightarrow> [])"
    and "promises p' = (case mode of DRAIN \<Rightarrow> promises p
           | CANCEL_PENDING \<Rightarrow> cancelled_promises (queued p) (promises p))"
    and "\<And>w. stop_requested p' w \<longleftrightarrow>
           stop_requested p w \<or> mode = CANCEL_PENDING \<and> w \<in> set (workers p)"
proof -
  let ?p = "p\<lparr>queue_state := queue_state p OR stopping_mask\<rparr>"
  note stop = signal_stop [OF assms]
  show thesis
  proof (cases mode)
    case DRAIN
    with stop show thesis by (intro that [of ?p]) (simp_all add: signal_shutdown_def)
  next
    case CANCEL_PENDING
    obtain p1 where p1: "cancel_pending ?p = Some (length (queued ?p), p1)" "pool_inv a live p1"
      "queued p1 = []" "is_stopping p1 = is_stopping ?p"
      "promises p1 = cancelled_promises (queued ?p) (promises ?p)"
      "workers p1 = workers ?p" "stop_requested p1 = stop_requested ?p"
      using cancel_pending_effect [OF stop(1)] by metis
    with CANCEL_PENDING stop show thesis
      by (intro that [of "request_stop p1"])
        (auto simp: signal_shutdown_def request_stop_def pool_inv_def queued_def is_stopping_def)
  qed
qed

end
