(* ===== verification/Pool_Protocol.thy ===== *)
theory Pool_Protocol
  imports Pool_Invariant
begin

text \<open>
  The worker pool as a whole: any number of submitting threads, the worker threads of \<open>run\<close>, and
  owners that clear the queue and shut the pool down, as a step relation. A step is one critical
  section or one atomic update of \<open>queue_state_\<close>; blocking is a step that is not enabled. The
  outcome of a callback is arbitrary. Ghost fields record the tasks in the order they were
  accepted, what became of those taken from the queue, and what was executed.
\<close>

section \<open>Steps\<close>

text \<open>A worker is in its loop, runs a claimed batch (tasks left, size of the batch), or has
  returned from \<open>run\<close>.\<close>

datatype 'c worker_phase = Looping | Running "'c TaskItem list" nat | Exited

datatype fate = Claimed nat | Cancelled

record 'c system =
  pool :: "'c Pool"
  phase :: "nat \<Rightarrow> 'c worker_phase"
  accepted :: "'c TaskItem list"
  taken :: "('c TaskItem \<times> fate) list"
  executed :: "('c TaskItem \<times> outcome) list"

definition system_start :: "'c Pool \<Rightarrow> 'c system" where
  "system_start p = \<lparr>pool = p, phase = (\<lambda>_. Looping), accepted = [], taken = [], executed = []\<rparr>"

definition accept :: "'c Pool \<Rightarrow> 'c TaskItem list \<Rightarrow> 'c system \<Rightarrow> 'c system" where
  "accept p items s = s\<lparr>pool := p, accepted := accepted s @ items\<rparr>"

definition cancel_all :: "'c Pool \<Rightarrow> 'c system \<Rightarrow> 'c system" where
  "cancel_all p s = s\<lparr>pool := p, taken := taken s @ map (\<lambda>x. (x, Cancelled)) (queued (pool s))\<rparr>"

definition fire_and_forget :: "'c callback \<Rightarrow> 'c TaskItem" where
  "fire_and_forget c = \<lparr>callback = c, completion = None, bulk = False\<rparr>"

inductive worker_step :: "'c system \<Rightarrow> 'c system \<Rightarrow> bool" where
  claims: "w < worker_count (pool s) \<Longrightarrow> phase s w = Looping \<Longrightarrow>
     claim (pool s) = Some (items, p) \<Longrightarrow> items \<noteq> [] \<Longrightarrow>
     worker_step s (s\<lparr>pool := p, phase := (phase s)(w := Running items (length items)),
       taken := taken s @ map (\<lambda>x. (x, Claimed w)) items\<rparr>)"
| executes: "w < worker_count (pool s) \<Longrightarrow> phase s w = Running (x # xs) k \<Longrightarrow>
     account x out (pool s) = Some p \<Longrightarrow>
     worker_step s (s\<lparr>pool := p, phase := (phase s)(w := Running xs k),
       executed := executed s @ [(x, out)]\<rparr>)"
| finishes: "w < worker_count (pool s) \<Longrightarrow> phase s w = Running [] k \<Longrightarrow>
     finish_tasks k (pool s) = (notify, p) \<Longrightarrow>
     worker_step s (s\<lparr>pool := p, phase := (phase s)(w := Looping)\<rparr>)"
| exits: "w < worker_count (pool s) \<Longrightarrow> phase s w = Looping \<Longrightarrow> pending_tasks (pool s) = 0 \<Longrightarrow>
     is_stopping (pool s) \<Longrightarrow>
     worker_step s (s\<lparr>phase := (phase s)(w := Exited)\<rparr>)"

inductive client_step :: "'c system \<Rightarrow> 'c system \<Rightarrow> bool" where
  submits: "submit_tracked c (pool s) = Accepted (i, p) \<Longrightarrow>
     client_step s (accept p [tracked c (pool s)] s)"
| dispatches: "enqueue (fire_and_forget c) (pool s) = Accepted p \<Longrightarrow>
     client_step s (accept p [fire_and_forget c] s)"
| bulk_round: "dispatch_bulk_round ts (pool s) = Bulk_moved k p \<Longrightarrow>
     client_step s (accept p (map bulk_item (take k ts)) s)"
| clears: "clear_queue (pool s) = Some (n, p) \<Longrightarrow> client_step s (cancel_all p s)"
| drains: "signal_shutdown DRAIN (pool s) = Some p \<Longrightarrow> client_step s (s\<lparr>pool := p\<rparr>)"
| cancels: "signal_shutdown CANCEL_PENDING (pool s) = Some p \<Longrightarrow> client_step s (cancel_all p s)"
| takes_threads: "is_stopping (pool s) \<Longrightarrow> client_step s (s\<lparr>pool := (pool s)\<lparr>workers := []\<rparr>\<rparr>)"

inductive pool_step :: "'c system \<Rightarrow> 'c system \<Rightarrow> bool" where
  works: "worker_step s s' \<Longrightarrow> pool_step s s'"
| calls: "client_step s s' \<Longrightarrow> pool_step s s'"

inductive pool_reach :: "'c Pool \<Rightarrow> 'c system \<Rightarrow> bool" for p0 :: "'c Pool" where
  start: "pool_reach p0 (system_start p0)"
| step: "pool_reach p0 s \<Longrightarrow> pool_step s s' \<Longrightarrow> pool_reach p0 s'"

section \<open>The invariant of a running pool\<close>

fun remaining :: "'c worker_phase \<Rightarrow> 'c TaskItem list" where
  "remaining (Running xs k) = xs"
| "remaining ph = []"

fun batch :: "'c worker_phase \<Rightarrow> nat" where
  "batch (Running xs k) = k"
| "batch ph = 0"

abbreviation live :: "'c system \<Rightarrow> 'c TaskItem list" where
  "live s \<equiv> gather remaining (phase s) (worker_count (pool s))"

text \<open>The number of tasks that really are active: claimed, and their batch not finished.\<close>

abbreviation active :: "'c system \<Rightarrow> nat" where
  "active s \<equiv> summed batch (phase s) (worker_count (pool s))"

definition claimed_items :: "('c TaskItem \<times> fate) list \<Rightarrow> 'c TaskItem list" where
  "claimed_items ts = map fst (filter (\<lambda>t. snd t \<noteq> Cancelled) ts)"

definition system_inv :: "'c system \<Rightarrow> bool" where
  "system_inv s \<longleftrightarrow> pool_inv (active s) (live s) (pool s) \<and>
     (\<forall>w. length (remaining (phase s w)) \<le> batch (phase s w) \<and> batch (phase s w) \<le> bulk_claim_size) \<and>
     accepted s = map fst (taken s) @ queued (pool s) \<and>
     mset (claimed_items (taken s)) = mset (map fst (executed s)) + mset (live s) \<and>
     (\<forall>w. phase s w = Exited \<longrightarrow> is_stopping (pool s) \<and> queued (pool s) = [])"

lemma active_bound:
  assumes "system_inv s"
  shows "active s \<le> bulk_claim_size * worker_count (pool s)"
  using assms by (intro summed_le) (simp add: system_inv_def)

lemma active_room: "system_inv s \<Longrightarrow> active s + bulk_claim_size < 2 ^ 52"
  using active_bound [of s]
  by (simp add: system_inv_def pool_inv_def bulk_claim_size_def max_worker_count_def)

lemma futures_ok_perm:
  assumes "mset xs = mset ys"
  shows "futures_ok xs ps i \<longleftrightarrow> futures_ok ys ps i"
proof -
  have ids: "mset (promise_ids zs) = image_mset (\<lambda>x. the (completion x))
      (filter_mset (\<lambda>x. completion x \<noteq> None) (mset zs))" for zs :: "'a TaskItem list"
    by (induction zs) (auto split: option.splits)
  then have "mset (promise_ids xs) = mset (promise_ids ys)" using assms by simp
  then show ?thesis
    unfolding futures_ok_def by (metis mset_eq_imp_distinct_iff mset_eq_setD)
qed

lemma pool_inv_perm:
  assumes "mset xs = mset ys"
  shows "pool_inv a xs p \<longleftrightarrow> pool_inv a ys p"
  using futures_ok_perm [of "xs @ queued p" "ys @ queued p"] assms by (simp add: pool_inv_def)

lemma claimed_items_simps [simp]:
  "claimed_items [] = []"
  "claimed_items (ts @ us) = claimed_items ts @ claimed_items us"
  "claimed_items (map (\<lambda>x. (x, Cancelled)) xs) = []"
  "claimed_items (map (\<lambda>x. (x, Claimed w)) xs) = xs"
  by (simp_all add: claimed_items_def filter_map comp_def)

lemma system_start_inv:
  fixes p :: "'c Pool"
  assumes "Pool_new hw n cap = Inr p"
  shows "system_inv (system_start p)"
proof -
  have "live (system_start p) = []" and "active (system_start p) = 0"
    by (simp_all add: system_start_def gather_Nil summed_eq_0)
  with Pool_new_inv [OF assms] show ?thesis by (simp add: system_inv_def) (simp add: system_start_def)
qed

section \<open>Frames\<close>

lemma enqueue_frame:
  "enqueue x p = Accepted p' \<Longrightarrow>
     worker_count p' = worker_count p \<and> queue_capacity p' = queue_capacity p"
  by (auto simp: enqueue_def split: if_splits)

lemma submit_tracked_frame:
  "submit_tracked c p = Accepted (i, p') \<Longrightarrow>
     worker_count p' = worker_count p \<and> queue_capacity p' = queue_capacity p"
  by (auto simp: submit_tracked_def with_promise_def dest: enqueue_frame split: submission.splits)

lemma bulk_frame:
  "dispatch_bulk_round ts p = Bulk_moved k p' \<Longrightarrow>
     worker_count p' = worker_count p \<and> queue_capacity p' = queue_capacity p"
  by (auto simp: dispatch_bulk_round_def Let_def split: if_splits)

lemma claim_frame:
  "claim p = Some (items, p') \<Longrightarrow>
     worker_count p' = worker_count p \<and> queue_capacity p' = queue_capacity p"
  by (auto simp: claim_def Let_def split: if_splits option.splits)

lemma cancel_items_frame:
  "cancel_items n p = Some p' \<Longrightarrow>
     worker_count p' = worker_count p \<and> queue_capacity p' = queue_capacity p"
proof (induction n arbitrary: p)
  case 0
  then show ?case by simp
next
  case (Suc n)
  then show ?case by (auto split: option.splits dest!: Suc.IH)
qed

lemma cancel_pending_frame:
  "cancel_pending p = Some (n, p') \<Longrightarrow>
     worker_count p' = worker_count p \<and> queue_capacity p' = queue_capacity p"
  by (auto simp: cancel_pending_def Let_def dest: cancel_items_frame)

lemma signal_shutdown_frame:
  "signal_shutdown mode p = Some p' \<Longrightarrow>
     worker_count p' = worker_count p \<and> queue_capacity p' = queue_capacity p"
  by (auto simp: signal_shutdown_def Let_def request_stop_def dest: cancel_pending_frame split: if_splits)

lemma finish_frame: "worker_count (snd (finish_tasks k p)) = worker_count p \<and>
    queue_capacity (snd (finish_tasks k p)) = queue_capacity p"
  by (simp add: finish_tasks_def Let_def)

lemmas worker_count_frames = enqueue_frame submit_tracked_frame bulk_frame claim_frame
  cancel_pending_frame signal_shutdown_frame


lemma finish_frame_pair:
  "finish_tasks k p = (b, p') \<Longrightarrow>
     worker_count p' = worker_count p \<and> queue_capacity p' = queue_capacity p"
  using finish_frame [of k p] by simp

section \<open>Every step keeps the invariant\<close>

lemma system_invD:
  assumes "system_inv s"
  shows "pool_inv (active s) (live s) (pool s)"
    and "length (remaining (phase s w)) \<le> batch (phase s w)" and "batch (phase s w) \<le> bulk_claim_size"
    and "accepted s = map fst (taken s) @ queued (pool s)"
    and "mset (claimed_items (taken s)) = mset (map fst (executed s)) + mset (live s)"
    and "phase s w = Exited \<Longrightarrow> is_stopping (pool s) \<and> queued (pool s) = []"
  using assms by (auto simp: system_inv_def)

lemma accept_inv:
  assumes "system_inv s" and "pool_inv (active s) (live s) p" and "worker_count p = worker_count (pool s)"
    and "queued p = queued (pool s) @ items" and "\<not> is_stopping (pool s)"
  shows "system_inv (accept p items s)"
  using assms by (auto simp: system_inv_def accept_def)

lemma stop_inv:
  assumes "system_inv s" and "pool_inv (active s) (live s) p" and "worker_count p = worker_count (pool s)"
    and "queued p = queued (pool s)" and "is_stopping p"
  shows "system_inv (s\<lparr>pool := p\<rparr>)"
  using assms by (auto simp: system_inv_def)

lemma cancel_all_inv:
  assumes "system_inv s" and "pool_inv (active s) (live s) p" and "worker_count p = worker_count (pool s)"
    and "queued p = []" and "is_stopping (pool s) \<Longrightarrow> is_stopping p"
  shows "system_inv (cancel_all p s)"
  using assms by (auto simp: system_inv_def cancel_all_def comp_def)

lemma claim_result:
  assumes "system_inv s" and "claim (pool s) = Some (items, p)" and "items \<noteq> []"
  shows "queued (pool s) \<noteq> []" and "items = claimed (queued (pool s))"
    and "pool_inv (active s + length items) (live s @ items) p"
    and "queued p = drop (length items) (queued (pool s))"
    and "is_stopping p = is_stopping (pool s)" and "promises p = promises (pool s)"
proof -
  note inv = system_invD [OF assms(1)]
  show nonempty: "queued (pool s) \<noteq> []" using claim_empty [OF inv(1)] assms(2,3) by auto
  from claim_items [OF inv(1) nonempty active_room [OF assms(1)]]
  show "items = claimed (queued (pool s))"
    and "pool_inv (active s + length items) (live s @ items) p"
    and "queued p = drop (length items) (queued (pool s))"
    and "is_stopping p = is_stopping (pool s)" and "promises p = promises (pool s)"
    by (metis assms(2) option.inject prod.inject)+
qed

lemma finish_result:
  assumes "system_inv s" and "w < worker_count (pool s)" and "phase s w = Running [] k"
    and "finish_tasks k (pool s) = (notify, p)"
  shows "pool_inv (summed batch ((phase s)(w := Looping)) (worker_count p)) (live s) p"
    and "queued p = queued (pool s)" and "is_stopping p = is_stopping (pool s)"
    and "promises p = promises (pool s)"
    and "notify \<longleftrightarrow> active s mod 2048 = k \<and> queued (pool s) = []"
proof -
  note inv = system_invD [OF assms(1)]
  have wc: "worker_count p = worker_count (pool s)" using finish_frame_pair [OF assms(4)] by simp
  let ?ph = "(phase s)(w := Looping)"
  have act: "summed batch ?ph (worker_count p) + k = active s"
    using summed_update [OF assms(2), of batch "phase s" "Looping"] assms(3) by (simp add: wc)
  have "pool_inv (summed batch ?ph (worker_count p) + k) (live s) (pool s)"
    using inv(1) by (simp add: act)
  from finish_tasks_effect [OF this]
  show "pool_inv (summed batch ((phase s)(w := Looping)) (worker_count p)) (live s) p"
    and "queued p = queued (pool s)" and "is_stopping p = is_stopping (pool s)"
    and "promises p = promises (pool s)"
    and "notify \<longleftrightarrow> active s mod 2048 = k \<and> queued (pool s) = []"
    by (simp_all add: assms(4) act)
qed

lemma claims_inv:
  assumes "system_inv s" and "w < worker_count (pool s)" and "phase s w = Looping"
    and "claim (pool s) = Some (items, p)" and "items \<noteq> []"
  shows "system_inv (s\<lparr>pool := p, phase := (phase s)(w := Running items (length items)),
    taken := taken s @ map (\<lambda>x. (x, Claimed w)) items\<rparr>)"
proof -
  note inv = system_invD [OF assms(1)]
  note p = claim_result(2-5) [OF assms(1,4,5)] and nonempty = claim_result(1) [OF assms(1,4,5)]
  have wc: "worker_count p = worker_count (pool s)" using claim_frame [OF assms(4)] by simp
  let ?ph = "(phase s)(w := Running items (length items))"
  obtain before after where g: "\<And>x. gather remaining ((phase s)(w := x)) (worker_count (pool s)) =
      before @ remaining x @ after" "live s = before @ remaining (phase s w) @ after"
    using gather_split [OF assms(2)] by metis
  have act: "summed batch ?ph (worker_count (pool s)) = active s + length items"
    using summed_update [OF assms(2), of batch "phase s" "Running items (length items)"] assms(3) by simp
  have perm: "mset (live s @ items) = mset (gather remaining ?ph (worker_count (pool s)))"
    unfolding g(1) g(2) by (simp add: assms(3))
  have "pool_inv (summed batch ?ph (worker_count p)) (gather remaining ?ph (worker_count p)) p"
    using p(2) pool_inv_perm [OF perm] by (simp add: act wc)
  moreover have "accepted s = map fst (taken s) @ items @ queued p"
    using inv(4) claimed_prefix [of "queued (pool s)"] by (simp add: p(1,3))
  moreover have "length items \<le> bulk_claim_size" using claimed_bounds(1) by (simp add: p(1))
  moreover have "mset (gather remaining ?ph (worker_count p)) = mset (live s) + mset items"
    using perm by (simp add: wc)
  ultimately show ?thesis
    using inv(2,3,5,6) p(4) nonempty by (auto simp: system_inv_def comp_def)
qed

lemma executes_inv:
  assumes "system_inv s" and "w < worker_count (pool s)" and "phase s w = Running (x # xs) k"
    and "account x out (pool s) = Some p"
  shows "system_inv (s\<lparr>pool := p, phase := (phase s)(w := Running xs k),
    executed := executed s @ [(x, out)]\<rparr>)"
proof -
  note inv = system_invD [OF assms(1)]
  let ?ph = "(phase s)(w := Running xs k)"
  obtain before after where g: "\<And>x. gather remaining ((phase s)(w := x)) (worker_count (pool s)) =
      before @ remaining x @ after" "live s = before @ remaining (phase s w) @ after"
    using gather_split [OF assms(2)] by metis
  have live: "live s = before @ x # xs @ after" using g(2) assms(3) by simp
  have p: "p = account_effect x out (pool s)" and "pool_inv (active s) (before @ xs @ after) p"
    using account_item [of "active s" before x "xs @ after" "pool s" out] inv(1) assms(4)
    by (simp_all add: live)
  moreover have "summed batch ?ph (worker_count (pool s)) = active s"
    using summed_update [OF assms(2), of batch "phase s" "Running xs k"] assms(3) by simp
  ultimately have "pool_inv (summed batch ?ph (worker_count p)) (gather remaining ?ph (worker_count p)) p"
    by (simp add: g(1))
  moreover have "mset (live s) = add_mset x (mset (gather remaining ?ph (worker_count p)))"
    by (simp add: live g(1) p)
  moreover have "length xs \<le> k" and "k \<le> bulk_claim_size" using inv(2,3) [of w] assms(3) by simp_all
  ultimately show ?thesis
    using inv(2-6) by (auto simp: system_inv_def p)
qed

lemma finishes_inv:
  assumes "system_inv s" and "w < worker_count (pool s)" and "phase s w = Running [] k"
    and "finish_tasks k (pool s) = (notify, p)"
  shows "system_inv (s\<lparr>pool := p, phase := (phase s)(w := Looping)\<rparr>)"
proof -
  note inv = system_invD [OF assms(1)]
  have wc: "worker_count p = worker_count (pool s)" using finish_frame_pair [OF assms(4)] by simp
  let ?ph = "(phase s)(w := Looping)"
  obtain before after where g: "\<And>x. gather remaining ((phase s)(w := x)) (worker_count (pool s)) =
      before @ remaining x @ after" "live s = before @ remaining (phase s w) @ after"
    using gather_split [OF assms(2)] by metis
  have live: "gather remaining ?ph (worker_count p) = live s"
    using assms(3) by (simp add: g wc)
  from finish_result(1-3) [OF assms]
show ?thesis using inv(2-6) by (auto simp: system_inv_def live)
qed

lemma exits_inv:
  assumes "system_inv s" and "w < worker_count (pool s)" and "phase s w = Looping"
    and "pending_tasks (pool s) = 0" and "is_stopping (pool s)"
  shows "system_inv (s\<lparr>phase := (phase s)(w := Exited)\<rparr>)"
proof -
  obtain before after where g: "\<And>x. gather remaining ((phase s)(w := x)) (worker_count (pool s)) =
      before @ remaining x @ after" "live s = before @ remaining (phase s w) @ after"
    using gather_split [OF assms(2)] by metis
  have "summed batch ((phase s)(w := Exited)) (worker_count (pool s)) = active s"
    using summed_update [OF assms(2), of batch "phase s" Exited] assms(3) by simp
  moreover have "gather remaining ((phase s)(w := Exited)) (worker_count (pool s)) = live s"
    using assms(3) by (simp add: g)
  moreover have "queued (pool s) = []"
    using pool_observers(1) [OF system_invD(1) [OF assms(1)]] assms(4) by (simp add: pending_tasks_def)
  ultimately show ?thesis using assms(1,5) by (simp add: system_inv_def)
qed

lemma worker_step_inv: "worker_step s s' \<Longrightarrow> system_inv s \<Longrightarrow> system_inv s'"
  by (induction rule: worker_step.induct) (rule claims_inv executes_inv finishes_inv exits_inv; assumption)+

lemma client_step_inv: "client_step s s' \<Longrightarrow> system_inv s \<Longrightarrow> system_inv s'"
proof (induction rule: client_step.induct)
  case (submits c s i p)
  have "\<not> is_stopping (pool s)"
    using submit_tracked_refused(1) [OF system_invD(1) [OF submits(2)], of c after_shutdown] submits(1)
    by auto
  then show ?case
    using submit_tracked_accepted [OF system_invD(1) submits(1)] submit_tracked_frame [OF submits(1)] submits
    by (intro accept_inv) simp_all
next
  case (dispatches c s p)
  have fresh: "fresh_item (live s) (fire_and_forget c) (pool s)"
    by (rule fresh_untracked) (simp add: fire_and_forget_def)
  have "\<not> is_stopping (pool s)"
    using enqueue_cases(1) [OF system_invD(1) [OF dispatches(2)] fresh] dispatches(1) by auto
  then show ?case
    using enqueue_cases(2) [OF system_invD(1) fresh dispatches(1)] enqueue_frame [OF dispatches(1)]
      dispatches
    by (intro accept_inv) simp_all
next
  case (bulk_round ts s k p)
  then show ?case
    using dispatch_bulk_round_cases(3) [OF system_invD(1) bulk_round(1)] bulk_frame [OF bulk_round(1)]
    by (intro accept_inv) simp_all
next
  case (clears s n p)
  obtain p' where "clear_queue (pool s) = Some (length (queued (pool s)), p')"
    "pool_inv (active s) (live s) p'" "queued p' = []" "is_stopping p' = is_stopping (pool s)"
    unfolding clear_queue_def using cancel_pending_effect [OF system_invD(1) [OF clears(2)]] by metis
  with clears show ?case
    using cancel_pending_frame [of "pool s" n p] by (intro cancel_all_inv) (simp_all add: clear_queue_def)
next
  case (drains s p)
  obtain p' where "signal_shutdown DRAIN (pool s) = Some p'"
    "pool_inv (active s) (live s) p'" "is_stopping p'" "queued p' = queued (pool s)"
    using signal_shutdown_effect [OF system_invD(1) [OF drains(2)], of DRAIN] by force
  with drains show ?case
    using signal_shutdown_frame [OF drains(1)] by (intro stop_inv) simp_all
next
  case (cancels s p)
  obtain p' where "signal_shutdown CANCEL_PENDING (pool s) = Some p'"
    "pool_inv (active s) (live s) p'" "is_stopping p'" "queued p' = []"
    using signal_shutdown_effect [OF system_invD(1) [OF cancels(2)], of CANCEL_PENDING] by force
  with cancels show ?case
    using signal_shutdown_frame [OF cancels(1)] by (intro cancel_all_inv) simp_all
next
  case (takes_threads s)
  then show ?case by (auto simp: system_inv_def pool_inv_def queued_def is_stopping_def)
qed

lemma pool_step_inv: "pool_step s s' \<Longrightarrow> system_inv s \<Longrightarrow> system_inv s'"
  by (auto elim!: pool_step.cases intro: worker_step_inv client_step_inv)

lemma pool_reach_inv:
  assumes "Pool_new hw n cap = Inr p0" and "pool_reach p0 s"
  shows "system_inv s"
  using assms(2) by induction (auto intro: system_start_inv [OF assms(1)] pool_step_inv)

end
