(* ===== verification/Pool_Correctness.thy ===== *)
theory Pool_Correctness
  imports Pool_Protocol
begin

text \<open>
  What holds of every reachable state of a worker pool: the queue stays a bounded first-in
  first-out queue, no task is lost or run twice, no operation runs into undefined behaviour or
  \<open>std::terminate\<close>, every future is completed with the outcome of its task, shutdown is final,
  and the workers empty the queue. The last section shows where the eleven bits of the active
  count are not enough.
\<close>

section \<open>What never changes\<close>

lemma worker_step_frame:
  "worker_step s s' \<Longrightarrow> worker_count (pool s') = worker_count (pool s) \<and>
     queue_capacity (pool s') = queue_capacity (pool s)"
  by (induction rule: worker_step.induct)
    (auto dest: claim_frame finish_frame_pair simp: account_def split: option.splits if_splits)

lemma client_step_frame:
  "client_step s s' \<Longrightarrow> worker_count (pool s') = worker_count (pool s) \<and>
     queue_capacity (pool s') = queue_capacity (pool s)"
  by (induction rule: client_step.induct)
    (auto simp: accept_def cancel_all_def clear_queue_def dest: worker_count_frames)

lemma pool_reach_limits:
  "pool_reach p0 s \<Longrightarrow>
     worker_count (pool s) = worker_count p0 \<and> queue_capacity (pool s) = queue_capacity p0"
  by (induction rule: pool_reach.induct)
    (auto simp: system_start_def elim!: pool_step.cases dest: worker_step_frame client_step_frame)

lemma worker_step_stopping:
  "worker_step s s' \<Longrightarrow> system_inv s \<Longrightarrow>
     is_stopping (pool s') = is_stopping (pool s) \<and> accepted s' = accepted s"
  by (induction rule: worker_step.induct)
    (auto simp: account_def is_stopping_def claim_result(5) [unfolded is_stopping_def]
      finish_result(3) [unfolded is_stopping_def] split: option.splits if_splits)

lemma client_step_stopping:
  assumes "client_step s s'" and "system_inv s" and "is_stopping (pool s)"
  shows "is_stopping (pool s') \<and> accepted s' = accepted s"
  using assms
proof (induction rule: client_step.induct)
  case (submits c s i p)
  then show ?case using submit_tracked_refused(1) [OF system_invD(1), of s c after_shutdown] by simp
next
  case (dispatches c s p)
  then show ?case by (simp add: enqueue_def is_stopping_def)
next
  case (bulk_round ts s k p)
  then show ?case using dispatch_bulk_round_cases(1) [OF system_invD(1), of s ts] by simp
next
  case (clears s n p)
  then show ?case
    using cancel_pending_effect [OF system_invD(1) [OF clears(2)]]
    by (simp add: cancel_all_def clear_queue_def) (metis option.inject prod.inject)
next
  case (drains s p)
  then show ?case
    using signal_shutdown_effect [OF system_invD(1) [OF drains(2)], of DRAIN]
    by simp (metis option.inject)
next
  case (cancels s p)
  then show ?case
    using signal_shutdown_effect [OF system_invD(1) [OF cancels(2)], of CANCEL_PENDING]
    by (simp add: cancel_all_def) (metis option.inject)
next
  case (takes_threads s)
  then show ?case by (simp add: is_stopping_def)
qed

section \<open>Futures and counters\<close>

text \<open>The book-keeping of a pool: futures and counters, and how each operation moves them.\<close>

definition books :: "'c Pool \<Rightarrow> promise_table \<times> nat \<times> u64 \<times> u64" where
  "books p = (promises p, next_promise p, failed_dispatches p, cancelled_dispatches p)"

lemma books_eqI:
  "promises p = ps \<Longrightarrow> next_promise p = n \<Longrightarrow> failed_dispatches p = f \<Longrightarrow>
     cancelled_dispatches p = c \<Longrightarrow> books p = (ps, n, f, c)"
  by (simp add: books_def)

lemma enqueue_books: "enqueue x p = Accepted p' \<Longrightarrow> books p' = books p"
  by (auto simp: enqueue_def books_def split: if_splits)

lemma submit_tracked_books:
  "submit_tracked c p = Accepted (i, p') \<Longrightarrow>
     books p' = ((promises p)(next_promise p \<mapsto> Not_ready), Suc (next_promise p),
       failed_dispatches p, cancelled_dispatches p)"
  by (auto simp: submit_tracked_def split: submission.splits dest!: enqueue_books)
    (simp add: with_promise_def books_def)

lemma bulk_books: "dispatch_bulk_round ts p = Bulk_moved k p' \<Longrightarrow> books p' = books p"
  by (auto simp: dispatch_bulk_round_def Let_def books_def split: if_splits)

lemma claim_books: "claim p = Some (items, p') \<Longrightarrow> books p' = books p"
  by (auto simp: claim_def Let_def books_def split: if_splits option.splits)

lemma finish_books: "finish_tasks k p = (b, p') \<Longrightarrow> books p' = books p"
  by (auto simp: finish_tasks_def Let_def books_def)

lemma cancel_items_kept:
  "cancel_items n p = Some p' \<Longrightarrow>
     next_promise p' = next_promise p \<and> failed_dispatches p' = failed_dispatches p"
proof (induction n arbitrary: p)
  case 0
  then show ?case by simp
next
  case (Suc n)
  then show ?case by (auto split: option.splits dest!: Suc.IH)
qed

lemma cancel_pending_books:
  assumes "pool_inv a xs p" and "cancel_pending p = Some (n, p')"
  shows "books p' = (cancelled_promises (queued p) (promises p), next_promise p, failed_dispatches p,
    cancelled_dispatches p + of_nat (untracked (queued p)))"
proof (rule books_eqI)
  show "next_promise p' = next_promise p" and "failed_dispatches p' = failed_dispatches p"
    using assms(2) by (auto simp: cancel_pending_def Let_def dest: cancel_items_kept)
  show "promises p' = cancelled_promises (queued p) (promises p)"
    and "cancelled_dispatches p' = cancelled_dispatches p + of_nat (untracked (queued p))"
    using cancel_pending_effect [OF assms(1)] assms(2) by (metis option.inject prod.inject)+
qed

lemma drain_books: "signal_shutdown DRAIN p = Some p' \<Longrightarrow> books p' = books p"
  by (auto simp: signal_shutdown_def books_def)

lemma cancel_shutdown_books:
  assumes "pool_inv a xs p" and "signal_shutdown CANCEL_PENDING p = Some p'"
  shows "books p' = (cancelled_promises (queued p) (promises p), next_promise p, failed_dispatches p,
    cancelled_dispatches p + of_nat (untracked (queued p)))"
proof -
  note stop = signal_stop [OF assms(1)]
  from assms(2) obtain n p2 where "cancel_pending (p\<lparr>queue_state := queue_state p OR stopping_mask\<rparr>) = Some (n, p2)"
    and p': "p' = request_stop p2"
    by (auto simp: signal_shutdown_def)
  from cancel_pending_books [OF stop(1) this(1)] show ?thesis
    by (simp add: p' stop(2)) (simp add: books_def request_stop_def)
qed

definition cancelled_items :: "('c TaskItem \<times> fate) list \<Rightarrow> 'c TaskItem list" where
  "cancelled_items ts = map fst (filter (\<lambda>t. snd t = Cancelled) ts)"

definition failures :: "('c TaskItem \<times> outcome) list \<Rightarrow> nat" where
  "failures xs = length (filter (\<lambda>t. completion (fst t) = None \<and> failing (snd t)) xs)"

definition outcomes_inv :: "'c system \<Rightarrow> bool" where
  "outcomes_inv s \<longleftrightarrow> distinct (promise_ids (accepted s)) \<and>
     (\<forall>i \<in> set (promise_ids (accepted s)). i < next_promise (pool s)) \<and>
     (\<forall>t \<in> set (executed s). \<forall>i. completion (fst t) = Some i \<longrightarrow>
        promises (pool s) i = Some (settled (snd t))) \<and>
     (\<forall>x \<in> set (cancelled_items (taken s)). \<forall>i. completion x = Some i \<longrightarrow>
        promises (pool s) i = Some (Ready (Inl task_cancelled_error))) \<and>
     failed_dispatches (pool s) = of_nat (failures (executed s)) \<and>
     cancelled_dispatches (pool s) = of_nat (untracked (cancelled_items (taken s)))"

lemma set_promise_ids: "set (promise_ids xs) = {i. \<exists>x \<in> set xs. completion x = Some i}"
  by (induction xs) (auto split: option.splits)

lemma settled_ready [simp]: "settled out \<noteq> Not_ready"
  by (simp add: settled_def split: outcome.splits)

lemma untracked_append [simp]: "untracked (xs @ ys) = untracked xs + untracked ys"
  by (simp add: untracked_def)

lemma cancelled_items_simps [simp]:
  "cancelled_items [] = []"
  "cancelled_items (ts @ us) = cancelled_items ts @ cancelled_items us"
  "cancelled_items (map (\<lambda>x. (x, Cancelled)) xs) = xs"
  "cancelled_items (map (\<lambda>x. (x, Claimed w)) xs) = []"
  by (simp_all add: cancelled_items_def filter_map comp_def)

lemma mset_taken: "mset (map fst ts) = mset (claimed_items ts) + mset (cancelled_items ts)"
  by (induction ts) (simp_all add: claimed_items_def cancelled_items_def)

text \<open>Executed, cancelled and claimed tasks were accepted; those not run yet have open futures.\<close>

lemma executed_accepted:
  assumes "system_inv s"
  shows "set (map fst (executed s)) \<subseteq> set (accepted s)" and "set (live s) \<subseteq> set (accepted s)"
    and "set (cancelled_items (taken s)) \<subseteq> set (accepted s)"
proof -
  note inv = system_invD [OF assms]
  have "set (claimed_items (taken s)) = set (map fst (executed s)) \<union> set (live s)"
    using inv(5) by (metis set_mset_mset set_mset_union)
  moreover have "set (claimed_items (taken s)) \<subseteq> set (accepted s)"
    by (auto simp: inv(4) claimed_items_def)
  ultimately show "set (map fst (executed s)) \<subseteq> set (accepted s)" and "set (live s) \<subseteq> set (accepted s)"
    by auto
  show "set (cancelled_items (taken s)) \<subseteq> set (accepted s)"
    by (auto simp: inv(4) cancelled_items_def)
qed

lemma open_futures:
  assumes "system_inv s" and "x \<in> set (live s @ queued (pool s))" and "completion x = Some i"
  shows "promises (pool s) i = Some Not_ready"
proof -
  have "futures_ok (live s @ queued (pool s)) (promises (pool s)) (next_promise (pool s))"
    using system_invD(1) [OF assms(1)] by (simp add: pool_inv_def)
  moreover have "i \<in> set (promise_ids (live s @ queued (pool s)))"
    using assms(2,3) unfolding set_promise_ids by blast
  ultimately show ?thesis unfolding futures_ok_def by blast
qed

lemma outcomes_invD:
  assumes "outcomes_inv s"
  shows "distinct (promise_ids (accepted s))"
    and "x \<in> set (accepted s) \<Longrightarrow> completion x = Some i \<Longrightarrow> i < next_promise (pool s)"
    and "(x, out) \<in> set (executed s) \<Longrightarrow> completion x = Some i \<Longrightarrow>
      promises (pool s) i = Some (settled out)"
    and "x \<in> set (cancelled_items (taken s)) \<Longrightarrow> completion x = Some i \<Longrightarrow>
      promises (pool s) i = Some (Ready (Inl task_cancelled_error))"
    and "failed_dispatches (pool s) = of_nat (failures (executed s))"
    and "cancelled_dispatches (pool s) = of_nat (untracked (cancelled_items (taken s)))"
  using assms by (force simp: outcomes_inv_def set_promise_ids)+

lemma outcomes_invI:
  assumes "distinct (promise_ids (accepted s))"
    and "\<And>x i. x \<in> set (accepted s) \<Longrightarrow> completion x = Some i \<Longrightarrow> i < next_promise (pool s)"
    and "\<And>x out i. (x, out) \<in> set (executed s) \<Longrightarrow> completion x = Some i \<Longrightarrow>
      promises (pool s) i = Some (settled out)"
    and "\<And>x i. x \<in> set (cancelled_items (taken s)) \<Longrightarrow> completion x = Some i \<Longrightarrow>
      promises (pool s) i = Some (Ready (Inl task_cancelled_error))"
    and "failed_dispatches (pool s) = of_nat (failures (executed s))"
    and "cancelled_dispatches (pool s) = of_nat (untracked (cancelled_items (taken s)))"
  shows "outcomes_inv s"
  using assms by (auto simp: outcomes_inv_def set_promise_ids)

text \<open>Steps that leave the books alone.\<close>

lemma same_books:
  assumes "outcomes_inv s" and "books (pool s') = books (pool s)"
    and "promise_ids (accepted s') = promise_ids (accepted s)" and "executed s' = executed s"
    and "cancelled_items (taken s') = cancelled_items (taken s)"
  shows "outcomes_inv s'"
  using assms by (simp add: outcomes_inv_def books_def)

lemma cancel_all_outcomes:
  assumes "system_inv s" and "outcomes_inv s"
    and "books p = (cancelled_promises (queued (pool s)) (promises (pool s)), next_promise (pool s),
      failed_dispatches (pool s), cancelled_dispatches (pool s) + of_nat (untracked (queued (pool s))))"
  shows "outcomes_inv (cancel_all p s)"
proof -
  note out = outcomes_invD [OF assms(2)]
  have kept: "i \<notin> set (promise_ids (queued (pool s)))"
    if "(x, out) \<in> set (executed s)" "completion x = Some i" for x out i
  proof
    assume "i \<in> set (promise_ids (queued (pool s)))"
    then obtain y where "y \<in> set (live s @ queued (pool s))" "completion y = Some i"
      by (auto simp: set_promise_ids)
    from open_futures [OF assms(1) this] out(3) [OF that] show False by simp
  qed
  have p: "promises p = cancelled_promises (queued (pool s)) (promises (pool s))"
    "next_promise p = next_promise (pool s)" "failed_dispatches p = failed_dispatches (pool s)"
    "cancelled_dispatches p = cancelled_dispatches (pool s) + of_nat (untracked (queued (pool s)))"
    using assms(3) by (simp_all add: books_def)
  have "promises p i = Some (settled out)" if "(x, out) \<in> set (executed s)" "completion x = Some i" for x out i
    using out(3) [OF that] kept [OF that] by (simp add: p(1) cancelled_promises_def)
  moreover have "promises p i = Some (Ready (Inl task_cancelled_error))"
    if "x \<in> set (cancelled_items (taken s) @ queued (pool s))" "completion x = Some i" for x i
    using out(4) that by (auto simp: p(1) cancelled_promises_def set_promise_ids)
  ultimately show ?thesis
    using out(1,2,5,6) by (intro outcomes_invI) (simp_all add: cancel_all_def p(2-4))
qed

lemma executes_outcomes:
  assumes "system_inv s" and "outcomes_inv s" and "w < worker_count (pool s)"
    and "phase s w = Running (x # xs) k" and "account x out (pool s) = Some p"
  shows "outcomes_inv (s\<lparr>pool := p, phase := (phase s)(w := Running xs k),
    executed := executed s @ [(x, out)]\<rparr>)"
proof -
  note ended = outcomes_invD [OF assms(2)]
  have "x \<in> set (live s)" using assms(3,4) by (force simp: set_gather)
  then have fresh: "promises (pool s) i = Some Not_ready" if "completion x = Some i" for i
    using open_futures [OF assms(1) _ that] by simp
  have p: "p = account_effect x out (pool s)"
    using assms(5) by (auto simp: account_def account_effect_def set_promise_def split: option.splits if_splits)
  show ?thesis
  proof (cases "completion x")
    case None
    with ended show ?thesis
      by (intro outcomes_invI) (auto simp: p account_effect_def failures_def)
  next
    case (Some i)
    have other: "promises p j = promises (pool s) j" if "promises (pool s) j \<noteq> Some Not_ready" for j
      using that fresh [OF Some] Some by (auto simp: p account_effect_def)
    have "promises p i = Some (settled out)" using Some by (simp add: p account_effect_def)
    moreover have "failures (executed s @ [(x, out)]) = failures (executed s)"
      using Some by (simp add: failures_def)
    moreover have "failed_dispatches p = failed_dispatches (pool s)"
      "cancelled_dispatches p = cancelled_dispatches (pool s)"
      using Some by (simp_all add: p account_effect_def)
    moreover have "promises p j = Some (settled o')" if "(y, o') \<in> set (executed s)" "completion y = Some j" for y o' j
      using other [of j] ended(3) [OF that] by simp
    moreover have "promises p j = Some (Ready (Inl task_cancelled_error))"
      if "y \<in> set (cancelled_items (taken s))" "completion y = Some j" for y j
      using other [of j] ended(4) [OF that] by simp
    ultimately show ?thesis
      using ended(1,2,5,6) Some by (intro outcomes_invI) (auto simp: p)
  qed
qed

lemma worker_step_outcomes: "worker_step s s' \<Longrightarrow> system_inv s \<Longrightarrow> outcomes_inv s \<Longrightarrow> outcomes_inv s'"
proof (induction rule: worker_step.induct)
  case (claims w s items p)
  then show ?case by (intro same_books [OF claims(6)]) (simp_all add: claim_books)
next
  case (executes w s x xs k out p)
  then show ?case by (intro executes_outcomes)
next
  case (finishes w s k notify p)
  then show ?case by (intro same_books [OF finishes(5)]) (simp_all add: finish_books)
next
  case (exits w s)
  then show ?case by (intro same_books [OF exits(6)]) simp_all
qed

lemma client_step_outcomes: "client_step s s' \<Longrightarrow> system_inv s \<Longrightarrow> outcomes_inv s \<Longrightarrow> outcomes_inv s'"
proof (induction rule: client_step.induct)
  case (submits c s i p)
  note ended = outcomes_invD [OF submits(3)] and b = submit_tracked_books [OF submits(1)]
  have kept: "promises p j = promises (pool s) j" if "j < next_promise (pool s)" for j
    using b that by (simp add: books_def)
  have "promises p j = Some (settled out)" if "(y, out) \<in> set (executed s)" "completion y = Some j" for y out j
  proof -
    have "y \<in> set (accepted s)" using executed_accepted(1) [OF submits(2)] that(1) by force
    with ended(2,3) that kept show ?thesis by metis
  qed
  moreover have "promises p j = Some (Ready (Inl task_cancelled_error))"
    if "y \<in> set (cancelled_items (taken s))" "completion y = Some j" for y j
  proof -
    have "y \<in> set (accepted s)" using executed_accepted(3) [OF submits(2)] that(1) by blast
    with ended(2,4) that kept show ?thesis by metis
  qed
  moreover have "next_promise (pool s) \<notin> set (promise_ids (accepted s))"
    using ended(2) by (auto simp: set_promise_ids)
  ultimately show ?case
    using ended(1,2,5,6) b
    by (intro outcomes_invI) (auto simp: accept_def tracked_def books_def intro: less_SucI)
next
  case (dispatches c s p)
  then show ?case
    by (intro same_books [OF dispatches(3)]) (simp_all add: accept_def fire_and_forget_def enqueue_books)
next
  case (bulk_round ts s k p)
  then show ?case by (intro same_books [OF bulk_round(3)]) (simp_all add: accept_def bulk_books)
next
  case (clears s n p)
  then show ?case
    using cancel_pending_books [OF system_invD(1) [OF clears(2)], of n p]
    by (intro cancel_all_outcomes) (simp_all add: clear_queue_def)
next
  case (drains s p)
  then show ?case by (intro same_books [OF drains(3)]) (simp_all add: drain_books)
next
  case (cancels s p)
  then show ?case
    using cancel_shutdown_books [OF system_invD(1) [OF cancels(2)] cancels(1)]
    by (intro cancel_all_outcomes) simp_all
next
  case (takes_threads s)
  then show ?case by (intro same_books [OF takes_threads(3)]) (simp_all add: books_def)
qed

lemma pool_reach_outcomes:
  assumes "Pool_new hw n cap = Inr p0" and "pool_reach p0 s"
  shows "outcomes_inv s"
  using assms(2)
proof induction
  case start
  then show ?case
    using assms(1)
    by (auto simp: outcomes_inv_def system_start_def Pool_new_def Let_def failures_def untracked_def
        split: sum.splits if_splits)
next
  case (step s s')
  then show ?case
    using pool_reach_inv [OF assms(1)]
    by (auto elim!: pool_step.cases intro: worker_step_outcomes client_step_outcomes)
qed

section \<open>Progress of the workers\<close>

text \<open>The work left: what the queued tasks and the phases of the workers can still do.\<close>

fun effort :: "'c worker_phase \<Rightarrow> nat" where
  "effort Looping = 1"
| "effort (Running xs k) = 2 + 2 * length xs"
| "effort Exited = 0"

definition work :: "'c system \<Rightarrow> nat" where
  "work s = 4 * length (queued (pool s)) + summed effort (phase s) (worker_count (pool s))"

lemma worker_step_work: "worker_step s s' \<Longrightarrow> system_inv s \<Longrightarrow> work s' < work s"
proof (induction rule: worker_step.induct)
  case (claims w s items p)
  note res = claim_result [OF claims(5,3,4)]
  have "length items \<le> length (queued (pool s))"
    using arg_cong [OF claimed_prefix [of "queued (pool s)"], of length] by (simp add: res(2))
  moreover obtain m where "length items = Suc m" using claims(4) by (cases items) simp_all
  moreover have "summed effort ((phase s)(w := Running items (length items))) (worker_count (pool s)) + 1
      = summed effort (phase s) (worker_count (pool s)) + (2 + 2 * length items)"
    using summed_update [OF claims(1), of effort "phase s"] claims(2) by (metis effort.simps(1,2))
  ultimately show ?case using claim_frame [OF claims(3)] by (simp add: work_def res(4))
next
  case (executes w s x xs k out p)
  have p: "p = account_effect x out (pool s)"
    using executes(3) by (auto simp: account_def account_effect_def set_promise_def split: option.splits if_splits)
  have "summed effort ((phase s)(w := Running xs k)) (worker_count (pool s)) + (2 + 2 * length (x # xs))
      = summed effort (phase s) (worker_count (pool s)) + (2 + 2 * length xs)"
    using summed_update [OF executes(1), of effort "phase s"] executes(2) by (metis effort.simps(2))
  then show ?case by (simp add: work_def p)
next
  case (finishes w s k notify p)
  have "summed effort ((phase s)(w := Looping)) (worker_count (pool s)) + 2
      = summed effort (phase s) (worker_count (pool s)) + 1"
    using summed_update [OF finishes(1), of effort "phase s" Looping] finishes(2) by simp
  then show ?case
    using finish_frame_pair [OF finishes(3)] finish_result(2) [OF finishes(4,1,2,3)]
    by (simp add: work_def)
next
  case (exits w s)
  have "summed effort ((phase s)(w := Exited)) (worker_count (pool s)) + 1
      = summed effort (phase s) (worker_count (pool s))"
    using summed_update [OF exits(1), of effort "phase s" Exited] exits(2) by simp
  then show ?case by (simp add: work_def)
qed

lemma claim_defined: "system_inv s \<Longrightarrow> claim (pool s) \<noteq> None"
  using claim_empty [OF system_invD(1)] claim_items [OF system_invD(1) _ active_room]
  by (metis option.distinct(1))

lemma account_defined:
  assumes "system_inv s" and "w < worker_count (pool s)" and "phase s w = Running (x # xs) k"
  shows "account x out (pool s) \<noteq> None"
proof -
  obtain before after where "live s = before @ remaining (phase s w) @ after"
    using gather_split [OF assms(2)] by metis
  then show ?thesis
    using account_item(1) [of "active s" before x "xs @ after"] system_invD(1) [OF assms(1)] assms(3) by simp
qed

lemma worker_can_run:
  assumes "system_inv s" and "w < worker_count (pool s)" and "phase s w = Running xs k"
  shows "\<exists>s'. worker_step s s'"
proof (cases xs)
  case Nil
  with assms show ?thesis by (metis finishes surj_pair)
next
  case (Cons x ys)
  then show ?thesis using account_defined [OF assms(1,2)] assms(2,3) executes by (metis not_None_eq)
qed

lemma stuck_workers:
  assumes "system_inv s" and "\<nexists>s'. worker_step s s'" and "w < worker_count (pool s)"
  shows "(phase s w = Looping \<and> queued (pool s) = [] \<and> \<not> is_stopping (pool s)) \<or>
    (phase s w = Exited \<and> queued (pool s) = [])"
proof (cases "phase s w")
  case (Running xs k)
  with worker_can_run [OF assms(1,3)] assms(2) show ?thesis by blast
next
  case Exited
  with system_invD(6) [OF assms(1)] show ?thesis by blast
next
  case Looping
  note inv = system_invD(1) [OF assms(1)]
  have empty: "queued (pool s) = []"
  proof (rule ccontr)
    assume nonempty: "queued (pool s) \<noteq> []"
    from claim_items [OF inv nonempty active_room [OF assms(1)]] obtain p where
      "claim (pool s) = Some (claimed (queued (pool s)), p)" by metis
    with claims [OF assms(3) Looping] claimed_bounds(2) [OF nonempty] assms(2) show False by metis
  qed
  moreover have "\<not> is_stopping (pool s)"
    using exits [OF assms(3) Looping] assms(2) pool_observers(1) [OF inv] empty
    by (auto simp: pending_tasks_def)
  ultimately show ?thesis using Looping by simp
qed

text \<open>Workers alone reach a state where the queue is empty and nothing runs.\<close>

lemma workers_settle:
  "system_inv s \<Longrightarrow> \<exists>s'. worker_step\<^sup>*\<^sup>* s s' \<and> system_inv s' \<and> \<not> (\<exists>s''. worker_step s' s'') \<and>
     accepted s' = accepted s \<and> is_stopping (pool s') = is_stopping (pool s) \<and>
     worker_count (pool s') = worker_count (pool s)"
proof (induction "work s" arbitrary: s rule: less_induct)
  case less
  show ?case
  proof (cases "\<exists>s'. worker_step s s'")
    case False
    with less.prems show ?thesis by blast
  next
    case True
    then obtain t where t: "worker_step s t" by blast
    from less.hyps [OF worker_step_work [OF t less.prems] worker_step_inv [OF t less.prems]]
    show ?thesis
      using t worker_step_stopping [OF t less.prems] worker_step_frame [OF t]
      by (metis converse_rtranclp_into_rtranclp)
  qed
qed

lemma settled_workers:
  assumes "system_inv s" and "\<nexists>s'. worker_step s s'"
  shows "queued (pool s) = []" and "live s = []" and "active s = 0"
    and "is_stopping (pool s) \<Longrightarrow> w < worker_count (pool s) \<Longrightarrow> phase s w = Exited"
proof -
  have "0 < worker_count (pool s)" using system_invD(1) [OF assms(1)] by (simp add: pool_inv_def)
  then show "queued (pool s) = []" using stuck_workers [OF assms] by blast
  have ph: "phase s v = Looping \<or> phase s v = Exited" if "v < worker_count (pool s)" for v
    using stuck_workers [OF assms that] by blast
  then have "remaining (phase s v) = []" and "batch (phase s v) = 0" if "v < worker_count (pool s)" for v
    using that by force+
  then show "live s = []" and "active s = 0" by (simp_all add: gather_Nil summed_eq_0)
  show "is_stopping (pool s) \<Longrightarrow> w < worker_count (pool s) \<Longrightarrow> phase s w = Exited"
    using stuck_workers [OF assms] by blast
qed

end
