(* ===== verification/Pool_Theorems.thy ===== *)
theory Pool_Theorems
  imports Pool_Correctness
begin

text \<open>
  The properties of \<open>IndustrialWorkerPool\<close>, over every reachable state of the pool protocol, and a
  concrete run that instantiates them.
\<close>

section \<open>A concrete run\<close>

lemma fresh_step:
  assumes "Pool_new hw n cap = Inr p0" and "pool_reach p0 s" and "\<not> is_stopping (pool s)"
    and "length (queued (pool s)) < cap"
  shows "\<exists>s'. pool_step s s' \<and> pool_reach p0 s' \<and> accepted s' = accepted s @ [tracked c (pool s)] \<and>
    queued (pool s') = queued (pool s) @ [tracked c (pool s)] \<and> phase s' = phase s \<and>
    executed s' = executed s \<and> taken s' = taken s \<and> \<not> is_stopping (pool s')"
proof -
  note inv = system_invD(1) [OF pool_reach_inv [OF assms(1,2)]]
  have "queue_capacity (pool s) = cap"
    using pool_reach_limits [OF assms(2)] Pool_new_inv [OF assms(1)] by simp
  then have "submit_tracked c (pool s) \<noteq> Blocked" "submit_tracked c (pool s) \<noteq> Threw e" for e
    using submit_tracked_refused [OF inv] assms(3,4) by auto
  then obtain i p where acc: "submit_tracked c (pool s) = Accepted (i, p)"
    by (metis submission.exhaust surj_pair)
  have step: "pool_step s (accept p [tracked c (pool s)] s)" by (rule calls [OF submits [OF acc]])
  from pool_reach.step [OF assms(2) this] step submit_tracked_accepted [OF inv acc] assms(3) show ?thesis
    by (intro exI [of _ "accept p [tracked c (pool s)] s"]) (simp add: accept_def)
qed

lemma claim_step:
  assumes "Pool_new hw n cap = Inr p0" and "pool_reach p0 s" and "queued (pool s) \<noteq> []"
    and "w < n" and "0 < n" and "phase s w = Looping"
  shows "\<exists>s'. pool_step s s' \<and> pool_reach p0 s' \<and> accepted s' = accepted s \<and> executed s' = executed s \<and>
    queued (pool s') = drop (length (claimed (queued (pool s)))) (queued (pool s)) \<and>
    phase s' = (phase s)(w := Running (claimed (queued (pool s))) (length (claimed (queued (pool s))))) \<and>
    is_stopping (pool s') = is_stopping (pool s)"
proof -
  note inv = pool_reach_inv [OF assms(1,2)]
  obtain p where p: "claim (pool s) = Some (claimed (queued (pool s)), p)"
    "queued p = drop (length (claimed (queued (pool s)))) (queued (pool s))"
    "is_stopping p = is_stopping (pool s)"
    using claim_items [OF system_invD(1) [OF inv] assms(3) active_room [OF inv]] by metis
  have "w < worker_count (pool s)"
    using pool_reach_limits [OF assms(2)] assms(1,4,5)
    by (auto simp: Pool_new_def Let_def split: sum.splits if_splits)
  let ?s = "s\<lparr>pool := p, phase := (phase s)(w := Running (claimed (queued (pool s)))
      (length (claimed (queued (pool s))))),
    taken := taken s @ map (\<lambda>x. (x, Claimed w)) (claimed (queued (pool s)))\<rparr>"
  have step: "pool_step s ?s"
    by (rule works [OF claims [OF \<open>w < worker_count (pool s)\<close> assms(6) p(1) claimed_bounds(2) [OF assms(3)]]])
  from pool_reach.step [OF assms(2) this] step p show ?thesis by (intro exI [of _ ?s]) simp
qed

lemma small_pool: "\<exists>p0 :: unit Pool. Pool_new 0 1 2 = Inr p0"
  by (simp add: Pool_new_def validate_queue_capacity_def max_queue_capacity_def max_worker_count_def)

text \<open>One worker, two accepted tasks, the first of them claimed.\<close>

lemma example_run:
  "\<exists>(p0 :: unit Pool) s x y. Pool_new 0 1 2 = Inr p0 \<and> pool_reach p0 s \<and> accepted s = [x, y] \<and>
     queued (pool s) = [y] \<and> phase s 0 = Running [x] 1 \<and> executed s = [] \<and> \<not> is_stopping (pool s)"
proof -
  obtain p0 :: "unit Pool" where p0: "Pool_new 0 1 2 = Inr p0" using small_pool by blast
  let ?x = "tracked (Task ()) p0"
  obtain s1 where s1: "pool_reach p0 s1" "accepted s1 = [?x]" "queued (pool s1) = [?x]"
    "phase s1 = (\<lambda>_. Looping)" "executed s1 = []" "\<not> is_stopping (pool s1)"
    using fresh_step [OF p0 start, of "Task ()"] Pool_new_inv [OF p0]
    by (auto simp: system_start_def)
  let ?y = "tracked (Task ()) (pool s1)"
  obtain s2 where s2: "pool_reach p0 s2" "accepted s2 = [?x, ?y]" "queued (pool s2) = [?x, ?y]"
    "phase s2 = (\<lambda>_. Looping)" "executed s2 = []" "\<not> is_stopping (pool s2)"
    using fresh_step [OF p0 s1(1) s1(6), of "Task ()"] s1 by auto
  have "claimed (queued (pool s2)) = [?x]" by (simp add: s2(3) claimed_def) (simp add: tracked_def)
  then obtain s3 where s3: "pool_reach p0 s3" "accepted s3 = [?x, ?y]" "executed s3 = []"
    "queued (pool s3) = [?y]" "phase s3 = (\<lambda>_. Looping)(0 := Running [?x] 1)"
    "\<not> is_stopping (pool s3)"
    using claim_step [OF p0 s2(1), of 0] s2 by auto
  with p0 show ?thesis
    by (intro exI [of _ p0] exI [of _ s3] exI [of _ ?x] exI [of _ ?y]) simp
qed

section \<open>Properties\<close>

text \<open>
  C2. No task is lost, duplicated or reordered in the queue: the accepted tasks are, in order, those
  taken from the queue followed by those still queued, and the tasks taken by workers are exactly
  the executed ones together with those of unfinished batches.
\<close>

theorem pool_is_fifo_and_loses_nothing:
  assumes "Pool_new hardware requested capacity = Inr p0" and "pool_reach p0 s"
  shows "accepted s = map fst (taken s) @ queued (pool s) \<and>
    mset (claimed_items (taken s)) = mset (map fst (executed s)) + mset (live s)"
  using system_invD(4,5) [OF pool_reach_inv [OF assms]] by blast

theorem pool_is_fifo_and_loses_nothing_witness:
  "\<exists>(p0 :: unit Pool) s. Pool_new 0 1 2 = Inr p0 \<and> pool_reach p0 s \<and> accepted s \<noteq> [] \<and>
     accepted s = map fst (taken s) @ queued (pool s)"
  using example_run pool_is_fifo_and_loses_nothing by (metis list.distinct(1))

text \<open>
  C6. Every future is completed exactly with what became of its task: the result or exception of the
  callback when it was executed, the cancellation error when it was cancelled, and it stays open
  while the task is queued or claimed. The two counters count the failed and the cancelled
  fire-and-forget tasks (modulo the width of \<open>std::size_t\<close>).
\<close>

theorem futures_report_what_happened:
  assumes "Pool_new hardware requested capacity = Inr p0" and "pool_reach p0 s"
  shows "(\<forall>(x, out) \<in> set (executed s). \<forall>i. completion x = Some i \<longrightarrow>
      promises (pool s) i = Some (case out of Finished r \<Rightarrow> Ready r | Raised e \<Rightarrow> Failed e)) \<and>
    (\<forall>x \<in> set (cancelled_items (taken s)). \<forall>i. completion x = Some i \<longrightarrow>
      promises (pool s) i = Some (Ready (Inl task_cancelled_error))) \<and>
    (\<forall>x \<in> set (live s @ queued (pool s)). \<forall>i. completion x = Some i \<longrightarrow>
      promises (pool s) i = Some Not_ready) \<and>
    failed_dispatches (pool s) = of_nat (length (filter (\<lambda>(x, out). completion x = None \<and>
      (case out of Finished r \<Rightarrow> isl r | Raised e \<Rightarrow> True)) (executed s))) \<and>
    cancelled_dispatches (pool s) = of_nat (untracked (cancelled_items (taken s)))"
  using outcomes_invD(3-6) [OF pool_reach_outcomes [OF assms]]
    open_futures [OF pool_reach_inv [OF assms]]
  unfolding settled_def failures_def failing_def by (auto simp: case_prod_unfold)

theorem futures_report_what_happened_witness:
  "\<exists>(p0 :: unit Pool) s x i. Pool_new 0 1 2 = Inr p0 \<and> pool_reach p0 s \<and> x \<in> set (queued (pool s)) \<and>
     failed_dispatches (pool s) = 0"
proof -
  obtain p0 :: "unit Pool" and s x y where r: "Pool_new 0 1 2 = Inr p0" "pool_reach p0 s"
    "queued (pool s) = [y]" "executed s = []"
    using example_run by blast
  then show ?thesis
    using futures_report_what_happened [OF r(1,2)]
    by (intro exI [of _ p0] exI [of _ s] exI [of _ y]) (simp add: failures_def)
qed

text \<open>
  C25. No reachable operation of the pool runs into undefined behaviour or \<open>std::terminate\<close>: claiming,
  clearing, shutting down and settling the next task of any worker are all defined.
\<close>

theorem pool_never_terminates:
  assumes "Pool_new hardware requested capacity = Inr p0" and "pool_reach p0 s"
  shows "claim (pool s) \<noteq> None \<and> clear_queue (pool s) \<noteq> None \<and> signal_shutdown mode (pool s) \<noteq> None \<and>
    (\<forall>w < worker_count (pool s). \<forall>x xs k. phase s w = Running (x # xs) k \<longrightarrow>
       account x out (pool s) \<noteq> None)"
proof (intro conjI allI impI)
  note reach = pool_reach_inv [OF assms] and inv = system_invD(1) [OF pool_reach_inv [OF assms]]
  show "claim (pool s) \<noteq> None" by (rule claim_defined [OF reach])
  show "clear_queue (pool s) \<noteq> None"
    unfolding clear_queue_def using cancel_pending_effect [OF inv] by (metis option.distinct(1))
  show "signal_shutdown mode (pool s) \<noteq> None"
    using signal_shutdown_effect [OF inv] by (metis option.distinct(1))
  show "account x out (pool s) \<noteq> None"
    if "w < worker_count (pool s)" "phase s w = Running (x # xs) k" for w x xs k
    using account_defined [OF reach that] .
qed

theorem pool_never_terminates_witness:
  "\<exists>(p0 :: unit Pool) s x. Pool_new 0 1 2 = Inr p0 \<and> pool_reach p0 s \<and> phase s 0 = Running [x] 1 \<and>
     clear_queue (pool s) \<noteq> None"
  using example_run pool_never_terminates by metis

text \<open>
  C28. The queue never holds more than its capacity, and \<open>pending_tasks()\<close> is its exact length; a
  submission is accepted exactly when the pool is not stopping and a slot is free, and is refused
  with an exception exactly when the pool is stopping.
\<close>

theorem queue_is_bounded:
  assumes "Pool_new hardware requested capacity = Inr p0" and "pool_reach p0 s"
  shows "pending_tasks (pool s) = length (queued (pool s)) \<and> length (queued (pool s)) \<le> capacity \<and>
    capacity \<le> max_queue_capacity \<and>
    (submit_tracked c (pool s) = Threw after_shutdown \<longleftrightarrow> is_stopping (pool s)) \<and>
    (submit_tracked c (pool s) = Blocked \<longleftrightarrow>
       \<not> is_stopping (pool s) \<and> length (queued (pool s)) = capacity)"
proof -
  note inv = system_invD(1) [OF pool_reach_inv [OF assms]]
  have "queue_capacity (pool s) = capacity"
    using pool_reach_limits [OF assms(2)] Pool_new_inv [OF assms(1)] by simp
  then show ?thesis
    using pool_observers(1,4) [OF inv] submit_tracked_refused [OF inv, of c] inv
    by (simp add: pending_tasks_def pool_inv_def)
qed

theorem queue_is_bounded_witness:
  "\<exists>(p0 :: unit Pool) s. Pool_new 0 1 2 = Inr p0 \<and> pool_reach p0 s \<and> pending_tasks (pool s) = 1"
proof -
  obtain p0 :: "unit Pool" and s x y where r: "Pool_new 0 1 2 = Inr p0" "pool_reach p0 s"
    "queued (pool s) = [y]"
    using example_run by blast
  with queue_is_bounded [OF r(1,2)] show ?thesis by (intro exI [of _ p0] exI [of _ s]) simp
qed

text \<open>
  C17. With at most 127 workers the packed active count never overflows: \<open>active_tasks()\<close> is the number of
  claimed tasks whose batch is not finished, and \<open>is_idle()\<close> - the condition \<open>wait()\<close> blocks on -
  holds exactly when the queue is empty and no batch is unfinished, and then every accepted task
  was executed or cancelled.
\<close>

theorem idle_means_done:
  assumes "Pool_new hardware requested capacity = Inr p0" and "pool_reach p0 s"
    and "worker_count p0 \<le> 127"
  shows "active_tasks (pool s) = active s \<and>
    (is_idle (pool s) \<longleftrightarrow> queued (pool s) = [] \<and> active s = 0) \<and>
    (is_idle (pool s) \<longrightarrow> mset (accepted s) =
       mset (map fst (executed s)) + mset (cancelled_items (taken s)))"
proof -
  note reach = pool_reach_inv [OF assms(1,2)]
  note inv = system_invD [OF reach] and obs = pool_observers [OF system_invD(1) [OF reach]]
  have "active s \<le> 16 * 127"
    using active_bound [OF reach] pool_reach_limits [OF assms(2)] assms(3)
    by (simp add: bulk_claim_size_def)
  then have exact: "active s mod 2048 = active s" by simp
  have idle: "is_idle (pool s) \<longleftrightarrow> queued (pool s) = [] \<and> active s = 0"
    by (simp add: is_idle_def obs exact)
  have "mset (accepted s) = mset (map fst (executed s)) + mset (cancelled_items (taken s))"
    if "queued (pool s) = []" "active s = 0"
  proof -
    have "remaining (phase s w) = []" if "w < worker_count (pool s)" for w
      using inv(2) [of w] \<open>active s = 0\<close> that by (simp add: summed_eq_0)
    then have "live s = []" by (simp add: gather_Nil)
    then show ?thesis using inv(4,5) mset_taken [of "taken s"] that(1) by simp
  qed
  then show ?thesis using idle exact by (simp add: active_tasks_def obs)
qed

theorem idle_means_done_witness:
  "\<exists>(p0 :: unit Pool) s. Pool_new 0 1 2 = Inr p0 \<and> worker_count p0 \<le> 127 \<and> pool_reach p0 s \<and>
     active_tasks (pool s) = 1 \<and> \<not> is_idle (pool s)"
proof -
  obtain p0 :: "unit Pool" and s x y where r: "Pool_new 0 1 2 = Inr p0" "pool_reach p0 s"
    "queued (pool s) = [y]" "phase s 0 = Running [x] 1"
    using example_run by blast
  then have n: "worker_count p0 = 1" by (auto simp: Pool_new_def Let_def split: sum.splits if_splits)
  then have "worker_count p0 \<le> 127" and "active s = 1"
    using pool_reach_limits [OF r(2)] by (simp_all add: summed_def r(4))
  with idle_means_done [OF r(1,2)] r show ?thesis by (intro exI [of _ p0] exI [of _ s]) simp
qed

text \<open>
  C27. Shutdown is final: once the pool is stopping it stays so, no step accepts a further task, and
  neither \<open>submit\<close>, \<open>dispatch\<close> nor \<open>dispatch_bulk\<close> gets past its guard.
\<close>

theorem shutdown_is_final:
  assumes "Pool_new hardware requested capacity = Inr p0" and "pool_reach p0 s"
    and "is_stopping (pool s)" and "pool_step\<^sup>*\<^sup>* s s'"
  shows "is_stopping (pool s') \<and> accepted s' = accepted s \<and>
    submit task (pool s') = Threw after_shutdown \<and> pool_dispatch task (pool s') = Threw after_shutdown \<and>
    dispatch_bulk_round ts (pool s') = Bulk_stopped"
proof -
  have "system_inv s' \<and> is_stopping (pool s') \<and> accepted s' = accepted s"
    using assms(4)
  proof induction
    case base
    then show ?case using pool_reach_inv [OF assms(1,2)] assms(3) by simp
  next
    case (step t u)
    then show ?case
      using worker_step_stopping [of t u] client_step_stopping [of t u] pool_step_inv [of t u]
      by (auto elim!: pool_step.cases)
  qed
  then show ?thesis
    using submit_tracked_refused(1) [OF system_invD(1), of s' "Task task" after_shutdown]
      dispatch_bulk_round_cases(1) [OF system_invD(1), of s' ts]
    by (simp add: submit_def pool_dispatch_def enqueue_def is_stopping_def)
qed

lemma stopped_run:
  "\<exists>(p0 :: unit Pool) s x. Pool_new 0 1 2 = Inr p0 \<and> pool_reach p0 s \<and> is_stopping (pool s) \<and>
     queued (pool s) = [x]"
proof -
  obtain p0 :: "unit Pool" and s x y where r: "Pool_new 0 1 2 = Inr p0" "pool_reach p0 s"
    "queued (pool s) = [y]"
    using example_run by blast
  obtain p where p: "signal_shutdown DRAIN (pool s) = Some p" "is_stopping p" "queued p = [y]"
    using signal_shutdown_effect [OF system_invD(1) [OF pool_reach_inv [OF r(1,2)]], of DRAIN] r(3)
    by force
  have "pool_reach p0 (s\<lparr>pool := p\<rparr>)" by (rule pool_reach.step [OF r(2) calls [OF drains [OF p(1)]]])
  with r(1) p show ?thesis by (intro exI [of _ p0] exI [of _ "s\<lparr>pool := p\<rparr>"] exI [of _ y]) simp
qed

theorem shutdown_is_final_witness:
  "\<exists>(p0 :: unit Pool) s. Pool_new 0 1 2 = Inr p0 \<and> pool_reach p0 s \<and>
     submit () (pool s) = Threw after_shutdown"
proof -
  obtain p0 :: "unit Pool" and s x where r: "Pool_new 0 1 2 = Inr p0" "pool_reach p0 s"
    "is_stopping (pool s)"
    using stopped_run by blast
  with shutdown_is_final [OF r rtranclp.rtrancl_refl, of "()"] show ?thesis by blast
qed

lemma worker_steps_bounded:
  "(worker_step ^^ k) s s' \<Longrightarrow> system_inv s \<Longrightarrow> system_inv s' \<and> k + work s' \<le> work s"
proof (induction k arbitrary: s')
  case 0
  then show ?case by simp
next
  case (Suc k)
  then obtain t where "(worker_step ^^ k) s t" "worker_step t s'" by auto
  with Suc worker_step_work [of t s'] worker_step_inv [of t s'] show ?case by fastforce
qed

text \<open>
  C24. The workers empty the queue on their own: from every reachable state some finite run of worker
  steps alone leaves the queue empty, nothing claimed and, if the pool is stopping, every worker
  returned from \<open>run\<close>, with every accepted task executed or cancelled; and no run of worker steps
  is longer than the work left.
\<close>

theorem workers_drain_the_queue:
  assumes "Pool_new hardware requested capacity = Inr p0" and "pool_reach p0 s"
  shows "(\<exists>s'. worker_step\<^sup>*\<^sup>* s s' \<and> queued (pool s') = [] \<and> active s' = 0 \<and>
      accepted s' = accepted s \<and>
      mset (accepted s') = mset (map fst (executed s')) + mset (cancelled_items (taken s')) \<and>
      (is_stopping (pool s) \<longrightarrow> (\<forall>w < worker_count (pool s'). phase s' w = Exited))) \<and>
    (\<forall>k s'. (worker_step ^^ k) s s' \<longrightarrow> k \<le> work s)"
proof
  note inv = pool_reach_inv [OF assms]
  show "\<forall>k s'. (worker_step ^^ k) s s' \<longrightarrow> k \<le> work s"
    using worker_steps_bounded [OF _ inv] by fastforce
  obtain s' where s': "worker_step\<^sup>*\<^sup>* s s'" "system_inv s'" "\<nexists>s''. worker_step s' s''"
    "accepted s' = accepted s" "is_stopping (pool s') = is_stopping (pool s)"
    using workers_settle [OF inv] by auto
  note rest = settled_workers [OF s'(2,3)]
  have "mset (accepted s') = mset (map fst (executed s')) + mset (cancelled_items (taken s'))"
    using system_invD(4,5) [OF s'(2)] mset_taken [of "taken s'"] rest(1,2) by simp
  with s' rest show "\<exists>s'. worker_step\<^sup>*\<^sup>* s s' \<and> queued (pool s') = [] \<and> active s' = 0 \<and>
      accepted s' = accepted s \<and>
      mset (accepted s') = mset (map fst (executed s')) + mset (cancelled_items (taken s')) \<and>
      (is_stopping (pool s) \<longrightarrow> (\<forall>w < worker_count (pool s'). phase s' w = Exited))"
    by (intro exI [of _ s']) auto
qed

theorem workers_drain_the_queue_witness:
  "\<exists>(p0 :: unit Pool) s s'. Pool_new 0 1 2 = Inr p0 \<and> pool_reach p0 s \<and> queued (pool s) \<noteq> [] \<and>
     worker_step\<^sup>*\<^sup>* s s' \<and> queued (pool s') = []"
proof -
  obtain p0 :: "unit Pool" and s x where r: "Pool_new 0 1 2 = Inr p0" "pool_reach p0 s"
    "queued (pool s) = [x]"
    using stopped_run by blast
  obtain s' where "worker_step\<^sup>*\<^sup>* s s'" "queued (pool s') = []"
    using workers_drain_the_queue [OF r(1,2)] by blast
  with r show ?thesis by (intro exI [of _ p0] exI [of _ s] exI [of _ s']) simp
qed

section \<open>The active count overflows with 128 workers\<close>

text \<open>Workers \<open>w, w + 1, \<dots>\<close> each claim sixteen bulk tasks.\<close>

lemma claims_in_turn:
  "Pool_new hw n cap = Inr p0 \<Longrightarrow> pool_reach p0 s \<Longrightarrow> length (queued (pool s)) = 16 * m \<Longrightarrow>
     \<forall>x \<in> set (queued (pool s)). bulk x \<Longrightarrow> w + m \<le> n \<Longrightarrow>
     \<forall>v. w \<le> v \<longrightarrow> phase s v = Looping \<Longrightarrow>
   \<exists>s'. pool_reach p0 s' \<and> queued (pool s') = [] \<and> is_stopping (pool s') = is_stopping (pool s) \<and>
     (\<forall>v. w \<le> v \<and> v < w + m \<longrightarrow> batch (phase s' v) = 16 \<and> length (remaining (phase s' v)) = 16) \<and>
     (\<forall>v < w. phase s' v = phase s v) \<and> (\<forall>v \<ge> w + m. phase s' v = Looping)"
proof (induction m arbitrary: s w)
  case 0
  then show ?case by (intro exI [of _ s]) simp
next
  case (Suc m)
  have nonempty: "queued (pool s) \<noteq> []" using Suc.prems(3) by auto
  then have "bulk (hd (queued (pool s)))" using Suc.prems(4) by simp
  moreover have "takeWhile bulk (take 16 (queued (pool s))) = take 16 (queued (pool s))"
    using Suc.prems(4) by (auto intro: takeWhile_eq_all_conv [THEN iffD2] dest: in_set_takeD)
  ultimately have cl: "claimed (queued (pool s)) = take 16 (queued (pool s))"
    using nonempty by (auto simp: claimed_def bulk_claim_size_def split: list.splits)
  have len: "length (take 16 (queued (pool s))) = 16" using Suc.prems(3) by simp
  obtain t where t: "pool_reach p0 t" "queued (pool t) = drop 16 (queued (pool s))"
    "phase t = (phase s)(w := Running (take 16 (queued (pool s))) 16)"
    "is_stopping (pool t) = is_stopping (pool s)"
    using claim_step [OF Suc.prems(1,2) nonempty, of w] Suc.prems(5,6) unfolding cl len by auto
  have "\<exists>s'. pool_reach p0 s' \<and> queued (pool s') = [] \<and> is_stopping (pool s') = is_stopping (pool t) \<and>
     (\<forall>v. Suc w \<le> v \<and> v < Suc w + m \<longrightarrow> batch (phase s' v) = 16 \<and> length (remaining (phase s' v)) = 16) \<and>
     (\<forall>v < Suc w. phase s' v = phase t v) \<and> (\<forall>v \<ge> Suc w + m. phase s' v = Looping)"
    using Suc.prems(3-6) t(2,3) by (intro Suc.IH [OF Suc.prems(1) t(1)]) (auto dest: in_set_dropD)
  then obtain s' where s': "pool_reach p0 s'" "queued (pool s') = []"
    "is_stopping (pool s') = is_stopping (pool t)"
    "\<forall>v. Suc w \<le> v \<and> v < Suc w + m \<longrightarrow> batch (phase s' v) = 16 \<and> length (remaining (phase s' v)) = 16"
    "\<forall>v < Suc w. phase s' v = phase t v" "\<forall>v \<ge> Suc w + m. phase s' v = Looping"
    by blast
  have "batch (phase s' v) = 16 \<and> length (remaining (phase s' v)) = 16" if "w \<le> v" "v < w + Suc m" for v
  proof (cases "v = w")
    case True
    then show ?thesis using s'(5) t(3) len by simp
  next
    case False
    then show ?thesis using s'(4) that by simp
  qed
  moreover have "\<forall>v < w. phase s' v = phase s v" using s'(5) t(3) by simp
  ultimately show ?case using s' t(4) by (intro exI [of _ s']) simp
qed

text \<open>A full queue of bulk tasks, claimed by sixty-four workers.\<close>

lemma bulk_wave:
  assumes "Pool_new hw n 1024 = Inr p0" and "pool_reach p0 s" and "\<not> is_stopping (pool s)"
    and "queued (pool s) = []" and "w + 64 \<le> n" and "\<forall>v. w \<le> v \<longrightarrow> phase s v = Looping"
  shows "\<exists>s'. pool_reach p0 s' \<and> queued (pool s') = [] \<and> \<not> is_stopping (pool s') \<and>
     (\<forall>v. w \<le> v \<and> v < w + 64 \<longrightarrow> batch (phase s' v) = 16 \<and> length (remaining (phase s' v)) = 16) \<and>
     (\<forall>v < w. phase s' v = phase s v) \<and> (\<forall>v \<ge> w + 64. phase s' v = Looping)"
proof -
  note inv = system_invD(1) [OF pool_reach_inv [OF assms(1,2)]]
  let ?ts = "replicate 1024 undefined"
  have cap: "queue_capacity (pool s) = 1024"
    using pool_reach_limits [OF assms(2)] Pool_new_inv [OF assms(1)] by simp
  then obtain k p where b: "dispatch_bulk_round ?ts (pool s) = Bulk_moved k p"
    using dispatch_bulk_round_cases(1,2) [OF inv, of ?ts] assms(3,4)
    by (cases "dispatch_bulk_round ?ts (pool s)") auto
  note res = dispatch_bulk_round_cases(3) [OF inv b]
  let ?t = "accept p (map bulk_item (take k ?ts)) s"
  have q: "queued (pool ?t) = map bulk_item ?ts" and stop: "\<not> is_stopping (pool ?t)"
    using res assms(4) cap by (simp_all add: accept_def)
  have reach: "pool_reach p0 ?t" by (rule pool_reach.step [OF assms(2) calls [OF bulk_round [OF b]]])
  have ph: "phase ?t = phase s" by (simp add: accept_def)
  have "length (queued (pool ?t)) = 16 * 64" by (simp only: q) simp
  moreover have "\<forall>x \<in> set (queued (pool ?t)). bulk x" by (simp only: q) (simp add: bulk_item_def)
  ultimately show ?thesis
    using claims_in_turn [OF assms(1) reach _ _ assms(5)] assms(6) stop unfolding ph by simp
qed

text \<open>
  C18. The pool accepts 1024 workers, but with 128 of them sixteen-fold bulk claims overflow the
  eleven bits of the active count: a state is reachable in which 2048 tasks are claimed and not yet
  executed while \<open>active_tasks()\<close> is zero and \<open>is_idle()\<close> holds, so \<open>wait()\<close> returns at once.
\<close>

theorem idle_reported_with_2048_active_tasks:
  "\<exists>(p0 :: 'c Pool) s. Pool_new 0 128 1024 = Inr p0 \<and> pool_reach p0 s \<and> active s = 2048 \<and>
     length (live s) = 2048 \<and> active_tasks (pool s) = 0 \<and>
     is_idle (pool s)"
proof -
  obtain p0 :: "'c Pool" where p0: "Pool_new 0 128 1024 = Inr p0"
    by (simp add: Pool_new_def validate_queue_capacity_def max_queue_capacity_def max_worker_count_def)
  note fresh = Pool_new_inv [OF p0]
  have init: "\<not> is_stopping (pool (system_start p0))" "queued (pool (system_start p0)) = []"
    "\<forall>v. 0 \<le> v \<longrightarrow> phase (system_start p0) v = Looping"
    using fresh by (simp_all add: system_start_def)
  have "0 + 64 \<le> (128 :: nat)" and "64 + 64 \<le> (128 :: nat)" by simp_all
  note wave1 = bulk_wave [OF p0 start init(1,2) this(1) init(3)] and fits = this(2)
  obtain s1 where s1: "pool_reach p0 s1" "queued (pool s1) = []" "\<not> is_stopping (pool s1)"
    "\<forall>v. 0 \<le> v \<and> v < 0 + 64 \<longrightarrow> batch (phase s1 v) = 16 \<and> length (remaining (phase s1 v)) = 16"
    "\<forall>v \<ge> 0 + 64. phase s1 v = Looping"
    using wave1 by (elim exE conjE) (rule that)
  have "\<forall>v. 64 \<le> v \<longrightarrow> phase s1 v = Looping" using s1(5) by simp
  note wave2 = bulk_wave [OF p0 s1(1,3,2) fits this]
  obtain s2 where s2: "pool_reach p0 s2" "queued (pool s2) = []"
    "\<forall>v. 64 \<le> v \<and> v < 64 + 64 \<longrightarrow> batch (phase s2 v) = 16 \<and> length (remaining (phase s2 v)) = 16"
    "\<forall>v < 64. phase s2 v = phase s1 v"
    using wave2 by (elim exE conjE) (rule that)
  have each: "batch (phase s2 v) = 16 \<and> length (remaining (phase s2 v)) = 16" if "v < 128" for v
    using that s1(4) s2(3,4) by (cases "v < 64") auto
  have "worker_count (pool s2) = 128"
    using pool_reach_limits [OF s2(1)] p0 by (auto simp: Pool_new_def Let_def split: sum.splits if_splits)
  then have act: "active s2 = 2048" and live: "length (live s2) = 2048"
    using each by (simp_all add: summed_def length_gather)
  note obs = pool_observers [OF system_invD(1) [OF pool_reach_inv [OF p0 s2(1)]]]
  have "active_tasks (pool s2) = 0" and "is_idle (pool s2)"
    by (simp_all add: active_tasks_def is_idle_def obs act s2(2))
  with p0 s2(1) act live show ?thesis by (intro exI [of _ p0] exI [of _ s2]) simp
qed

end
