(* ===== verification/Pool_Machine.thy ===== *)
theory Pool_Machine
  imports Pool_Theorems
begin

text \<open>
  \<open>IndustrialWorkerPool\<close> at the granularity of its atomic operations: the loops in which workers,
  producers and callers of \<open>wait()\<close> block on \<open>queue_state_\<close> and \<open>completion_epoch_\<close>, the three counters
  of waiting threads that decide whether anybody is notified, the notifications themselves, the two
  queue mutexes while \<open>cancel_pending\<close> holds both, and the joins of \<open>shutdown\<close>. A thread is a program
  counter; a turn of a thread is one atomic operation or one critical section. The protocol of
  \<open>Pool_Protocol\<close> is embedded in the field \<open>sys\<close>.

  The atomics are sequentially consistent. \<open>std::atomic::wait\<close> and \<open>notify_one\<close> belong to the standard
  library: a blocked call is \<open>eligible\<close> for a notification when the atomic was modified after it
  blocked, \<open>notify_all\<close> unblocks every eligible call, \<open>notify_one\<close> at least one if there is one, and
  an unblocked call compares the value again. Which calls \<open>notify_one\<close> picks is the parameter \<open>nfy\<close>.
\<close>

section \<open>Waiting for a value of the state word\<close>

datatype thread = Worker nat | Client nat

type_synonym notify_one = "thread list \<Rightarrow> thread list \<Rightarrow> bool"

definition notify_one_contract :: "notify_one \<Rightarrow> bool" where
  "notify_one_contract nfy \<longleftrightarrow>
     (\<forall>E W. nfy E W \<longrightarrow> set W \<subseteq> set E \<and> (E \<noteq> [] \<longrightarrow> W \<noteq> [])) \<and> (\<forall>E. \<exists>W. nfy E W)"

definition wakes_one :: notify_one where
  "wakes_one E W = (case W of [] \<Rightarrow> E = [] | [t] \<Rightarrow> t \<in> set E | _ \<Rightarrow> False)"

definition wakes_every :: notify_one where
  "wakes_every E W \<longleftrightarrow> W = E"

text \<open>A place in the loop \<open>load; while (blocked) { ++counter; load; wait; --counter; load }\<close>. A blocked
  call remembers the value it waits on and how often the atomic had been modified.\<close>

datatype loop_point = Loading | Counting | Observing | Comparing u64 | Asleep u64 nat | Uncounting

datatype loop_move = Stays | Leaves_loop | Moves loop_point

fun loop_next :: "(u64 \<Rightarrow> bool) \<Rightarrow> u64 \<Rightarrow> nat \<Rightarrow> loop_point \<Rightarrow> loop_move" where
  "loop_next blocked state n Loading = (if blocked state then Moves Counting else Leaves_loop)"
| "loop_next blocked state n Counting = Moves Observing"
| "loop_next blocked state n Observing =
     Moves (if blocked state then Comparing state else Uncounting)"
| "loop_next blocked state n (Comparing v) = Moves (if state = v then Asleep v n else Uncounting)"
| "loop_next blocked state n (Asleep v k) = Stays"
| "loop_next blocked state n Uncounting = Moves Loading"

fun recount :: "loop_point \<Rightarrow> u64 \<Rightarrow> u64" where
  "recount Counting n = n + 1"
| "recount Uncounting n = n - 1"
| "recount _ n = n"

definition no_work :: "u64 \<Rightarrow> bool" where
  "no_work state \<longleftrightarrow> pending_from_state state = 0 \<and> \<not> is_stopping_state state"

definition no_room :: "nat \<Rightarrow> u64 \<Rightarrow> bool" where
  "no_room capacity state \<longleftrightarrow> \<not> is_stopping_state state \<and> pending_from_state state = capacity"

text \<open>The loop of \<open>wait()\<close>, which checks \<open>is_idle()\<close> and blocks on the epoch.\<close>

datatype idle_point = Idle_loading | Idle_counting | Idle_reading | Idle_rechecking u64
  | Idle_comparing u64 | Idle_asleep u64 nat | Idle_uncounting

datatype idle_move = Idle_stays | Idle_leaves | Idle_moves idle_point

fun idle_next :: "bool \<Rightarrow> u64 \<Rightarrow> nat \<Rightarrow> idle_point \<Rightarrow> idle_move" where
  "idle_next idle epoch n Idle_loading = (if idle then Idle_leaves else Idle_moves Idle_counting)"
| "idle_next idle epoch n Idle_counting = Idle_moves Idle_reading"
| "idle_next idle epoch n Idle_reading = Idle_moves (Idle_rechecking epoch)"
| "idle_next idle epoch n (Idle_rechecking e) =
     Idle_moves (if idle then Idle_uncounting else Idle_comparing e)"
| "idle_next idle epoch n (Idle_comparing e) =
     Idle_moves (if epoch = e then Idle_asleep e n else Idle_uncounting)"
| "idle_next idle epoch n (Idle_asleep e k) = Idle_stays"
| "idle_next idle epoch n Idle_uncounting = Idle_moves Idle_loading"

fun idle_recount :: "idle_point \<Rightarrow> u64 \<Rightarrow> u64" where
  "idle_recount Idle_counting n = n + 1"
| "idle_recount Idle_uncounting n = n - 1"
| "idle_recount _ n = n"

section \<open>Program counters and the state of the machine\<close>

text \<open>The three operations of \<open>notify_idle_waiters\<close>.\<close>

datatype notice = Checking | Bumping | Telling

datatype worker_pc = W_waiting loop_point | W_claiming | W_checking | W_notifying | W_executing
  | W_noticing notice | W_returned

text \<open>A submission (tracked by a future or not), or the rest of a bulk submission with the number of
  callbacks accepted so far.\<close>

datatype 'c request = Single "'c callback" bool | Bulk "'c list" nat

datatype reply = Done | Future nat | Refused std_exception | Count nat

text \<open>\<open>cancel_pending\<close> is called by \<open>clear_queue\<close> or by a shutdown, which comes from an owner (\<open>True\<close>)
  or from a worker.\<close>

datatype purpose = Clearing | Shutting bool

datatype cancelling = Reading_active | Noticing notice | Waking

datatype 'c client_pc =
    Returned reply
  | Space "'c request" loop_point
  | Inserting "'c request"
  | Checking_workers nat "'c request + reply"
  | Notifying_workers nat "'c request + reply"
  | Awaiting idle_point
  | Cancelling purpose
  | Cancel purpose nat cancelling
  | Locking ShutdownMode
  | Stopping ShutdownMode bool
  | Requesting bool
  | Signalling bool
  | Taking
  | Joining "nat list"

record 'c machine =
  sys :: "'c system"
  wpc :: "nat \<Rightarrow> worker_pc"
  cpc :: "nat \<Rightarrow> 'c client_pc"
  clients :: nat
  waiting_workers :: u64
  waiting_producers :: u64
  waiting_for_idle :: u64
  completion_epoch :: u64
  modified :: nat
  bumped :: nat

definition machine_start :: "'c Pool \<Rightarrow> nat \<Rightarrow> 'c machine" where
  "machine_start p n = \<lparr>sys = system_start p, wpc = (\<lambda>_. W_waiting Loading),
     cpc = (\<lambda>_. Returned Done), clients = n, waiting_workers = 0, waiting_producers = 0,
     waiting_for_idle = 0, completion_epoch = 0, modified = 0, bumped = 0\<rparr>"

abbreviation word_of :: "'c machine \<Rightarrow> u64" where
  "word_of m \<equiv> queue_state (pool (sys m))"

abbreviation worker_at :: "nat \<Rightarrow> worker_pc \<Rightarrow> 'c machine \<Rightarrow> 'c machine" where
  "worker_at w pc m \<equiv> m\<lparr>wpc := (wpc m)(w := pc)\<rparr>"

abbreviation client_at :: "nat \<Rightarrow> 'c client_pc \<Rightarrow> 'c machine \<Rightarrow> 'c machine" where
  "client_at c pc m \<equiv> m\<lparr>cpc := (cpc m)(c := pc)\<rparr>"

text \<open>An atomic update of \<open>queue_state_\<close> gives the new system and counts as a modification.\<close>

abbreviation updating :: "'c system \<Rightarrow> 'c machine \<Rightarrow> 'c machine" where
  "updating s m \<equiv> m\<lparr>sys := s, modified := Suc (modified m)\<rparr>"

section \<open>Notifications\<close>

fun blocked_since :: "loop_point \<Rightarrow> nat \<Rightarrow> bool" where
  "blocked_since (Asleep v k) n = (k < n)"
| "blocked_since _ n = False"

fun awaken :: "loop_point \<Rightarrow> loop_point" where
  "awaken (Asleep v k) = Comparing v"
| "awaken sec = sec"

fun awaken_idle :: "idle_point \<Rightarrow> idle_point" where
  "awaken_idle (Idle_asleep e k) = Idle_comparing e"
| "awaken_idle sec = sec"

fun worker_eligible :: "nat \<Rightarrow> worker_pc \<Rightarrow> bool" where
  "worker_eligible n (W_waiting sec) = blocked_since sec n"
| "worker_eligible n _ = False"

fun client_eligible :: "nat \<Rightarrow> 'c client_pc \<Rightarrow> bool" where
  "client_eligible n (Space rq sec) = blocked_since sec n"
| "client_eligible n _ = False"

definition eligible :: "'c machine \<Rightarrow> thread list" where
  "eligible m =
     map Worker (filter (\<lambda>w. worker_eligible (modified m) (wpc m w)) [0..<worker_count (pool (sys m))]) @
     map Client (filter (\<lambda>c. client_eligible (modified m) (cpc m c)) [0..<clients m])"

fun wake_worker :: "worker_pc \<Rightarrow> worker_pc" where
  "wake_worker (W_waiting sec) = W_waiting (awaken sec)"
| "wake_worker pc = pc"

fun wake_client :: "'c client_pc \<Rightarrow> 'c client_pc" where
  "wake_client (Space rq sec) = Space rq (awaken sec)"
| "wake_client pc = pc"

fun tell_client :: "nat \<Rightarrow> 'c client_pc \<Rightarrow> 'c client_pc" where
  "tell_client n (Awaiting (Idle_asleep e k)) =
     (if k < n then Awaiting (Idle_comparing e) else Awaiting (Idle_asleep e k))"
| "tell_client n pc = pc"

definition wake :: "thread list \<Rightarrow> 'c machine \<Rightarrow> 'c machine" where
  "wake W m = m\<lparr>wpc := (\<lambda>w. if Worker w \<in> set W then wake_worker (wpc m w) else wpc m w),
     cpc := (\<lambda>c. if Client c \<in> set W then wake_client (cpc m c) else cpc m c)\<rparr>"

definition wake_all :: "'c machine \<Rightarrow> 'c machine" where
  "wake_all m = wake (eligible m) m"

text \<open>\<open>notify_all\<close> on the epoch.\<close>

definition tell_idle :: "'c machine \<Rightarrow> 'c machine" where
  "tell_idle m = m\<lparr>cpc := (\<lambda>c. tell_client (bumped m) (cpc m c))\<rparr>"

text \<open>The turns of \<open>notify_idle_waiters\<close>: the machine, and where the notifier goes on (\<open>None\<close>: it
  returns).\<close>

fun notice_turn :: "notice \<Rightarrow> 'c machine \<Rightarrow> 'c machine \<times> notice option" where
  "notice_turn Checking m = (m, if waiting_for_idle m = 0 then None else Some Bumping)"
| "notice_turn Bumping m =
     (m\<lparr>completion_epoch := completion_epoch m + 1, bumped := Suc (bumped m)\<rparr>, Some Telling)"
| "notice_turn Telling m = (tell_idle m, None)"

section \<open>The turns of a worker\<close>

text \<open>The mutexes: \<open>cancel_pending\<close> holds both queue mutexes until it returns, an owner holds
  \<open>shutdown_mutex_\<close> from \<open>signal_shutdown\<close> to the last join.\<close>

fun holds_queue :: "'c client_pc \<Rightarrow> bool" where
  "holds_queue (Cancel pu n ca) = True"
| "holds_queue _ = False"

fun holds_shutdown :: "'c client_pc \<Rightarrow> bool" where
  "holds_shutdown (Stopping mode ext) = ext"
| "holds_shutdown (Cancelling (Shutting ext)) = ext"
| "holds_shutdown (Cancel (Shutting ext) n ca) = ext"
| "holds_shutdown (Requesting ext) = ext"
| "holds_shutdown (Signalling ext) = ext"
| "holds_shutdown Taking = True"
| "holds_shutdown (Joining ws) = True"
| "holds_shutdown _ = False"

definition queue_locked :: "'c machine \<Rightarrow> bool" where
  "queue_locked m \<longleftrightarrow> (\<exists>c \<in> set [0..<clients m]. holds_queue (cpc m c))"

definition shutdown_locked :: "'c machine \<Rightarrow> bool" where
  "shutdown_locked m \<longleftrightarrow> (\<exists>c \<in> set [0..<clients m]. holds_shutdown (cpc m c))"

definition worker_wait :: "nat \<Rightarrow> loop_point \<Rightarrow> 'c machine \<Rightarrow> 'c machine option" where
  "worker_wait w pt m =
     (case loop_next no_work (word_of m) (modified m) pt of
        Stays \<Rightarrow> None
      | Moves pt' \<Rightarrow> Some (worker_at w (W_waiting pt')
          (m\<lparr>waiting_workers := recount pt (waiting_workers m)\<rparr>))
      | Leaves_loop \<Rightarrow>
          if pending_from_state (word_of m) = 0
          then Some (worker_at w W_returned (m\<lparr>sys := (sys m)\<lparr>phase := (phase (sys m))(w := Exited)\<rparr>\<rparr>))
          else Some (worker_at w W_claiming m))"

definition worker_claim :: "nat \<Rightarrow> 'c machine \<Rightarrow> 'c machine option" where
  "worker_claim w m =
     (if queue_locked m then None
      else (case claim (pool (sys m)) of
        None \<Rightarrow> None
      | Some (items, p) \<Rightarrow>
          if items = [] then Some (worker_at w (W_waiting Loading) m)
          else Some (worker_at w W_checking (updating
            ((sys m)\<lparr>pool := p, phase := (phase (sys m))(w := Running items (length items)),
               taken := taken (sys m) @ map (\<lambda>x. (x, Claimed w)) items\<rparr>) m))))"

definition worker_check :: "nat \<Rightarrow> 'c machine \<Rightarrow> 'c machine option" where
  "worker_check w m =
     Some (worker_at w (if waiting_producers m \<noteq> 0 then W_notifying else W_executing) m)"

definition worker_notify :: "notify_one \<Rightarrow> thread list \<Rightarrow> nat \<Rightarrow> 'c machine \<Rightarrow> 'c machine option" where
  "worker_notify nfy W w m =
     (if nfy (eligible m) W then Some (worker_at w W_executing (wake W m)) else None)"

text \<open>Executing the next task of the batch, with outcome \<open>out\<close>, or finishing the batch.\<close>

definition worker_execute :: "outcome \<Rightarrow> nat \<Rightarrow> 'c machine \<Rightarrow> 'c machine option" where
  "worker_execute out w m =
     (case phase (sys m) w of
        Running (x # xs) k \<Rightarrow>
          (case account x out (pool (sys m)) of
             None \<Rightarrow> None
           | Some p \<Rightarrow> Some (m\<lparr>sys := (sys m)\<lparr>pool := p, phase := (phase (sys m))(w := Running xs k),
               executed := executed (sys m) @ [(x, out)]\<rparr>\<rparr>))
      | Running [] k \<Rightarrow>
          (case finish_tasks k (pool (sys m)) of
             (notify, p) \<Rightarrow> Some (worker_at w (if notify then W_noticing Checking else W_waiting Loading)
               (updating ((sys m)\<lparr>pool := p, phase := (phase (sys m))(w := Looping)\<rparr>) m)))
      | _ \<Rightarrow> None)"

definition worker_notice :: "nat \<Rightarrow> notice \<Rightarrow> 'c machine \<Rightarrow> 'c machine option" where
  "worker_notice w nt m =
     (case notice_turn nt m of
        (m', next) \<Rightarrow> Some (worker_at w
          (case next of None \<Rightarrow> W_waiting Loading | Some nt' \<Rightarrow> W_noticing nt') m'))"

definition worker_turn ::
  "notify_one \<Rightarrow> outcome \<Rightarrow> thread list \<Rightarrow> nat \<Rightarrow> 'c machine \<Rightarrow> 'c machine option" where
  "worker_turn nfy out W w m =
     (case wpc m w of
        W_waiting pt \<Rightarrow> worker_wait w pt m
      | W_claiming \<Rightarrow> worker_claim w m
      | W_checking \<Rightarrow> worker_check w m
      | W_notifying \<Rightarrow> worker_notify nfy W w m
      | W_executing \<Rightarrow> worker_execute out w m
      | W_noticing nt \<Rightarrow> worker_notice w nt m
      | W_returned \<Rightarrow> None)"

section \<open>The turns of a client\<close>

text \<open>What a submission that finds the pool stopping returns or throws.\<close>

fun refusal :: "'c request \<Rightarrow> reply" where
  "refusal (Single c tr) = Refused after_shutdown"
| "refusal (Bulk ts acc) = Count acc"

datatype 'c insertion = Insert_refused reply | Insert_full
  | Inserted nat "'c TaskItem list" "'c Pool" "'c request + reply"

definition insert_single :: "'c callback \<Rightarrow> bool \<Rightarrow> 'c Pool \<Rightarrow> 'c insertion" where
  "insert_single c tr p =
     (if tr then
        (case submit_tracked c p of
           Blocked \<Rightarrow> Insert_full
         | Threw e \<Rightarrow> Insert_refused (Refused e)
         | Accepted (i, p') \<Rightarrow> Inserted 1 [tracked c p] p' (Inr (Future i)))
      else
        (case enqueue (fire_and_forget c) p of
           Blocked \<Rightarrow> Insert_full
         | Threw e \<Rightarrow> Insert_refused (Refused e)
         | Accepted p' \<Rightarrow> Inserted 1 [fire_and_forget c] p' (Inr Done)))"

definition insert_bulk :: "'c list \<Rightarrow> nat \<Rightarrow> 'c Pool \<Rightarrow> 'c insertion" where
  "insert_bulk ts acc p =
     (case dispatch_bulk_round ts p of
        Bulk_stopped \<Rightarrow> Insert_refused (Count acc)
      | Bulk_blocked \<Rightarrow> Insert_full
      | Bulk_moved k p' \<Rightarrow> Inserted k (map bulk_item (take k ts)) p'
          (if k < length ts then Inl (Bulk (drop k ts) (acc + k)) else Inr (Count (acc + k))))"

fun insert_request :: "'c request \<Rightarrow> 'c Pool \<Rightarrow> 'c insertion" where
  "insert_request (Single c tr) p = insert_single c tr p"
| "insert_request (Bulk ts acc) p = insert_bulk ts acc p"

definition resume :: "'c request + reply \<Rightarrow> 'c client_pc" where
  "resume next = (case next of Inl rq \<Rightarrow> Space rq Loading | Inr r \<Rightarrow> Returned r)"

definition client_space :: "nat \<Rightarrow> 'c request \<Rightarrow> loop_point \<Rightarrow> 'c machine \<Rightarrow> 'c machine option" where
  "client_space c rq pt m =
     (case loop_next (no_room (queue_capacity (pool (sys m)))) (word_of m) (modified m) pt of
        Stays \<Rightarrow> None
      | Moves pt' \<Rightarrow> Some (client_at c (Space rq pt')
          (m\<lparr>waiting_producers := recount pt (waiting_producers m)\<rparr>))
      | Leaves_loop \<Rightarrow> Some (client_at c
          (if is_stopping_state (word_of m) then Returned (refusal rq) else Inserting rq) m))"

definition client_insert :: "nat \<Rightarrow> 'c request \<Rightarrow> 'c machine \<Rightarrow> 'c machine option" where
  "client_insert c rq m =
     (if queue_locked m then None
      else (case insert_request rq (pool (sys m)) of
        Insert_refused r \<Rightarrow> Some (client_at c (Returned r) m)
      | Insert_full \<Rightarrow> Some (client_at c (Space rq Loading) m)
      | Inserted k items p next \<Rightarrow>
          Some (client_at c (Checking_workers k next) (updating (accept p items (sys m)) m))))"

definition client_check :: "nat \<Rightarrow> nat \<Rightarrow> 'c request + reply \<Rightarrow> 'c machine \<Rightarrow> 'c machine option" where
  "client_check c k next m =
     Some (client_at c (if waiting_workers m \<noteq> 0 then Notifying_workers k next else resume next) m)"

definition client_notify ::
  "notify_one \<Rightarrow> thread list \<Rightarrow> nat \<Rightarrow> nat \<Rightarrow> 'c request + reply \<Rightarrow> 'c machine \<Rightarrow> 'c machine option" where
  "client_notify nfy W c k next m =
     (if k = 1 then (if nfy (eligible m) W then Some (client_at c (resume next) (wake W m)) else None)
      else Some (client_at c (resume next) (wake_all m)))"

definition client_await :: "nat \<Rightarrow> idle_point \<Rightarrow> 'c machine \<Rightarrow> 'c machine option" where
  "client_await c pt m =
     (case idle_next (is_idle (pool (sys m))) (completion_epoch m) (bumped m) pt of
        Idle_stays \<Rightarrow> None
      | Idle_leaves \<Rightarrow> Some (client_at c (Returned Done) m)
      | Idle_moves pt' \<Rightarrow> Some (client_at c (Awaiting pt')
          (m\<lparr>waiting_for_idle := idle_recount pt (waiting_for_idle m)\<rparr>)))"

fun after_cancel :: "purpose \<Rightarrow> nat \<Rightarrow> 'c client_pc" where
  "after_cancel Clearing n = Returned (Count n)"
| "after_cancel (Shutting ext) n = Requesting ext"

definition client_cancel :: "nat \<Rightarrow> purpose \<Rightarrow> 'c machine \<Rightarrow> 'c machine option" where
  "client_cancel c pu m =
     (if queue_locked m then None
      else (case cancel_pending (pool (sys m)) of
        None \<Rightarrow> None
      | Some (n, p) \<Rightarrow>
          if n = 0 then Some (client_at c (after_cancel pu 0) (m\<lparr>sys := cancel_all p (sys m)\<rparr>))
          else Some (client_at c (Cancel pu n Reading_active) (updating (cancel_all p (sys m)) m))))"

definition client_cancelling ::
  "nat \<Rightarrow> purpose \<Rightarrow> nat \<Rightarrow> cancelling \<Rightarrow> 'c machine \<Rightarrow> 'c machine option" where
  "client_cancelling c pu n ca m =
     (case ca of
        Reading_active \<Rightarrow> Some (client_at c (Cancel pu n
          (if active_from_state (word_of m) = 0 then Noticing Checking else Waking)) m)
      | Noticing nt \<Rightarrow>
          (case notice_turn nt m of
             (m', next) \<Rightarrow> Some (client_at c (Cancel pu n
               (case next of None \<Rightarrow> Waking | Some nt' \<Rightarrow> Noticing nt')) m'))
      | Waking \<Rightarrow> Some (client_at c (after_cancel pu n) (wake_all m)))"

text \<open>The turns of \<open>shutdown\<close> (or of \<open>signal_shutdown\<close> alone, when a worker calls it).\<close>

definition client_lock :: "nat \<Rightarrow> ShutdownMode \<Rightarrow> 'c machine \<Rightarrow> 'c machine option" where
  "client_lock c mode m = (if shutdown_locked m then None else Some (client_at c (Stopping mode True) m))"

definition set_stopping :: "'c system \<Rightarrow> 'c system" where
  "set_stopping s = s\<lparr>pool := (pool s)\<lparr>queue_state := queue_state (pool s) OR stopping_mask\<rparr>\<rparr>"

definition client_stop :: "nat \<Rightarrow> ShutdownMode \<Rightarrow> bool \<Rightarrow> 'c machine \<Rightarrow> 'c machine option" where
  "client_stop c mode ext m =
     (if queue_locked m then None
      else Some (client_at c
        (if mode = CANCEL_PENDING then Cancelling (Shutting ext) else Signalling ext)
        (updating (set_stopping (sys m)) m)))"

definition client_request :: "nat \<Rightarrow> bool \<Rightarrow> 'c machine \<Rightarrow> 'c machine option" where
  "client_request c ext m = Some (client_at c (Signalling ext)
     (m\<lparr>sys := (sys m)\<lparr>pool := request_stop (pool (sys m))\<rparr>\<rparr>))"

definition client_signal :: "nat \<Rightarrow> bool \<Rightarrow> 'c machine \<Rightarrow> 'c machine option" where
  "client_signal c ext m =
     Some (client_at c (if ext then Taking else Returned Done) (wake_all m))"

definition client_take :: "nat \<Rightarrow> 'c machine \<Rightarrow> 'c machine option" where
  "client_take c m = Some (client_at c (Joining (workers (pool (sys m))))
     (m\<lparr>sys := (sys m)\<lparr>pool := (pool (sys m))\<lparr>workers := []\<rparr>\<rparr>\<rparr>))"

definition client_join :: "nat \<Rightarrow> nat list \<Rightarrow> 'c machine \<Rightarrow> 'c machine option" where
  "client_join c ws m =
     (case ws of
        [] \<Rightarrow> Some (client_at c (Returned Done) m)
      | w # ws' \<Rightarrow> if wpc m w = W_returned then Some (client_at c (Joining ws') m) else None)"

definition client_turn :: "notify_one \<Rightarrow> thread list \<Rightarrow> nat \<Rightarrow> 'c machine \<Rightarrow> 'c machine option" where
  "client_turn nfy W c m =
     (case cpc m c of
        Returned r \<Rightarrow> None
      | Space rq pt \<Rightarrow> client_space c rq pt m
      | Inserting rq \<Rightarrow> client_insert c rq m
      | Checking_workers k next \<Rightarrow> client_check c k next m
      | Notifying_workers k next \<Rightarrow> client_notify nfy W c k next m
      | Awaiting pt \<Rightarrow> client_await c pt m
      | Cancelling pu \<Rightarrow> client_cancel c pu m
      | Cancel pu n ca \<Rightarrow> client_cancelling c pu n ca m
      | Locking mode \<Rightarrow> client_lock c mode m
      | Stopping mode ext \<Rightarrow> client_stop c mode ext m
      | Requesting ext \<Rightarrow> client_request c ext m
      | Signalling ext \<Rightarrow> client_signal c ext m
      | Taking \<Rightarrow> client_take c m
      | Joining ws \<Rightarrow> client_join c ws m)"

section \<open>Runs of the machine\<close>

text \<open>The calls of the public interface that can block or notify, and where they begin.\<close>

datatype 'c call = Call_submit 'c | Call_submit_cancellable 'c | Call_dispatch 'c
  | Call_dispatch_cancellable 'c | Call_dispatch_bulk "'c list" | Call_wait | Call_clear_queue
  | Call_shutdown ShutdownMode | Call_shutdown_from_worker ShutdownMode

fun call_entry :: "'c call \<Rightarrow> 'c client_pc" where
  "call_entry (Call_submit c) = Space (Single (Task c) True) Loading"
| "call_entry (Call_submit_cancellable c) = Space (Single (CancellableTask c) True) Loading"
| "call_entry (Call_dispatch c) = Space (Single (Task c) False) Loading"
| "call_entry (Call_dispatch_cancellable c) = Space (Single (CancellableTask c) False) Loading"
| "call_entry (Call_dispatch_bulk ts) = (if ts = [] then Returned (Count 0) else Space (Bulk ts 0) Loading)"
| "call_entry Call_wait = Awaiting Idle_loading"
| "call_entry Call_clear_queue = Cancelling Clearing"
| "call_entry (Call_shutdown mode) = Locking mode"
| "call_entry (Call_shutdown_from_worker mode) = Stopping mode False"

definition begin_call :: "'c call \<Rightarrow> nat \<Rightarrow> 'c machine \<Rightarrow> 'c machine option" where
  "begin_call cl c m =
     (case cpc m c of Returned r \<Rightarrow> Some (client_at c (call_entry cl) m) | _ \<Rightarrow> None)"

text \<open>The turns of the threads inside the pool; the beginning of a call; and a spurious wake-up.\<close>

inductive thread_step :: "notify_one \<Rightarrow> 'c machine \<Rightarrow> 'c machine \<Rightarrow> bool" for nfy :: notify_one where
  worker_turns: "w < worker_count (pool (sys m)) \<Longrightarrow> worker_turn nfy out W w m = Some m' \<Longrightarrow>
     thread_step nfy m m'"
| client_turns: "c < clients m \<Longrightarrow> client_turn nfy W c m = Some m' \<Longrightarrow> thread_step nfy m m'"

inductive machine_step :: "notify_one \<Rightarrow> 'c machine \<Rightarrow> 'c machine \<Rightarrow> bool" for nfy :: notify_one where
  turns: "thread_step nfy m m' \<Longrightarrow> machine_step nfy m m'"
| begins: "c < clients m \<Longrightarrow> begin_call cl c m = Some m' \<Longrightarrow> machine_step nfy m m'"
| wakes_up: "machine_step nfy m (wake [t] m)"
| idle_wakes_up: "cpc m c = Awaiting (Idle_asleep e k) \<Longrightarrow>
     machine_step nfy m (client_at c (Awaiting (Idle_comparing e)) m)"

inductive machine_reach :: "notify_one \<Rightarrow> 'c Pool \<Rightarrow> nat \<Rightarrow> 'c machine \<Rightarrow> bool"
  for nfy :: notify_one and p0 :: "'c Pool" and n :: nat where
  power_on: "machine_reach nfy p0 n (machine_start p0 n)"
| advance: "machine_reach nfy p0 n m \<Longrightarrow> machine_step nfy m m' \<Longrightarrow> machine_reach nfy p0 n m'"

text \<open>Nothing moves unless a new call begins or a blocked thread wakes up spuriously.\<close>

definition quiescent :: "notify_one \<Rightarrow> 'c machine \<Rightarrow> bool" where
  "quiescent nfy m \<longleftrightarrow> (\<nexists>m'. thread_step nfy m m')"

end
