(* ===== verification/Machine_Invariant.thy ===== *)
theory Machine_Invariant
  imports Pool_Machine
begin

text \<open>
  What every reachable state of the machine satisfies: it simulates the pool protocol; the three
  counters are the numbers of threads in the waiting loops; a blocked thread waits on a value that
  justifies blocking, and whenever that value is out of date in a way that matters, some thread is on
  its way to a notification.
\<close>

section \<open>The machine simulates the protocol\<close>

lemmas worker_turn_defs = worker_turn_def worker_wait_def worker_claim_def worker_check_def
  worker_notify_def worker_execute_def worker_notice_def

lemmas client_turn_defs = client_turn_def client_space_def client_insert_def client_check_def
  client_notify_def client_await_def client_cancel_def client_cancelling_def client_lock_def
  client_stop_def client_request_def client_signal_def client_take_def client_join_def

lemmas insert_defs = insert_single_def insert_bulk_def

lemma wake_frame [simp]:
  "sys (wake W m) = sys m" "clients (wake W m) = clients m" "modified (wake W m) = modified m"
  "bumped (wake W m) = bumped m" "completion_epoch (wake W m) = completion_epoch m"
  "waiting_workers (wake W m) = waiting_workers m" "waiting_producers (wake W m) = waiting_producers m"
  "waiting_for_idle (wake W m) = waiting_for_idle m"
  "sys (wake_all m) = sys m" "clients (wake_all m) = clients m" "modified (wake_all m) = modified m"
  "bumped (wake_all m) = bumped m" "completion_epoch (wake_all m) = completion_epoch m"
  "waiting_workers (wake_all m) = waiting_workers m" "waiting_producers (wake_all m) = waiting_producers m"
  "waiting_for_idle (wake_all m) = waiting_for_idle m"
  by (simp_all add: wake_all_def wake_def)

lemma tell_frame [simp]:
  "sys (tell_idle m) = sys m" "clients (tell_idle m) = clients m" "modified (tell_idle m) = modified m"
  "bumped (tell_idle m) = bumped m" "completion_epoch (tell_idle m) = completion_epoch m"
  "waiting_workers (tell_idle m) = waiting_workers m" "waiting_producers (tell_idle m) = waiting_producers m"
  "waiting_for_idle (tell_idle m) = waiting_for_idle m" "wpc (tell_idle m) = wpc m"
  by (simp_all add: tell_idle_def)

lemma notice_frame:
  "notice_turn nt m = (m', next) \<Longrightarrow> sys m' = sys m \<and> clients m' = clients m \<and> wpc m' = wpc m \<and>
     modified m' = modified m \<and> waiting_workers m' = waiting_workers m \<and>
     waiting_producers m' = waiting_producers m \<and> waiting_for_idle m' = waiting_for_idle m"
  by (cases nt) auto

text \<open>The program counter of a worker agrees with its phase; shutdown goes on only after the stopping
  bit is set; and nothing is queued while \<open>cancel_pending\<close> holds the queue, nor before stop is
  requested.\<close>

definition in_batch :: "'c worker_phase \<Rightarrow> bool" where
  "in_batch ph \<longleftrightarrow> (case ph of Running xs k \<Rightarrow> True | _ \<Rightarrow> False)"

fun agrees :: "worker_pc \<Rightarrow> 'c worker_phase \<Rightarrow> bool" where
  "agrees (W_waiting pt) ph \<longleftrightarrow> ph = Looping"
| "agrees W_claiming ph \<longleftrightarrow> ph = Looping"
| "agrees W_checking ph \<longleftrightarrow> in_batch ph"
| "agrees W_notifying ph \<longleftrightarrow> in_batch ph"
| "agrees W_executing ph \<longleftrightarrow> in_batch ph"
| "agrees (W_noticing nt) ph \<longleftrightarrow> ph = Looping"
| "agrees W_returned ph \<longleftrightarrow> ph = Exited"

lemma in_batch_simps [simp]: "in_batch (Running xs k)" "\<not> in_batch Looping" "\<not> in_batch Exited"
  by (simp_all add: in_batch_def)

fun past_stop :: "'c client_pc \<Rightarrow> bool" where
  "past_stop (Cancelling (Shutting ext)) = True"
| "past_stop (Cancel (Shutting ext) n ca) = True"
| "past_stop (Requesting ext) = True"
| "past_stop (Signalling ext) = True"
| "past_stop Taking = True"
| "past_stop (Joining ws) = True"
| "past_stop _ = False"

fun past_cancel :: "'c client_pc \<Rightarrow> bool" where
  "past_cancel (Cancel pu n ca) = True"
| "past_cancel (Requesting ext) = True"
| "past_cancel _ = False"

definition linked :: "'c machine \<Rightarrow> bool" where
  "linked m \<longleftrightarrow> system_inv (sys m) \<and> (\<forall>w. agrees (wpc m w) (phase (sys m) w)) \<and>
     (\<forall>c. past_stop (cpc m c) \<longrightarrow> c < clients m \<and> is_stopping (pool (sys m))) \<and>
     (\<forall>c. past_cancel (cpc m c) \<longrightarrow> c < clients m \<and> queued (pool (sys m)) = [])"

lemma agrees_wake [simp]: "agrees (wake_worker pc) ph = agrees pc ph"
  by (cases pc) auto

lemma past_wake [simp]:
  "past_stop (wake_client pc) = past_stop pc" "past_cancel (wake_client pc) = past_cancel pc"
  by (cases pc; simp)+

lemma past_tell [simp]:
  "past_stop (tell_client n pc) = past_stop pc" "past_cancel (tell_client n pc) = past_cancel pc"
  by (induction n pc rule: tell_client.induct) auto

lemma linkedD:
  assumes "linked m"
  shows "system_inv (sys m)" and "pool_inv (active (sys m)) (live (sys m)) (pool (sys m))"
    and "agrees (wpc m w) (phase (sys m) w)"
    and "past_stop (cpc m c) \<Longrightarrow> is_stopping (pool (sys m))"
    and "past_cancel (cpc m c) \<Longrightarrow> queued (pool (sys m)) = []"
  using assms system_invD(1) by (auto simp: linked_def)

lemma linkedD_word:
  assumes "linked m"
  shows "pending_from_state (word_of m) = length (queued (pool (sys m)))"
    and "is_stopping_state (word_of m) = is_stopping (pool (sys m))"
    and "active_from_state (word_of m) = active (sys m) mod 2048"
    and "length (queued (pool (sys m))) \<le> queue_capacity (pool (sys m))"
    and "0 < queue_capacity (pool (sys m))"
  using pool_observers [OF linkedD(2) [OF assms]] linkedD(2) [OF assms] by (auto simp: pool_inv_def)

lemma request_stop_step:
  assumes "pool_inv a xs p" and "is_stopping p" and "queued p = []"
  shows "signal_shutdown CANCEL_PENDING p = Some (request_stop p)"
proof -
  obtain n where n: "queue_state p = packed n a (is_stopping p)" "ring_ok (slots p, n)" "in_range n a"
    "length (queued p) = n"
    using pool_state [OF assms(1)] by metis
  have word: "queue_state p OR stopping_mask = queue_state p" using n packed_stop assms(2) by simp
  have "(slots p)\<lparr>queue_tail := queue_head (slots p)\<rparr> = slots p"
    using ring_okD(1,3) [OF n(2)] n(4) assms(3) by (simp add: slot_def)
  moreover have "pending_from_state (queue_state p) = 0"
    using pool_observers(1) [OF assms(1)] assms(3) by simp
  ultimately have "cancel_pending p = Some (0, p)"
    by (simp add: cancel_pending_def Let_def)
  then show ?thesis by (simp add: signal_shutdown_def Let_def word)
qed

lemma worker_turn_simulates:
  assumes "worker_turn nfy out W w m = Some m'" and "w < worker_count (pool (sys m))" and "linked m"
  shows "sys m' = sys m \<or> worker_step (sys m) (sys m')"
proof (cases "wpc m w")
  case (W_waiting pt)
  with linkedD(3) [OF assms(3), of w] have "phase (sys m) w = Looping" by simp
  moreover have "is_stopping_state (word_of m)" if "loop_next no_work (word_of m) k pt = Leaves_loop"
    "pending_from_state (word_of m) = 0" for k
    using that by (cases pt) (auto simp: no_work_def split: if_splits)
  ultimately show ?thesis
    using W_waiting assms(1) exits [OF assms(2)] linkedD_word(2) [OF assms(3)]
    by (auto simp: worker_turn_defs pending_tasks_def split: loop_move.splits if_splits)
next
  case W_claiming
  with linkedD(3) [OF assms(3), of w] have "phase (sys m) w = Looping" by simp
  with W_claiming assms(1) claims [OF assms(2)] show ?thesis
    by (auto simp: worker_turn_defs split: if_splits option.splits)
next
  case W_executing
  with assms(1) executes [OF assms(2)] finishes [OF assms(2)] show ?thesis
    by (auto simp: worker_turn_defs split: worker_phase.splits list.splits option.splits prod.splits)
next
  case (W_noticing nt)
  with assms(1) notice_frame [of nt m] show ?thesis
    by (auto simp: worker_turn_defs split: prod.splits)
qed (use assms(1) in \<open>auto simp: worker_turn_defs split: if_splits\<close>)

lemma client_turn_simulates:
  assumes "client_turn nfy W c m = Some m'" and "linked m"
  shows "sys m' = sys m \<or> client_step (sys m) (sys m')"
proof (cases "cpc m c")
  case (Inserting rq)
  show ?thesis
  proof (cases rq)
    case (Single cb tr)
    with Inserting assms(1) show ?thesis
      using submits [of _ "sys m"] dispatches [of _ "sys m"]
      by (auto simp: client_turn_defs insert_defs split: if_splits submission.splits)
  next
    case (Bulk ts acc)
    show ?thesis
    proof (cases "dispatch_bulk_round ts (pool (sys m))")
      case (Bulk_moved k p)
      from bulk_round [OF this] Inserting Bulk Bulk_moved assms(1) show ?thesis
        by (auto simp: client_turn_defs insert_defs split: if_splits)
    qed (use Inserting Bulk assms(1) in \<open>auto simp: client_turn_defs insert_defs split: if_splits\<close>)
  qed
next
  case (Cancelling pu)
  with assms(1) clears [of "sys m"] show ?thesis
    by (auto simp: client_turn_defs clear_queue_def split: if_splits option.splits)
next
  case (Cancel pu n ca)
  with assms(1) notice_frame [of _ m] show ?thesis
    by (cases ca) (auto simp: client_turn_defs split: prod.splits)
next
  case (Stopping mode ext)
  have "client_step (sys m) (set_stopping (sys m))"
    using drains [of "sys m"] by (simp add: signal_shutdown_def set_stopping_def Let_def)
  with Stopping assms(1) show ?thesis by (auto simp: client_turn_defs split: if_splits)
next
  case (Requesting ext)
  have "signal_shutdown CANCEL_PENDING (pool (sys m)) = Some (request_stop (pool (sys m)))"
    using linkedD(4,5) [OF assms(2), of c] Requesting by (intro request_stop_step [OF linkedD(2) [OF assms(2)]]) simp_all
  from cancels [OF this] have "client_step (sys m) (cancel_all (request_stop (pool (sys m))) (sys m))" .
  moreover have "cancel_all (request_stop (pool (sys m))) (sys m) = (sys m)\<lparr>pool := request_stop (pool (sys m))\<rparr>"
    using linkedD(5) [OF assms(2), of c] Requesting by (simp add: cancel_all_def)
  ultimately show ?thesis using Requesting assms(1) by (auto simp: client_turn_defs)
next
  case Taking
  with linkedD(4) [OF assms(2), of c] have "is_stopping (pool (sys m))" by simp
  from takes_threads [OF this] Taking assms(1) show ?thesis by (auto simp: client_turn_defs)
qed (use assms(1) in \<open>auto simp: client_turn_defs split: if_splits loop_move.splits idle_move.splits list.splits\<close>)


lemma worker_step_empty:
  "worker_step s s' \<Longrightarrow> system_inv s \<Longrightarrow> queued (pool s) = [] \<Longrightarrow> queued (pool s') = []"
proof (induction rule: worker_step.induct)
  case (claims w s items p)
  then show ?case using claim_result(1) by blast
next
  case (executes w s x xs k out p)
  then show ?case
    by (auto simp: account_def queued_def split: option.splits if_splits)
next
  case (finishes w s k notify p)
  then show ?case using finish_result(2) by fastforce
qed simp

lemma client_step_empty:
  assumes "client_step s s'" and "system_inv s" and "queued (pool s) = []" and "accepted s' = accepted s"
  shows "queued (pool s') = []"
proof -
  have "\<exists>ts. taken s' = taken s @ ts"
    using assms(1) by (induction rule: client_step.induct) (auto simp: accept_def cancel_all_def)
  moreover have "accepted s' = map fst (taken s') @ queued (pool s')"
    using system_invD(4) [OF client_step_inv [OF assms(1,2)]] .
  ultimately show ?thesis using system_invD(4) [OF assms(2)] assms(3,4) by auto
qed

lemma worker_turn_linked:
  assumes "worker_turn nfy out W w m = Some m'" and "w < worker_count (pool (sys m))" and "linked m"
  shows "linked m'"
proof -
  note sim = worker_turn_simulates [OF assms] and inv = linkedD(1) [OF assms(3)]
  have cpc: "past_stop (cpc m' c) = past_stop (cpc m c)" "past_cancel (cpc m' c) = past_cancel (cpc m c)"
    "clients m' = clients m" for c
    using assms(1)
    by (auto simp: worker_turn_defs wake_def tell_idle_def split: worker_pc.splits loop_move.splits if_splits
        option.splits prod.splits worker_phase.splits list.splits elim!: notice_turn.elims)
  have wpc: "agrees (wpc m' v) (phase (sys m') v)" for v
    using assms(1) linkedD(3) [OF assms(3), of v] linkedD(3) [OF assms(3), of w]
    by (auto simp: worker_turn_defs wake_def tell_idle_def split: worker_pc.splits loop_move.splits if_splits
        option.splits prod.splits worker_phase.splits list.splits elim!: notice_turn.elims)
  show ?thesis
    using sim worker_step_inv [OF _ inv] worker_step_stopping [OF _ inv] worker_step_empty [OF _ inv]
      cpc wpc assms(3) unfolding linked_def by metis
qed


lemma insert_stopping:
  assumes "is_stopping_state (queue_state p)"
  shows "\<exists>r. insert_request rq p = Insert_refused r"
  using assms
  by (cases rq) (auto simp: insert_defs submit_tracked_def enqueue_def with_promise_def dispatch_bulk_round_def Let_def)

text \<open>The program counters of the other clients change only by waking up.\<close>

lemma client_turn_others:
  assumes "client_turn nfy W c m = Some m'" and "d \<noteq> c"
  shows "cpc m' d = cpc m d \<or> cpc m' d = wake_client (cpc m d) \<or> cpc m' d = tell_client (bumped m) (cpc m d)"
  using assms
  by (auto simp: client_turn_defs wake_all_def wake_def tell_idle_def split: client_pc.splits loop_move.splits
      if_splits option.splits prod.splits insertion.splits idle_move.splits cancelling.splits list.splits
      elim!: notice_turn.elims)

lemma client_turn_frame:
  assumes "client_turn nfy W c m = Some m'"
  shows "clients m' = clients m"
    and "wpc m' v = wpc m v \<or> wpc m' v = wake_worker (wpc m v)"
    and "agrees (wpc m v) (phase (sys m) v) \<Longrightarrow> agrees (wpc m' v) (phase (sys m') v)"
  using assms
  by (auto simp: client_turn_defs wake_all_def wake_def tell_idle_def accept_def cancel_all_def set_stopping_def
      split: client_pc.splits loop_move.splits if_splits option.splits prod.splits insertion.splits
      idle_move.splits cancelling.splits list.splits elim!: notice_turn.elims)


lemma queue_locked_iff: "queue_locked m \<longleftrightarrow> (\<exists>c < clients m. holds_queue (cpc m c))"
  by (auto simp: queue_locked_def)

lemma client_turn_accepted:
  assumes "client_turn nfy W c m = Some m'" and "linked m" and "past_cancel (cpc m d)"
  shows "accepted (sys m') = accepted (sys m)"
proof (cases "cpc m d")
  case (Cancel pu n ca)
  then have "queue_locked m"
    using assms(2,3) by (auto simp: queue_locked_iff linked_def intro!: exI [of _ d])
  with assms(1) show ?thesis
    by (auto simp: client_turn_defs cancel_all_def split: client_pc.splits loop_move.splits if_splits
        prod.splits idle_move.splits cancelling.splits list.splits elim!: notice_turn.elims)
next
  case (Requesting ext)
  with linkedD(4) [OF assms(2), of d] have "is_stopping (pool (sys m))" by simp
  with client_turn_simulates [OF assms(1,2)] client_step_stopping [OF _ linkedD(1) [OF assms(2)]]
  show ?thesis by auto
qed (use assms(3) in simp_all)

lemma cancel_turn_empties:
  assumes "client_turn nfy W c m = Some m'" and "linked m" and "past_cancel (cpc m' c)"
  shows "past_cancel (cpc m c) \<or> queued (pool (sys m')) = []"
proof (cases "cpc m c")
  case (Cancelling pu)
  obtain p where "cancel_pending (pool (sys m)) = Some (length (queued (pool (sys m))), p)" "queued p = []"
    using cancel_pending_effect [OF linkedD(2) [OF assms(2)]] by metis
  with Cancelling assms(1) show ?thesis
    by (auto simp: client_turn_defs cancel_all_def split: if_splits)
next
  case (Cancel pu n ca)
  then show ?thesis by simp
next
  case (Requesting ext)
  then show ?thesis by simp
qed (use assms in \<open>auto simp: client_turn_defs resume_def wake_all_def wake_def
      split: loop_move.splits if_splits option.splits insertion.splits
      idle_move.splits sum.splits list.splits\<close>)

lemma stop_turn_stops:
  assumes "client_turn nfy W c m = Some m'" and "linked m" and "past_stop (cpc m' c)"
  shows "past_stop (cpc m c) \<or> is_stopping (pool (sys m'))"
proof (cases "cpc m c")
  case (Stopping mode ext)
  with assms(1) signal_stop(3) [OF linkedD(2) [OF assms(2)]] show ?thesis
    by (auto simp: client_turn_defs set_stopping_def split: if_splits)
next
  case (Cancelling pu)
  with assms(1,3) show ?thesis
    by (cases pu) (auto simp: client_turn_defs split: if_splits option.splits)
next
  case (Cancel pu n ca)
  with assms(1,3) show ?thesis
    by (cases pu) (auto simp: client_turn_defs split: cancelling.splits prod.splits)
qed (use assms in \<open>auto simp: client_turn_defs resume_def wake_all_def wake_def
      split: loop_move.splits if_splits option.splits insertion.splits
      idle_move.splits sum.splits list.splits\<close>)

lemma client_turn_linked:
  assumes "client_turn nfy W c m = Some m'" and "c < clients m" and "linked m"
  shows "linked m'"
proof -
  note inv = linkedD(1) [OF assms(3)] and sim = client_turn_simulates [OF assms(1,3)]
    and frame = client_turn_frame [OF assms(1)] and others = client_turn_others [OF assms(1)]
  have stop: "is_stopping (pool (sys m'))" if "is_stopping (pool (sys m))"
    using sim client_step_stopping [OF _ inv that] that by auto
  have empty: "queued (pool (sys m')) = []" if "past_cancel (cpc m d)" for d
    using sim client_step_empty [OF _ inv linkedD(5) [OF assms(3) that]] client_turn_accepted [OF assms(1,3) that]
      linkedD(5) [OF assms(3) that] by auto
  have "past_stop (cpc m' d) \<longrightarrow> d < clients m' \<and> is_stopping (pool (sys m'))" for d
  proof (cases "d = c")
    case True
    then show ?thesis
      using stop_turn_stops [OF assms(1,3)] stop linkedD(4) [OF assms(3), of c] assms(2) frame(1) by auto
  next
    case False
    then show ?thesis
      using others [of d] stop assms(3) frame(1) by (auto simp: linked_def)
  qed
  moreover have "past_cancel (cpc m' d) \<longrightarrow> d < clients m' \<and> queued (pool (sys m')) = []" for d
  proof (cases "d = c")
    case True
    then show ?thesis
      using cancel_turn_empties [OF assms(1,3)] empty [of c] assms(2) frame(1) by auto
  next
    case False
    then show ?thesis using others [of d] empty [of d] assms(3) frame(1) by (auto simp: linked_def)
  qed
  moreover have "system_inv (sys m')" using sim client_step_inv [OF _ inv] inv by auto
  ultimately show ?thesis using frame(3) assms(3) by (simp add: linked_def)
qed

lemma machine_step_linked:
  assumes "machine_step nfy m m'" and "linked m"
  shows "linked m' \<and> (sys m' = sys m \<or> pool_step (sys m) (sys m'))"
  using assms
proof (induction rule: machine_step.induct)
  case (turns m m')
  then show ?case
    using worker_turn_linked client_turn_linked worker_turn_simulates client_turn_simulates
      works calls by (metis thread_step.cases)
next
  case (begins c m cl m')
  then show ?case
    by (cases cl) (auto simp: begin_call_def linked_def split: client_pc.splits if_splits)
next
  case (wakes_up m t)
  then show ?case by (auto simp: wake_def linked_def)
next
  case (idle_wakes_up m c e k)
  then show ?case by (auto simp: linked_def)
qed

lemma machine_start_linked:
  assumes "Pool_new hw r cap = Inr p0"
  shows "linked (machine_start p0 n)"
  using system_start_inv [OF assms] by (simp add: linked_def machine_start_def) (simp add: system_start_def)

lemma machine_reach_linked:
  assumes "Pool_new hw r cap = Inr p0" and "machine_reach nfy p0 n m"
  shows "linked m" and "pool_reach p0 (sys m)"
  using assms(2)
proof induction
  case power_on
  {
    case 1
    show ?case by (rule machine_start_linked [OF assms(1)])
  next
    case 2
    show ?case by (simp add: machine_start_def start)
  }
next
  case (advance m m')
  {
    case 1
    show ?case using machine_step_linked advance by blast
  next
    case 2
    show ?case using machine_step_linked advance by (metis pool_reach.step)
  }
qed


section \<open>The counters of waiting threads\<close>

fun counted :: "loop_point \<Rightarrow> nat" where
  "counted Loading = 0" | "counted Counting = 0" | "counted _ = 1"

fun idle_counted :: "idle_point \<Rightarrow> nat" where
  "idle_counted Idle_loading = 0" | "idle_counted Idle_counting = 0" | "idle_counted _ = 1"

fun worker_counted :: "worker_pc \<Rightarrow> nat" where
  "worker_counted (W_waiting pt) = counted pt" | "worker_counted _ = 0"

fun producer_counted :: "'c client_pc \<Rightarrow> nat" where
  "producer_counted (Space rq pt) = counted pt" | "producer_counted _ = 0"

fun waiter_counted :: "'c client_pc \<Rightarrow> nat" where
  "waiter_counted (Awaiting pt) = idle_counted pt" | "waiter_counted _ = 0"

abbreviation waiting_in_run :: "'c machine \<Rightarrow> nat" where
  "waiting_in_run m \<equiv> summed worker_counted (wpc m) (worker_count (pool (sys m)))"

abbreviation waiting_for_space :: "'c machine \<Rightarrow> nat" where
  "waiting_for_space m \<equiv> summed producer_counted (cpc m) (clients m)"

abbreviation waiting_in_wait :: "'c machine \<Rightarrow> nat" where
  "waiting_in_wait m \<equiv> summed waiter_counted (cpc m) (clients m)"

definition counts :: "'c machine \<Rightarrow> bool" where
  "counts m \<longleftrightarrow> waiting_workers m = of_nat (waiting_in_run m) \<and>
     waiting_producers m = of_nat (waiting_for_space m) \<and>
     waiting_for_idle m = of_nat (waiting_in_wait m)"

lemma counted_wake [simp]:
  "counted (awaken pt) = counted pt" "worker_counted (wake_worker wp) = worker_counted wp"
  "producer_counted (wake_client pc) = producer_counted pc"
  "waiter_counted (wake_client pc) = waiter_counted pc"
  "producer_counted (tell_client n pc) = producer_counted pc"
  "waiter_counted (tell_client n pc) = waiter_counted pc"
proof -
  show [simp]: "counted (awaken pt) = counted pt" for pt by (cases pt) auto
  show "worker_counted (wake_worker wp) = worker_counted wp" by (cases wp) auto
  show "producer_counted (wake_client pc) = producer_counted pc" by (cases pc) auto
  show "waiter_counted (wake_client pc) = waiter_counted pc" by (cases pc) auto
  show "producer_counted (tell_client n pc) = producer_counted pc"
    and "waiter_counted (tell_client n pc) = waiter_counted pc"
    by (induction n pc rule: tell_client.induct) auto
qed

lemma summed_cong: "(\<And>i. i < n \<Longrightarrow> g (f i) = g (f' i)) \<Longrightarrow> summed g f n = summed g f' n"
  by (simp add: summed_def)

lemma summed_one:
  assumes "w < n" and "\<And>i. i \<noteq> w \<Longrightarrow> g (f' i) = g (f i)"
  shows "summed g f' n + g (f w) = summed g f n + g (f' w)"
proof -
  have "summed g f' n = summed g (f(w := f' w)) n"
    using assms(2) by (intro summed_cong) auto
  then show ?thesis using summed_update [OF assms(1), of g f "f' w"] by simp
qed

lemma recount_sum:
  assumes "loop_next b s k pt = Moves pt'" and "S' + counted pt = S + counted pt'"
  shows "recount pt (of_nat S) = of_nat S'"
  using assms by (cases pt) (auto split: if_splits)

lemma idle_recount_sum:
  assumes "idle_next b s k pt = Idle_moves pt'" and "S' + idle_counted pt = S + idle_counted pt'"
  shows "idle_recount pt (of_nat S) = of_nat S'"
  using assms by (cases pt) (auto split: if_splits)

lemma loop_leaves: "loop_next b s k pt = Leaves_loop \<Longrightarrow> pt = Loading \<and> \<not> b s"
  by (cases pt) (auto split: if_splits)

lemma idle_leaves: "idle_next b s k pt = Idle_leaves \<Longrightarrow> pt = Idle_loading \<and> b"
  by (cases pt) (auto split: if_splits)

lemma wake_wpc: "wpc (wake W m) w = wpc m w \<or> wpc (wake W m) w = wake_worker (wpc m w)"
  "cpc (wake W m) c = cpc m c \<or> cpc (wake W m) c = wake_client (cpc m c)"
  by (auto simp: wake_def)

lemma worker_turn_others:
  assumes "worker_turn nfy out W w m = Some m'"
  shows "v \<noteq> w \<Longrightarrow> wpc m' v = wpc m v \<or> wpc m' v = wake_worker (wpc m v)"
    and "cpc m' d = cpc m d \<or> cpc m' d = wake_client (cpc m d) \<or> cpc m' d = tell_client (bumped m) (cpc m d)"
    and "clients m' = clients m"
  using assms
  by (auto simp: worker_turn_defs wake_def tell_idle_def split: worker_pc.splits loop_move.splits if_splits
      option.splits prod.splits worker_phase.splits list.splits elim!: notice_turn.elims)

lemma worker_turn_counts:
  assumes "worker_turn nfy out W w m = Some m'" and "w < worker_count (pool (sys m))" and "linked m"
    and "counts m"
  shows "counts m'"
proof -
  note others = worker_turn_others [OF assms(1)]
  have wc: "worker_count (pool (sys m')) = worker_count (pool (sys m))"
    using worker_turn_simulates [OF assms(1-3)] worker_step_frame by metis
  have "waiting_in_run m' + worker_counted (wpc m w) = waiting_in_run m + worker_counted (wpc m' w)"
    unfolding wc using others(1) by (intro summed_one [OF assms(2)]) (metis counted_wake(2))
  then have "waiting_workers m' = of_nat (waiting_in_run m')"
    using assms(1,4) unfolding worker_turn_def counts_def
    by (auto simp: worker_turn_defs recount_sum dest!: notice_frame loop_leaves split: worker_pc.splits
        loop_move.splits if_splits option.splits prod.splits worker_phase.splits list.splits)
  moreover have "waiting_for_space m' = waiting_for_space m" and "waiting_in_wait m' = waiting_in_wait m"
    using others(2) unfolding others(3) by (intro summed_cong; metis counted_wake)+
  moreover have "waiting_producers m' = waiting_producers m" and "waiting_for_idle m' = waiting_for_idle m"
    using assms(1)
    by (auto simp: worker_turn_defs dest!: notice_frame split: worker_pc.splits
        loop_move.splits if_splits option.splits prod.splits worker_phase.splits list.splits)
  ultimately show ?thesis using assms(4) by (simp add: counts_def)
qed


lemma counted_resume [simp]:
  "producer_counted (resume next) = 0" "waiter_counted (resume next) = 0"
  "producer_counted (after_cancel pu k) = 0" "waiter_counted (after_cancel pu k) = 0"
  by (auto simp: resume_def split: sum.splits) (cases pu; simp)+

lemma client_turn_counts:
  assumes "client_turn nfy W c m = Some m'" and "c < clients m" and "linked m" and "counts m"
  shows "counts m'"
proof -
  note others = client_turn_others [OF assms(1)] and frame = client_turn_frame [OF assms(1)]
  have wc: "worker_count (pool (sys m')) = worker_count (pool (sys m))"
    using client_turn_simulates [OF assms(1,3)] client_step_frame by metis
  have space: "waiting_for_space m' + producer_counted (cpc m c) = waiting_for_space m + producer_counted (cpc m' c)"
    unfolding frame(1) using others by (intro summed_one [OF assms(2)]) (metis counted_wake)
  have idle: "waiting_in_wait m' + waiter_counted (cpc m c) = waiting_in_wait m + waiter_counted (cpc m' c)"
    unfolding frame(1) using others by (intro summed_one [OF assms(2)]) (metis counted_wake)
  have "waiting_producers m' = of_nat (waiting_for_space m')"
    using assms(1,4) space unfolding counts_def
    by (auto simp: client_turn_defs recount_sum dest!: notice_frame loop_leaves split: client_pc.splits
        loop_move.splits if_splits option.splits prod.splits insertion.splits idle_move.splits
        cancelling.splits list.splits)
  moreover have "waiting_for_idle m' = of_nat (waiting_in_wait m')"
    using assms(1,4) idle unfolding counts_def
    by (auto simp: client_turn_defs idle_recount_sum dest!: notice_frame idle_leaves split: client_pc.splits
        loop_move.splits if_splits option.splits prod.splits insertion.splits idle_move.splits
        cancelling.splits list.splits)
  moreover have "waiting_in_run m' = waiting_in_run m"
    unfolding wc using frame(2) by (intro summed_cong) (metis counted_wake(2))
  moreover have "waiting_workers m' = waiting_workers m"
    using assms(1)
    by (auto simp: client_turn_defs dest!: notice_frame split: client_pc.splits
        loop_move.splits if_splits option.splits prod.splits insertion.splits idle_move.splits
        cancelling.splits list.splits)
  ultimately show ?thesis using assms(4) by (simp add: counts_def)
qed

lemma counted_entry [simp]:
  "producer_counted (call_entry cl) = 0" "waiter_counted (call_entry cl) = 0"
  by (cases cl; simp)+

lemma counts_cong:
  assumes "counts m" and "sys m' = sys m" and "clients m' = clients m"
    and "waiting_workers m' = waiting_workers m" and "waiting_producers m' = waiting_producers m"
    and "waiting_for_idle m' = waiting_for_idle m"
    and "\<And>w. worker_counted (wpc m' w) = worker_counted (wpc m w)"
    and "\<And>c. producer_counted (cpc m' c) = producer_counted (cpc m c)"
    and "\<And>c. waiter_counted (cpc m' c) = waiter_counted (cpc m c)"
  shows "counts m'"
  using assms by (simp add: counts_def summed_def)

lemma machine_step_counts:
  assumes "machine_step nfy m m'" and "linked m" and "counts m"
  shows "counts m'"
  using assms
proof (induction rule: machine_step.induct)
  case (turns m m')
  then show ?case using worker_turn_counts client_turn_counts by (metis thread_step.cases)
next
  case (begins c m cl m')
  then show ?case
    by (intro counts_cong [OF begins(4)]) (auto simp: begin_call_def split: client_pc.splits)
next
  case (wakes_up m t)
  show ?case
    by (rule counts_cong [OF wakes_up(2)]) (simp_all add: wake_def)
next
  case (idle_wakes_up m c e k)
  show ?case by (rule counts_cong [OF idle_wakes_up(3)]) (simp_all add: idle_wakes_up(1))
qed

lemma machine_reach_counts:
  assumes "Pool_new hw r cap = Inr p0" and "machine_reach nfy p0 n m"
  shows "counts m"
  using assms(2)
proof induction
  case power_on
  show ?case by (simp add: counts_def machine_start_def summed_def)
next
  case (advance m m')
  then show ?case using machine_step_counts machine_reach_linked(1) [OF assms(1)] by blast
qed

end
