(* ===== verification/Machine_Wakeups.thy ===== *)
theory Machine_Wakeups
  imports Machine_Invariant
begin

text \<open>
  Why blocked threads are woken: a call that sleeps on \<open>queue_state_\<close> sleeps on a value that justifies
  it, and as soon as the state no longer does, some thread is on its way to a notification. For
  stopping this holds whatever \<open>notify_one\<close> picks; for work and for room it needs a \<open>notify_one\<close> that
  wakes every eligible call. The waiters of \<open>wait()\<close> have an epoch of their own.
\<close>

section \<open>Sleepers\<close>

fun asleep :: "loop_point \<Rightarrow> bool" where
  "asleep (Asleep v k) = True" | "asleep _ = False"

fun worker_asleep :: "worker_pc \<Rightarrow> bool" where
  "worker_asleep (W_waiting pt) = asleep pt" | "worker_asleep _ = False"

fun producer_asleep :: "'c client_pc \<Rightarrow> bool" where
  "producer_asleep (Space rq pt) = asleep pt" | "producer_asleep _ = False"

fun fresh_point :: "(u64 \<Rightarrow> bool) \<Rightarrow> u64 \<Rightarrow> nat \<Rightarrow> loop_point \<Rightarrow> bool" where
  "fresh_point blocked state n (Comparing v) = blocked v"
| "fresh_point blocked state n (Asleep v k) = (blocked v \<and> k \<le> n \<and> (k = n \<longrightarrow> state = v))"
| "fresh_point blocked state n _ = True"

fun worker_fresh :: "u64 \<Rightarrow> nat \<Rightarrow> worker_pc \<Rightarrow> bool" where
  "worker_fresh state n (W_waiting pt) = fresh_point no_work state n pt"
| "worker_fresh state n _ = True"

fun client_fresh :: "nat \<Rightarrow> u64 \<Rightarrow> nat \<Rightarrow> 'c client_pc \<Rightarrow> bool" where
  "client_fresh cap state n (Space rq pt) = fresh_point (no_room cap) state n pt"
| "client_fresh cap state n _ = True"

definition sleepers_ok :: "'c machine \<Rightarrow> bool" where
  "sleepers_ok m \<longleftrightarrow>
     (\<forall>w. worker_fresh (word_of m) (modified m) (wpc m w) \<and>
        (worker_count (pool (sys m)) \<le> w \<longrightarrow> wpc m w = W_waiting Loading)) \<and>
     (\<forall>c. client_fresh (queue_capacity (pool (sys m))) (word_of m) (modified m) (cpc m c) \<and>
        (clients m \<le> c \<longrightarrow> cpc m c = Returned Done))"

lemma fresh_next:
  "loop_next b s n pt = Moves pt' \<Longrightarrow> fresh_point b s n pt \<Longrightarrow> fresh_point b s n pt'"
  by (cases pt) (auto split: if_splits)

lemma fresh_awaken [simp]: "fresh_point b s n pt \<Longrightarrow> fresh_point b s n (awaken pt)"
  by (cases pt) auto

lemma fresh_touch: "fresh_point b s n pt \<Longrightarrow> fresh_point b s' (Suc n) pt"
  by (cases pt) auto

lemma worker_fresh_keeps:
  assumes "worker_fresh s n pc"
  shows "worker_fresh s n (wake_worker pc)" and "worker_fresh s' (Suc n) pc"
    and "worker_fresh s' (Suc n) (wake_worker pc)"
  using assms by (cases pc; simp add: fresh_touch [of _ s n _ s'])+

lemma client_fresh_keeps:
  assumes "client_fresh cap s n pc"
  shows "client_fresh cap s n (wake_client pc)" and "client_fresh cap s' (Suc n) pc"
    and "client_fresh cap s' (Suc n) (wake_client pc)" and "client_fresh cap s n (tell_client k pc)"
    and "client_fresh cap s' (Suc n) (tell_client k pc)"
proof -
  show "client_fresh cap s n (wake_client pc)" and touched: "client_fresh cap s' (Suc n) pc"
    and "client_fresh cap s' (Suc n) (wake_client pc)"
    using assms by (cases pc; simp add: fresh_touch [of _ s n _ s'])+
  have "client_fresh cap t i (tell_client k pc)" if "client_fresh cap t i pc" for t i
    using that by (induction k pc rule: tell_client.induct) auto
  then show "client_fresh cap s n (tell_client k pc)" and "client_fresh cap s' (Suc n) (tell_client k pc)"
    using assms touched by blast+
qed

lemma worker_fresh_turn:
  assumes "pc' = pc \<or> pc' = wake_worker pc" and "(s' = s \<and> n' = n) \<or> n' = Suc n"
    and "worker_fresh s n pc"
  shows "worker_fresh s' n' pc'"
  using assms(1,2) worker_fresh_keeps [OF assms(3)] assms(3) by auto

lemma client_fresh_turn:
  assumes "pc' = pc \<or> pc' = wake_client pc \<or> pc' = tell_client k pc"
    and "(s' = s \<and> n' = n) \<or> n' = Suc n" and "client_fresh cap s n pc"
  shows "client_fresh cap s' n' pc'"
  using assms(1,2) client_fresh_keeps [OF assms(3)] assms(3) by auto

lemma cancel_none_word:
  "cancel_pending p = Some (0, p') \<Longrightarrow> queue_state p' = queue_state p"
  by (auto simp: cancel_pending_def Let_def)

lemma worker_turn_word:
  assumes "worker_turn nfy out W w m = Some m'"
  shows "(word_of m' = word_of m \<and> modified m' = modified m) \<or> modified m' = Suc (modified m)"
  using assms
  by (auto simp: worker_turn_defs account_def dest!: notice_frame split: worker_pc.splits
      loop_move.splits if_splits option.splits prod.splits worker_phase.splits list.splits)

lemma client_turn_word:
  assumes "client_turn nfy W c m = Some m'"
  shows "(word_of m' = word_of m \<and> modified m' = modified m) \<or> modified m' = Suc (modified m)"
  using assms
  by (auto simp: client_turn_defs cancel_all_def request_stop_def cancel_none_word dest!: notice_frame
      split: client_pc.splits loop_move.splits if_splits option.splits prod.splits insertion.splits
      idle_move.splits cancelling.splits list.splits)

lemma worker_turn_fresh:
  assumes "worker_turn nfy out W w m = Some m'" and "worker_fresh (word_of m) (modified m) (wpc m w)"
  shows "worker_fresh (word_of m') (modified m') (wpc m' w)"
  using assms
  by (auto simp: worker_turn_defs dest!: notice_frame dest: fresh_next split: worker_pc.splits
      loop_move.splits if_splits option.splits prod.splits worker_phase.splits list.splits)

lemma client_turn_fresh:
  assumes "client_turn nfy W c m = Some m'"
    and "client_fresh (queue_capacity (pool (sys m))) (word_of m) (modified m) (cpc m c)"
  shows "client_fresh (queue_capacity (pool (sys m))) (word_of m') (modified m') (cpc m' c)"
proof -
  have [simp]: "client_fresh cap s n (resume nx)" "client_fresh cap s n (after_cancel pu k)" for cap s n nx pu k
    by (auto simp: resume_def split: sum.splits) (cases pu; simp)
  show ?thesis
    using assms
    by (auto simp: client_turn_defs dest!: notice_frame dest: fresh_next split: client_pc.splits
        loop_move.splits if_splits option.splits prod.splits insertion.splits idle_move.splits
        cancelling.splits list.splits)
qed

lemma worker_turn_sleepers:
  assumes "worker_turn nfy out W w m = Some m'" and "w < worker_count (pool (sys m))" and "linked m"
    and "sleepers_ok m"
  shows "sleepers_ok m'"
proof -
  note others = worker_turn_others [OF assms(1)] and ok = assms(4) [unfolded sleepers_ok_def]
  have frame: "worker_count (pool (sys m')) = worker_count (pool (sys m))"
    "queue_capacity (pool (sys m')) = queue_capacity (pool (sys m))"
    using worker_turn_simulates [OF assms(1-3)] worker_step_frame by metis+
  have "worker_fresh (word_of m') (modified m') (wpc m' v)" for v
  proof (cases "v = w")
    case True
    with worker_turn_fresh [OF assms(1)] ok show ?thesis by blast
  next
    case False
    with ok show ?thesis
      by (intro worker_fresh_turn [OF others(1) worker_turn_word [OF assms(1)]]) simp_all
  qed
  moreover have "wpc m' v = W_waiting Loading" if "worker_count (pool (sys m)) \<le> v" for v
    using others(1) [of v] ok assms(2) that by (metis awaken.simps(2) leD wake_worker.simps(1))
  moreover have "client_fresh (queue_capacity (pool (sys m))) (word_of m') (modified m') (cpc m' c)" for c
    using ok by (intro client_fresh_turn [OF others(2) worker_turn_word [OF assms(1)]]) simp
  moreover have "cpc m' c = Returned Done" if "clients m \<le> c" for c
    using others(2) [of c] ok that by auto
  ultimately show ?thesis by (simp add: sleepers_ok_def frame others(3))
qed

lemma client_turn_sleepers:
  assumes "client_turn nfy W c m = Some m'" and "c < clients m" and "linked m" and "sleepers_ok m"
  shows "sleepers_ok m'"
proof -
  note others = client_turn_others [OF assms(1)] and ok = assms(4) [unfolded sleepers_ok_def]
    and same = client_turn_frame [OF assms(1)]
  have frame: "worker_count (pool (sys m')) = worker_count (pool (sys m))"
    "queue_capacity (pool (sys m')) = queue_capacity (pool (sys m))"
    using client_turn_simulates [OF assms(1,3)] client_step_frame by metis+
  have "client_fresh (queue_capacity (pool (sys m))) (word_of m') (modified m') (cpc m' d)" for d
  proof (cases "d = c")
    case True
    with client_turn_fresh [OF assms(1)] ok show ?thesis by blast
  next
    case False
    with ok show ?thesis
      by (intro client_fresh_turn [OF others client_turn_word [OF assms(1)]]) simp_all
  qed
  moreover have "cpc m' d = Returned Done" if "clients m \<le> d" for d
    using others [of d] ok assms(2) that by auto
  moreover have "worker_fresh (word_of m') (modified m') (wpc m' v)" for v
    using ok by (intro worker_fresh_turn [OF same(2) client_turn_word [OF assms(1)]]) simp
  moreover have "wpc m' v = W_waiting Loading" if "worker_count (pool (sys m)) \<le> v" for v
    using same(2) [of v] ok that by (metis awaken.simps(2) wake_worker.simps(1))
  ultimately show ?thesis by (simp add: sleepers_ok_def frame same(1))
qed

lemma wake_sleepers: "sleepers_ok m \<Longrightarrow> sleepers_ok (wake W m)"
  by (auto simp: sleepers_ok_def wake_def worker_fresh_keeps client_fresh_keeps)

lemma entry_fresh: "client_fresh cap s n (call_entry cl)"
  by (cases cl) auto

lemma machine_step_sleepers:
  assumes "machine_step nfy m m'" and "linked m" and "sleepers_ok m"
  shows "sleepers_ok m'"
  using assms
proof (induction rule: machine_step.induct)
  case (turns m m')
  then show ?case using worker_turn_sleepers client_turn_sleepers by (metis thread_step.cases)
next
  case (begins c m cl m')
  then show ?case
    by (auto simp: begin_call_def sleepers_ok_def entry_fresh split: client_pc.splits)
next
  case (wakes_up m t)
  then show ?case by (simp add: wake_sleepers)
next
  case (idle_wakes_up m c e k)
  then show ?case by (auto simp: sleepers_ok_def)
qed


lemma machine_reach_sleepers:
  assumes "Pool_new hw r cap = Inr p0" and "machine_reach nfy p0 n m"
  shows "sleepers_ok m"
  using assms(2)
proof induction
  case power_on
  show ?case by (simp add: sleepers_ok_def machine_start_def)
next
  case (advance m m')
  then show ?case using machine_step_sleepers machine_reach_linked(1) [OF assms(1)] by blast
qed

text \<open>Whoever still sleeps after a \<open>notify_all\<close> sleeps on the current value.\<close>

lemma asleep_awaken [simp]: "\<not> asleep (awaken pt)"
  by (cases pt) auto

lemma worker_asleep_wake [simp]: "\<not> worker_asleep (wake_worker pc)"
  by (cases pc) auto

lemma producer_asleep_wake [simp]: "\<not> producer_asleep (wake_client pc)"
  by (cases pc) auto

lemma producer_asleep_tell [simp]: "producer_asleep (tell_client n pc) = producer_asleep pc"
  by (induction n pc rule: tell_client.induct) auto

lemma stale_worker:
  assumes "worker_asleep pc" and "worker_fresh s n pc" and "\<not> worker_eligible n pc"
  shows "no_work s"
  using assms by (cases pc) (auto elim!: asleep.elims)

lemma stale_client:
  assumes "producer_asleep pc" and "client_fresh cap s n pc" and "\<not> client_eligible n pc"
  shows "no_room cap s"
  using assms by (cases pc) (auto elim!: asleep.elims)

lemma eligible_iff:
  "Worker w \<in> set (eligible m) \<longleftrightarrow>
     w < worker_count (pool (sys m)) \<and> worker_eligible (modified m) (wpc m w)"
  "Client c \<in> set (eligible m) \<longleftrightarrow> c < clients m \<and> client_eligible (modified m) (cpc m c)"
  by (auto simp: eligible_def)

lemma asleep_after_wake_all:
  assumes "sleepers_ok m"
  shows "worker_asleep (wpc (wake_all m) w) \<Longrightarrow> no_work (word_of m)"
    and "producer_asleep (cpc (wake_all m) c) \<Longrightarrow> no_room (queue_capacity (pool (sys m))) (word_of m)"
proof -
  note ok = assms [unfolded sleepers_ok_def]
  assume *: "worker_asleep (wpc (wake_all m) w)"
  then have "worker_asleep (wpc m w)" and "Worker w \<notin> set (eligible m)"
    by (auto simp: wake_all_def wake_def split: if_splits)
  moreover have "w < worker_count (pool (sys m))"
    using calculation(1) ok by (metis asleep.simps(2) not_le worker_asleep.simps(1))
  ultimately show "no_work (word_of m)"
    using stale_worker [of "wpc m w"] ok by (auto simp: eligible_iff)
next
  note ok = assms [unfolded sleepers_ok_def]
  assume *: "producer_asleep (cpc (wake_all m) c)"
  then have "producer_asleep (cpc m c)" and "Client c \<notin> set (eligible m)"
    by (auto simp: wake_all_def wake_def split: if_splits)
  moreover have "c < clients m"
    using calculation(1) ok by (metis not_le producer_asleep.simps(2))
  ultimately show "no_room (queue_capacity (pool (sys m))) (word_of m)"
    using stale_client [of "cpc m c" "queue_capacity (pool (sys m))"] ok by (auto simp: eligible_iff)
qed

text \<open>A turn puts at most its own thread to sleep, and only on the current value.\<close>

lemma worker_turn_asleep:
  assumes "worker_turn nfy out W w m = Some m'" and "sleepers_ok m"
  shows "worker_asleep (wpc m' v) \<Longrightarrow> worker_asleep (wpc m v) \<or> no_work (word_of m) \<and> sys m' = sys m"
    and "producer_asleep (cpc m' c) \<Longrightarrow> producer_asleep (cpc m c)"
proof -
  assume *: "worker_asleep (wpc m' v)"
  show "worker_asleep (wpc m v) \<or> no_work (word_of m) \<and> sys m' = sys m"
  proof (cases "v = w")
    case True
    have "worker_fresh (word_of m) (modified m) (wpc m w)" using assms(2) by (simp add: sleepers_ok_def)
    with True * assms(1) show ?thesis
      by (auto simp: worker_turn_defs dest!: notice_frame elim!: loop_next.elims split: worker_pc.splits
        loop_move.splits if_splits option.splits prod.splits worker_phase.splits list.splits)
  next
    case False
    with worker_turn_others(1) [OF assms(1) False] * show ?thesis by auto
  qed
next
  show "producer_asleep (cpc m' c) \<Longrightarrow> producer_asleep (cpc m c)"
    using worker_turn_others(2) [OF assms(1), of c] by auto
qed

lemma client_turn_asleep:
  assumes "client_turn nfy W c m = Some m'" and "sleepers_ok m"
  shows "worker_asleep (wpc m' v) \<Longrightarrow> worker_asleep (wpc m v)"
    and "producer_asleep (cpc m' d) \<Longrightarrow> producer_asleep (cpc m d) \<or>
      no_room (queue_capacity (pool (sys m))) (word_of m) \<and> sys m' = sys m"
proof -
  show "worker_asleep (wpc m' v) \<Longrightarrow> worker_asleep (wpc m v)"
    using client_turn_frame(2) [OF assms(1), of v] by auto
next
  assume *: "producer_asleep (cpc m' d)"
  have [simp]: "\<not> producer_asleep (resume nx)" "\<not> producer_asleep (after_cancel pu k)" for nx pu k
    by (auto simp: resume_def split: sum.splits) (cases pu; simp)
  show "producer_asleep (cpc m d) \<or> no_room (queue_capacity (pool (sys m))) (word_of m) \<and> sys m' = sys m"
  proof (cases "d = c")
    case True
    have "client_fresh (queue_capacity (pool (sys m))) (word_of m) (modified m) (cpc m c)"
      using assms(2) by (simp add: sleepers_ok_def)
    with True * assms(1) show ?thesis
      by (auto simp: client_turn_defs dest!: notice_frame elim!: loop_next.elims
        split: client_pc.splits loop_move.splits if_splits option.splits prod.splits insertion.splits
        idle_move.splits cancelling.splits list.splits)
  next
    case False
    with client_turn_others [OF assms(1) False] * show ?thesis by auto
  qed
qed


section \<open>Stopping is announced to everybody\<close>

fun announces :: "'c client_pc \<Rightarrow> bool" where
  "announces (Cancelling (Shutting ext)) = True"
| "announces (Cancel (Shutting ext) n ca) = True"
| "announces (Requesting ext) = True"
| "announces (Signalling ext) = True"
| "announces _ = False"

abbreviation some_asleep :: "'c machine \<Rightarrow> bool" where
  "some_asleep m \<equiv> (\<exists>w. worker_asleep (wpc m w)) \<or> (\<exists>c. producer_asleep (cpc m c))"

definition stop_announced :: "'c machine \<Rightarrow> bool" where
  "stop_announced m \<longleftrightarrow>
     (is_stopping (pool (sys m)) \<and> some_asleep m \<longrightarrow> (\<exists>c. announces (cpc m c)))"

lemma announces_wake [simp]:
  "announces (wake_client pc) = announces pc" "announces (tell_client n pc) = announces pc"
  "holds_queue (wake_client pc) = holds_queue pc" "holds_queue (tell_client n pc) = holds_queue pc"
proof -
  show "announces (wake_client pc) = announces pc" and "holds_queue (wake_client pc) = holds_queue pc"
    by (cases pc; simp)+
  show "announces (tell_client n pc) = announces pc" and "holds_queue (tell_client n pc) = holds_queue pc"
    by (induction n pc rule: tell_client.induct) auto
qed

lemma blocked_word:
  assumes "linked m"
  shows "no_work (word_of m) \<longleftrightarrow> queued (pool (sys m)) = [] \<and> \<not> is_stopping (pool (sys m))"
    and "no_room (queue_capacity (pool (sys m))) (word_of m) \<longleftrightarrow>
      length (queued (pool (sys m))) = queue_capacity (pool (sys m)) \<and> \<not> is_stopping (pool (sys m))"
  using linkedD_word [OF assms] by (auto simp: no_work_def no_room_def)

lemma stopping_turn:
  assumes "client_turn nfy W c m = Some m'" and "linked m"
    and "\<not> is_stopping (pool (sys m))" and "is_stopping (pool (sys m'))"
  shows "announces (cpc m' c)"
proof (cases "cpc m c")
  case (Inserting rq)
  have "queue_state (pool (sys m')) \<noteq> queue_state (pool (sys m))" using assms(3,4) by (auto simp: is_stopping_def)
  note inv = linkedD(2) [OF assms(2)]
  show ?thesis
  proof (cases rq)
    case (Single cb tr)
    have fresh: "fresh_item (live (sys m)) (fire_and_forget cb) (pool (sys m))"
      by (rule fresh_untracked) (simp add: fire_and_forget_def)
    show ?thesis
      using assms Inserting Single submit_tracked_accepted [OF inv] enqueue_cases(2) [OF inv fresh]
      by (auto simp: client_turn_defs insert_defs accept_def split: if_splits submission.splits)
  next
    case (Bulk ts acc)
    with assms Inserting dispatch_bulk_round_cases(3) [OF inv] show ?thesis
      by (auto simp: client_turn_defs insert_defs accept_def split: if_splits bulk_round.splits)
  qed
next
  case (Cancelling pu)
  obtain p where "cancel_pending (pool (sys m)) = Some (length (queued (pool (sys m))), p)"
    "is_stopping p = is_stopping (pool (sys m))"
    using cancel_pending_effect [OF linkedD(2) [OF assms(2)]] by metis
  with assms Cancelling show ?thesis
    by (auto simp: client_turn_defs cancel_all_def split: if_splits)
next
  case (Stopping mode ext)
  with assms(1) show ?thesis by (auto simp: client_turn_defs split: if_splits)
next
  case (Requesting ext)
  with assms show ?thesis by (auto simp: client_turn_defs)
next
  case Taking
  with assms show ?thesis by (auto simp: client_turn_defs is_stopping_def)
qed (use assms in \<open>auto simp: client_turn_defs dest!: notice_frame
      split: loop_move.splits if_splits idle_move.splits cancelling.splits list.splits prod.splits\<close>)

lemma announcer_turn:
  assumes "client_turn nfy W c m = Some m'" and "announces (cpc m c)"
  shows "announces (cpc m' c) \<or> (wpc m' = wpc (wake_all m) \<and>
    (\<forall>d. producer_asleep (cpc m' d) \<longrightarrow> producer_asleep (cpc (wake_all m) d)) \<and> sys m' = sys m)"
proof (cases "cpc m c")
  case (Cancelling pu)
  with assms show ?thesis
    by (cases pu) (auto simp: client_turn_defs split: if_splits option.splits)
next
  case (Cancel pu n ca)
  with assms show ?thesis
    by (cases pu) (auto simp: client_turn_defs split: cancelling.splits prod.splits)
next
  case (Requesting ext)
  with assms show ?thesis by (auto simp: client_turn_defs)
next
  case (Signalling ext)
  with assms show ?thesis by (auto simp: client_turn_defs split: if_splits)
qed (use assms(2) in auto)

lemma client_turn_announced:
  assumes "client_turn nfy W c m = Some m'" and "linked m" and "sleepers_ok m" and "stop_announced m"
  shows "stop_announced m'"
  unfolding stop_announced_def
proof (intro impI, elim conjE)
  assume stop: "is_stopping (pool (sys m'))" and sleeps: "some_asleep m'"
  show "\<exists>d. announces (cpc m' d)"
  proof (cases "is_stopping (pool (sys m))")
    case False
    then show ?thesis using stopping_turn [OF assms(1,2) _ stop] by blast
  next
    case True
    then have "some_asleep m"
      using sleeps client_turn_asleep [OF assms(1,3)] blocked_word [OF assms(2)] by blast
    then obtain d where d: "announces (cpc m d)" using True assms(4) by (auto simp: stop_announced_def)
    show ?thesis
    proof (cases "d = c")
      case False
      then show ?thesis using client_turn_others [OF assms(1) False] d by (intro exI [of _ d]) auto
    next
      case True
      then show ?thesis
        using announcer_turn [OF assms(1)] d sleeps asleep_after_wake_all [OF assms(3)]
          blocked_word [OF assms(2)] \<open>is_stopping (pool (sys m))\<close> by metis
    qed
  qed
qed

lemma worker_turn_announced:
  assumes "worker_turn nfy out W w m = Some m'" and "w < worker_count (pool (sys m))" and "linked m"
    and "sleepers_ok m" and "stop_announced m"
  shows "stop_announced m'"
  unfolding stop_announced_def
proof (intro impI, elim conjE)
  assume stop: "is_stopping (pool (sys m'))" and sleeps: "some_asleep m'"
  have before: "is_stopping (pool (sys m))"
    using worker_turn_simulates [OF assms(1-3)] worker_step_stopping [OF _ linkedD(1) [OF assms(3)]] stop
    by auto
  then have "some_asleep m"
    using sleeps worker_turn_asleep [OF assms(1,4)] blocked_word [OF assms(3)] by blast
  with before assms(5) obtain d where "announces (cpc m d)" by (auto simp: stop_announced_def)
  then show "\<exists>d. announces (cpc m' d)"
    using worker_turn_others(2) [OF assms(1), of d] by (intro exI [of _ d]) auto
qed


section \<open>Work and room are announced when notifications reach everybody\<close>

fun brings_work :: "'c client_pc \<Rightarrow> bool" where
  "brings_work (Checking_workers k nx) = True"
| "brings_work (Notifying_workers k nx) = True"
| "brings_work _ = False"

fun frees_room :: "worker_pc \<Rightarrow> bool" where
  "frees_room W_checking = True"
| "frees_room W_notifying = True"
| "frees_room _ = False"

definition work_announced :: "'c machine \<Rightarrow> bool" where
  "work_announced m \<longleftrightarrow> (queued (pool (sys m)) \<noteq> [] \<and> (\<exists>w. worker_asleep (wpc m w)) \<longrightarrow>
     (\<exists>c. brings_work (cpc m c)))"

definition room_announced :: "'c machine \<Rightarrow> bool" where
  "room_announced m \<longleftrightarrow>
     (length (queued (pool (sys m))) < queue_capacity (pool (sys m)) \<and> (\<exists>c. producer_asleep (cpc m c)) \<longrightarrow>
     (\<exists>w. frees_room (wpc m w)) \<or> (\<exists>c. holds_queue (cpc m c)))"

lemma brings_wake [simp]:
  "brings_work (wake_client pc) = brings_work pc" "brings_work (tell_client n pc) = brings_work pc"
  "frees_room (wake_worker wp) = frees_room wp"
proof -
  show "brings_work (wake_client pc) = brings_work pc" by (cases pc; simp)
  show "brings_work (tell_client n pc) = brings_work pc"
    by (induction n pc rule: tell_client.induct) auto
  show "frees_room (wake_worker wp) = frees_room wp" by (cases wp; simp)
qed

lemma wakes_every_all [simp]: "wakes_every (eligible m) W \<longleftrightarrow> W = eligible m"
  by (simp add: wakes_every_def)

lemma summed_pos: "i < n \<Longrightarrow> 0 < g (f i) \<Longrightarrow> 0 < summed g f n"
  using summed_eq_0 [of g f n] by auto

lemma counter_positive:
  assumes "k < 2 ^ 64" and "i < k" and "0 < g (f i)" and "\<And>x. g x \<le> Suc 0"
  shows "(of_nat (summed g f k) :: u64) \<noteq> 0"
proof -
  have "summed g f k < 2 ^ 64" using summed_le [of k g f "Suc 0"] assms(1,4) by simp
  moreover have "0 < summed g f k" using summed_pos [of i k g f] assms(2,3) by simp
  ultimately show ?thesis by (simp add: word_of_nat_eq_0_iff nat_dvd_not_less)
qed

lemma counted_le [simp]: "worker_counted wp \<le> Suc 0" "producer_counted pc \<le> Suc 0"
  "waiter_counted pc \<le> Suc 0"
proof -
  have [simp]: "counted pt \<le> Suc 0" for pt by (cases pt) auto
  have [simp]: "idle_counted pt \<le> Suc 0" for pt by (cases pt) auto
  show "worker_counted wp \<le> Suc 0" by (cases wp) auto
  show "producer_counted pc \<le> Suc 0" "waiter_counted pc \<le> Suc 0" by (cases pc; simp)+
qed

lemma asleep_counted:
  "worker_asleep wp \<Longrightarrow> 0 < worker_counted wp" "producer_asleep pc \<Longrightarrow> 0 < producer_counted pc"
proof -
  have [simp]: "asleep pt \<Longrightarrow> counted pt = 1" for pt by (cases pt) auto
  show "worker_asleep wp \<Longrightarrow> 0 < worker_counted wp" by (cases wp) auto
  show "producer_asleep pc \<Longrightarrow> 0 < producer_counted pc" by (cases pc; simp)
qed

lemma waiting_workers_pos:
  assumes "counts m" and "linked m" and "sleepers_ok m" and "worker_asleep (wpc m w)"
  shows "waiting_workers m \<noteq> 0"
proof -
  have "w < worker_count (pool (sys m))"
    using assms(3,4) by (metis asleep.simps(2) not_le sleepers_ok_def worker_asleep.simps(1))
  moreover have "worker_count (pool (sys m)) < 2 ^ 64"
    using linkedD(2) [OF assms(2)] by (simp add: pool_inv_def max_worker_count_def)
  ultimately show ?thesis
    using counter_positive [of "worker_count (pool (sys m))" w worker_counted "wpc m"]
      assms(1) asleep_counted(1) [OF assms(4)] by (simp add: counts_def)
qed

lemma waiting_producers_pos:
  assumes "counts m" and "sleepers_ok m" and "producer_asleep (cpc m c)" and "clients m < 2 ^ 64"
  shows "waiting_producers m \<noteq> 0"
proof -
  have "c < clients m"
    using assms(2,3) by (metis not_le producer_asleep.simps(2) sleepers_ok_def)
  then show ?thesis
    using counter_positive [OF assms(4), of c producer_counted "cpc m"]
      assms(1) asleep_counted(2) [OF assms(3)] by (simp add: counts_def)
qed

lemma bringer_turn:
  assumes "client_turn wakes_every W c m = Some m'" and "brings_work (cpc m c)"
    and "waiting_workers m \<noteq> 0"
  shows "brings_work (cpc m' c) \<or> (wpc m' = wpc (wake_all m) \<and> sys m' = sys m)"
  using assms
  by (cases "cpc m c") (auto simp: client_turn_defs wake_all_def split: if_splits)

lemma filling_turn:
  assumes "client_turn nfy W c m = Some m'" and "linked m" and "queued (pool (sys m)) = []"
    and "queued (pool (sys m')) \<noteq> []"
  shows "brings_work (cpc m' c)"
proof (cases "cpc m c")
  case (Inserting rq)
  with assms show ?thesis by (auto simp: client_turn_defs split: if_splits insertion.splits)
next
  case (Cancelling pu)
  obtain p where "cancel_pending (pool (sys m)) = Some (length (queued (pool (sys m))), p)" "queued p = []"
    using cancel_pending_effect [OF linkedD(2) [OF assms(2)]] by metis
  with assms Cancelling show ?thesis by (auto simp: client_turn_defs cancel_all_def split: if_splits)
next
  case (Stopping mode ext)
  with assms signal_stop(2) [OF linkedD(2) [OF assms(2)]] show ?thesis
    by (auto simp: client_turn_defs set_stopping_def split: if_splits)
next
  case (Requesting ext)
  with assms show ?thesis by (auto simp: client_turn_defs)
next
  case Taking
  with assms show ?thesis by (auto simp: client_turn_defs queued_def)
qed (use assms in \<open>auto simp: client_turn_defs dest!: notice_frame
      split: loop_move.splits if_splits idle_move.splits cancelling.splits list.splits prod.splits\<close>)

lemma client_turn_work:
  assumes "client_turn wakes_every W c m = Some m'" and "linked m" and "sleepers_ok m" and "counts m"
    and "work_announced m"
  shows "work_announced m'"
  unfolding work_announced_def
proof (intro impI, elim conjE exE)
  fix w assume work: "queued (pool (sys m')) \<noteq> []" and sleeps: "worker_asleep (wpc m' w)"
  show "\<exists>d. brings_work (cpc m' d)"
  proof (cases "queued (pool (sys m)) = []")
    case True
    then show ?thesis using filling_turn [OF assms(1,2) True work] by blast
  next
    case False
    have asl: "worker_asleep (wpc m w)" using client_turn_asleep(1) [OF assms(1,3) sleeps] .
    then obtain d where d: "brings_work (cpc m d)" using False assms(5) by (auto simp: work_announced_def)
    show ?thesis
    proof (cases "d = c")
      case False
      then show ?thesis using client_turn_others [OF assms(1) False] d by (intro exI [of _ d]) auto
    next
      case True
      then show ?thesis
        using bringer_turn [OF assms(1)] d waiting_workers_pos [OF assms(4,2,3) asl] sleeps
          asleep_after_wake_all(1) [OF assms(3)] blocked_word(1) [OF assms(2)] False by metis
    qed
  qed
qed

lemma worker_turn_work:
  assumes "worker_turn nfy out W w m = Some m'" and "w < worker_count (pool (sys m))" and "linked m"
    and "sleepers_ok m" and "work_announced m"
  shows "work_announced m'"
  unfolding work_announced_def
proof (intro impI, elim conjE exE)
  fix v assume work: "queued (pool (sys m')) \<noteq> []" and sleeps: "worker_asleep (wpc m' v)"
  have before: "queued (pool (sys m)) \<noteq> []"
    using worker_turn_simulates [OF assms(1-3)] worker_step_empty [OF _ linkedD(1) [OF assms(3)]] work
    by auto
  then have "worker_asleep (wpc m v)"
    using worker_turn_asleep(1) [OF assms(1,4) sleeps] blocked_word(1) [OF assms(3)] by blast
  with before assms(5) obtain d where "brings_work (cpc m d)" by (auto simp: work_announced_def)
  then show "\<exists>d. brings_work (cpc m' d)"
    using worker_turn_others(2) [OF assms(1), of d] by (intro exI [of _ d]) auto
qed


lemma freer_turn:
  assumes "worker_turn wakes_every out W w m = Some m'" and "frees_room (wpc m w)"
    and "waiting_producers m \<noteq> 0"
  shows "frees_room (wpc m' w) \<or> (cpc m' = cpc (wake_all m) \<and> sys m' = sys m)"
  using assms
  by (cases "wpc m w") (auto simp: worker_turn_defs wake_all_def split: if_splits)

lemma emptying_turn:
  assumes "worker_turn nfy out W w m = Some m'" and "w < worker_count (pool (sys m))" and "linked m"
    and "queued (pool (sys m')) \<noteq> queued (pool (sys m))"
  shows "frees_room (wpc m' w)"
proof (cases "wpc m w")
  case W_executing
  with linkedD(3) [OF assms(3), of w] obtain xs k where run: "phase (sys m) w = Running xs k"
    by (auto simp: in_batch_def split: worker_phase.splits)
  show ?thesis
  proof (cases xs)
    case Nil
    obtain b p where fin: "finish_tasks k (pool (sys m)) = (b, p)" by (cases "finish_tasks k (pool (sys m))")
    have "queued p = queued (pool (sys m))"
      using finish_result(2) [OF linkedD(1) [OF assms(3)] assms(2) run [unfolded Nil] fin] .
    with assms(1,4) W_executing run Nil fin show ?thesis by (auto simp: worker_turn_defs)
  next
    case (Cons x ys)
    with assms(1,4) W_executing run show ?thesis
      by (auto simp: worker_turn_defs account_def queued_def split: option.splits if_splits)
  qed
next
  case W_claiming
  with assms(1,4) show ?thesis by (auto simp: worker_turn_defs split: if_splits option.splits)
next
  case (W_noticing nt)
  with assms(1,4) show ?thesis by (auto simp: worker_turn_defs dest!: notice_frame split: prod.splits)
qed (use assms(1,4) in \<open>auto simp: worker_turn_defs split: loop_move.splits if_splits\<close>)

lemma worker_turn_room:
  assumes "worker_turn wakes_every out W w m = Some m'" and "w < worker_count (pool (sys m))"
    and "linked m" and "sleepers_ok m" and "counts m" and "clients m < 2 ^ 64" and "room_announced m"
  shows "room_announced m'"
  unfolding room_announced_def
proof (intro impI, elim conjE exE)
  fix c assume room: "length (queued (pool (sys m'))) < queue_capacity (pool (sys m'))"
    and sleeps: "producer_asleep (cpc m' c)"
  note others = worker_turn_others [OF assms(1)]
  show "(\<exists>v. frees_room (wpc m' v)) \<or> (\<exists>d. holds_queue (cpc m' d))"
  proof (cases "queued (pool (sys m')) = queued (pool (sys m))")
    case False
    then show ?thesis using emptying_turn [OF assms(1-3)] by blast
  next
    case True
    have asl: "producer_asleep (cpc m c)" using worker_turn_asleep(2) [OF assms(1,4) sleeps] .
    have cap: "queue_capacity (pool (sys m')) = queue_capacity (pool (sys m))"
      using worker_turn_simulates [OF assms(1-3)] worker_step_frame by metis
    from asl True room assms(7) consider v where "frees_room (wpc m v)" | d where "holds_queue (cpc m d)"
      by (auto simp: room_announced_def cap)
    then show ?thesis
    proof cases
      case (1 v)
      show ?thesis
      proof (cases "v = w")
        case False
        then show ?thesis using others(1) [OF False] 1 by (intro disjI1 exI [of _ v]) auto
      next
        case True
        then show ?thesis
          using freer_turn [OF assms(1)] 1 waiting_producers_pos [OF assms(5,4) asl assms(6)] sleeps room cap
            asleep_after_wake_all(2) [OF assms(4)] blocked_word(2) [OF assms(3)] by (metis less_irrefl)
      qed
    next
      case (2 d)
      then show ?thesis using others(2) [of d] by (intro disjI2 exI [of _ d]) auto
    qed
  qed
qed

lemma holder_turn:
  assumes "client_turn nfy W c m = Some m'" and "holds_queue (cpc m c)"
  shows "holds_queue (cpc m' c) \<or>
    ((\<forall>d. producer_asleep (cpc m' d) \<longrightarrow> producer_asleep (cpc (wake_all m) d)) \<and> sys m' = sys m)"
proof (cases "cpc m c")
  case (Cancel pu n ca)
  have "\<not> producer_asleep (after_cancel pu n)" by (cases pu) auto
  with assms Cancel show ?thesis
    by (auto simp: client_turn_defs split: cancelling.splits prod.splits if_splits)
qed (use assms(2) in auto)

lemma insert_grows:
  assumes "insert_request rq p = Inserted k items p' nx" and "pool_inv a xs p"
  shows "length (queued p) \<le> length (queued p')"
proof (cases rq)
  case (Single cb tr)
  have fresh: "fresh_item xs (fire_and_forget cb) p"
    by (rule fresh_untracked) (simp add: fire_and_forget_def)
  with assms Single submit_tracked_accepted [OF assms(2)] enqueue_cases(2) [OF assms(2) fresh] show ?thesis
    by (auto simp: insert_defs split: if_splits submission.splits)
next
  case (Bulk ts acc)
  with assms dispatch_bulk_round_cases(3) [OF assms(2)] show ?thesis
    by (auto simp: insert_defs split: if_splits bulk_round.splits)
qed

lemma cancelling_turn:
  assumes "client_turn nfy W c m = Some m'" and "linked m"
    and "length (queued (pool (sys m'))) < length (queued (pool (sys m)))"
  shows "holds_queue (cpc m' c)"
proof (cases "cpc m c")
  case (Inserting rq)
  have "length (queued (pool (sys m))) \<le> length (queued p)"
    if "insert_request rq (pool (sys m)) = Inserted k items p nx" for k items p nx
    using insert_grows [OF that linkedD(2) [OF assms(2)]] .
  with assms(1,3) Inserting show ?thesis
    by (fastforce simp: client_turn_defs accept_def split: if_splits insertion.splits)
next
  case (Cancelling pu)
  obtain p where "cancel_pending (pool (sys m)) = Some (length (queued (pool (sys m))), p)"
    using cancel_pending_effect [OF linkedD(2) [OF assms(2)]] by metis
  with assms Cancelling show ?thesis
    by (auto simp: client_turn_defs cancel_all_def split: if_splits)
next
  case (Stopping mode ext)
  with assms signal_stop(2) [OF linkedD(2) [OF assms(2)]] show ?thesis
    by (auto simp: client_turn_defs set_stopping_def split: if_splits)
next
  case (Requesting ext)
  with assms show ?thesis by (auto simp: client_turn_defs)
next
  case Taking
  with assms show ?thesis by (auto simp: client_turn_defs queued_def)
qed (use assms in \<open>auto simp: client_turn_defs dest!: notice_frame
      split: loop_move.splits if_splits idle_move.splits cancelling.splits list.splits prod.splits\<close>)

lemma client_turn_room:
  assumes "client_turn nfy W c m = Some m'" and "linked m" and "sleepers_ok m" and "room_announced m"
  shows "room_announced m'"
  unfolding room_announced_def
proof (intro impI, elim conjE exE)
  fix p assume room: "length (queued (pool (sys m'))) < queue_capacity (pool (sys m'))"
    and sleeps: "producer_asleep (cpc m' p)"
  have cap: "queue_capacity (pool (sys m')) = queue_capacity (pool (sys m))"
    using client_turn_simulates [OF assms(1,2)] client_step_frame by metis
  show "(\<exists>v. frees_room (wpc m' v)) \<or> (\<exists>d. holds_queue (cpc m' d))"
  proof (cases "length (queued (pool (sys m'))) < length (queued (pool (sys m)))")
    case True
    then show ?thesis using cancelling_turn [OF assms(1,2)] by blast
  next
    case False
    then have before: "length (queued (pool (sys m))) < queue_capacity (pool (sys m))" using room cap by simp
    then have "producer_asleep (cpc m p)"
      using client_turn_asleep(2) [OF assms(1,3) sleeps] blocked_word(2) [OF assms(2)] by auto
    with before assms(4) consider v where "frees_room (wpc m v)" | d where "holds_queue (cpc m d)"
      by (auto simp: room_announced_def)
    then show ?thesis
    proof cases
      case (1 v)
      then show ?thesis using client_turn_frame(2) [OF assms(1), of v] by (intro disjI1 exI [of _ v]) auto
    next
      case (2 d)
      show ?thesis
      proof (cases "d = c")
        case False
        then show ?thesis using client_turn_others [OF assms(1) False] 2 by (intro disjI2 exI [of _ d]) auto
      next
        case True
        then show ?thesis
          using holder_turn [OF assms(1)] 2 sleeps before asleep_after_wake_all(2) [OF assms(3)]
            blocked_word(2) [OF assms(2)] by (metis less_irrefl)
      qed
    qed
  qed
qed

end
