(* ===== verification/Machine_Idle.thy ===== *)
theory Machine_Idle
  imports Machine_Wakeups
begin

text \<open>
  The epoch of \<open>wait()\<close>: a caller that has read the epoch and then seen the pool busy is not forgotten.
  Whenever the pool is idle and such a caller is about to block or blocked on the current epoch,
  somebody is about to advance the epoch; whenever one is blocked on an older epoch, somebody is
  about to notify.
\<close>

section \<open>Callers of wait and their notifiers\<close>

definition truly_idle :: "'c system \<Rightarrow> bool" where
  "truly_idle s \<longleftrightarrow> queued (pool s) = [] \<and> active s = 0"

fun idle_point_ok :: "nat \<Rightarrow> idle_point \<Rightarrow> bool" where
  "idle_point_ok b (Idle_rechecking e) \<longleftrightarrow> unat e \<le> b"
| "idle_point_ok b (Idle_comparing e) \<longleftrightarrow> unat e \<le> b"
| "idle_point_ok b (Idle_asleep e k) \<longleftrightarrow> k = unat e \<and> k \<le> b"
| "idle_point_ok b _ \<longleftrightarrow> True"

fun epoch_ok :: "nat \<Rightarrow> 'c client_pc \<Rightarrow> bool" where
  "epoch_ok b (Awaiting pt) = idle_point_ok b pt"
| "epoch_ok b _ = True"

definition epochs_ok :: "'c machine \<Rightarrow> bool" where
  "epochs_ok m \<longleftrightarrow> completion_epoch m = of_nat (bumped m) \<and> (\<forall>c. epoch_ok (bumped m) (cpc m c))"

fun committed :: "nat \<Rightarrow> 'c client_pc \<Rightarrow> bool" where
  "committed b (Awaiting (Idle_comparing e)) \<longleftrightarrow> unat e = b"
| "committed b (Awaiting (Idle_asleep e k)) \<longleftrightarrow> unat e = b"
| "committed b _ \<longleftrightarrow> False"

fun late :: "nat \<Rightarrow> 'c client_pc \<Rightarrow> bool" where
  "late b (Awaiting (Idle_asleep e k)) \<longleftrightarrow> k < b"
| "late b _ \<longleftrightarrow> False"

fun worker_bumps :: "worker_pc \<Rightarrow> bool" where
  "worker_bumps (W_noticing Checking) = True"
| "worker_bumps (W_noticing Bumping) = True"
| "worker_bumps _ = False"

fun client_bumps :: "'c client_pc \<Rightarrow> bool" where
  "client_bumps (Cancel pu n Reading_active) = True"
| "client_bumps (Cancel pu n (Noticing Checking)) = True"
| "client_bumps (Cancel pu n (Noticing Bumping)) = True"
| "client_bumps _ = False"

fun worker_tells :: "worker_pc \<Rightarrow> bool" where
  "worker_tells (W_noticing Telling) = True"
| "worker_tells _ = False"

fun client_tells :: "'c client_pc \<Rightarrow> bool" where
  "client_tells (Cancel pu n (Noticing Telling)) = True"
| "client_tells _ = False"

definition idle_announced :: "'c machine \<Rightarrow> bool" where
  "idle_announced m \<longleftrightarrow>
     (truly_idle (sys m) \<and> (\<exists>c. committed (bumped m) (cpc m c)) \<longrightarrow>
        (\<exists>w. worker_bumps (wpc m w)) \<or> (\<exists>c. client_bumps (cpc m c))) \<and>
     ((\<exists>c. late (bumped m) (cpc m c)) \<longrightarrow>
        (\<exists>w. worker_tells (wpc m w)) \<or> (\<exists>c. client_tells (cpc m c)))"

lemma notices_wake [simp]:
  "worker_bumps (wake_worker wp) = worker_bumps wp" "worker_tells (wake_worker wp) = worker_tells wp"
  by (cases wp; simp)+

lemma client_notices_wake [simp]:
  "client_bumps (wake_client pc) = client_bumps pc" "client_tells (wake_client pc) = client_tells pc"
  "committed b (wake_client pc) = committed b pc" "late b (wake_client pc) = late b pc"
  "epoch_ok b (wake_client pc) = epoch_ok b pc"
  by (cases pc; simp)+

lemma client_notices_tell [simp]:
  "client_bumps (tell_client n pc) = client_bumps pc" "client_tells (tell_client n pc) = client_tells pc"
  "committed b (tell_client n pc) = committed b pc"
  "late n (tell_client n pc) = False" "epoch_ok b pc \<Longrightarrow> epoch_ok b (tell_client n pc)"
  by (induction n pc rule: tell_client.induct) auto

lemma late_tell: "late b (tell_client n pc) \<Longrightarrow> late b pc"
  by (induction n pc rule: tell_client.induct) (auto split: if_splits)

lemma epoch_ok_mono: "b \<le> b' \<Longrightarrow> epoch_ok b pc \<Longrightarrow> epoch_ok b' pc"
  by (induction b pc rule: epoch_ok.induct) (auto elim!: idle_point_ok.elims)

lemma committed_bound: "epoch_ok b pc \<Longrightarrow> \<not> committed (Suc b) pc"
  by (induction "Suc b" pc rule: committed.induct) auto

lemma committed_counted: "committed b pc \<Longrightarrow> 0 < waiter_counted pc"
  by (induction b pc rule: committed.induct) auto

lemma truly_idle_is_idle: "linked m \<Longrightarrow> truly_idle (sys m) \<Longrightarrow> is_idle (pool (sys m))"
  using linkedD_word [of m] by (simp add: truly_idle_def is_idle_def)

lemma waiting_for_idle_pos:
  assumes "counts m" and "sleepers_ok m" and "committed b (cpc m c)" and "clients m < 2 ^ 64"
  shows "waiting_for_idle m \<noteq> 0"
proof -
  have "c < clients m"
    using assms(2,3) by (cases "clients m \<le> c") (auto simp: sleepers_ok_def)
  then show ?thesis
    using counter_positive [OF assms(4), of c waiter_counted "cpc m"]
      assms(1) committed_counted [OF assms(3)] by (simp add: counts_def)
qed

section \<open>The epoch\<close>

lemma notice_bumped:
  "notice_turn nt m = (m', nx) \<Longrightarrow>
     (nt \<noteq> Bumping \<and> bumped m' = bumped m \<and> completion_epoch m' = completion_epoch m) \<or>
     (nt = Bumping \<and> nx = Some Telling \<and> bumped m' = Suc (bumped m) \<and>
        completion_epoch m' = completion_epoch m + 1)"
  by (cases nt) auto

lemma worker_turn_bumped:
  assumes "worker_turn nfy out W w m = Some m'"
  shows "(bumped m' = bumped m \<and> completion_epoch m' = completion_epoch m) \<or>
    (wpc m w = W_noticing Bumping \<and> worker_tells (wpc m' w) \<and> bumped m' = Suc (bumped m) \<and>
       completion_epoch m' = completion_epoch m + 1)"
  using assms
  by (auto simp: worker_turn_defs dest!: notice_bumped split: worker_pc.splits
      loop_move.splits if_splits option.splits prod.splits worker_phase.splits list.splits)

lemma client_turn_bumped:
  assumes "client_turn nfy W c m = Some m'"
  shows "(bumped m' = bumped m \<and> completion_epoch m' = completion_epoch m) \<or>
    (\<exists>pu n. cpc m c = Cancel pu n (Noticing Bumping) \<and> cpc m' c = Cancel pu n (Noticing Telling) \<and>
       bumped m' = Suc (bumped m) \<and> completion_epoch m' = completion_epoch m + 1)"
  using assms
  by (auto simp: client_turn_defs dest!: notice_bumped split: client_pc.splits loop_move.splits
      if_splits option.splits prod.splits insertion.splits idle_move.splits cancelling.splits list.splits)

lemma worker_turn_epochs:
  assumes "worker_turn nfy out W w m = Some m'" and "epochs_ok m"
  shows "epochs_ok m'"
proof -
  have "epoch_ok (bumped m) (cpc m' c)" for c
    using worker_turn_others(2) [OF assms(1), of c] assms(2) by (auto simp: epochs_ok_def)
  moreover have "bumped m \<le> bumped m'" using worker_turn_bumped [OF assms(1)] by auto
  ultimately have "epoch_ok (bumped m') (cpc m' c)" for c using epoch_ok_mono by blast
  then show ?thesis
    using worker_turn_bumped [OF assms(1)] assms(2) by (auto simp: epochs_ok_def)
qed

lemma unat_epoch: "k < 2 ^ 64 \<Longrightarrow> unat (of_nat k :: u64) = k"
  by (simp only: unat_of_nat) simp

lemma idle_next_ok:
  assumes "idle_next b (of_nat k) k pt = Idle_moves pt'" and "k < 2 ^ 64" and "idle_point_ok k pt"
  shows "idle_point_ok k pt'"
  using assms(1,3) unat_epoch [OF assms(2)] by (cases pt) (auto split: if_splits)

lemma client_turn_epochs:
  assumes "client_turn nfy W c m = Some m'" and "epochs_ok m" and "bumped m' < 2 ^ 64"
  shows "epochs_ok m'"
proof -
  note ok = assms(2) [unfolded epochs_ok_def]
  have less: "bumped m < 2 ^ 64" using client_turn_bumped [OF assms(1)] assms(3) by auto
  have [simp]: "epoch_ok b (resume nx)" "epoch_ok b (after_cancel pu k)" for b nx pu k
    by (auto simp: resume_def split: sum.splits) (cases pu; simp)
  have "epoch_ok (bumped m) (cpc m c)" and "completion_epoch m = of_nat (bumped m)" using ok by simp_all
  then have "epoch_ok (bumped m) (cpc m' c)"
    using assms(1) less
    by (auto simp: client_turn_defs dest!: idle_next_ok [OF _ less] split: client_pc.splits loop_move.splits if_splits
        option.splits prod.splits insertion.splits idle_move.splits cancelling.splits list.splits)
  moreover have "epoch_ok (bumped m) (cpc m' d)" if "d \<noteq> c" for d
    using client_turn_others [OF assms(1) that] ok by auto
  ultimately have "epoch_ok (bumped m) (cpc m' d)" for d by (cases "d = c") auto
  moreover have "bumped m \<le> bumped m'" using client_turn_bumped [OF assms(1)] by auto
  ultimately have "epoch_ok (bumped m') (cpc m' d)" for d using epoch_ok_mono by blast
  then show ?thesis
    using client_turn_bumped [OF assms(1)] ok by (auto simp: epochs_ok_def)
qed


section \<open>Nobody is forgotten\<close>

text \<open>A turn that makes the pool idle is followed by a notice.\<close>

lemma summed_one_more:
  assumes "w < n" shows "g (f w) \<le> summed g f n"
  using assms by (auto simp: summed_def intro: member_le_sum)

lemma worker_idling:
  assumes "worker_turn nfy out W w m = Some m'" and "w < worker_count (pool (sys m))" and "linked m"
    and "\<not> truly_idle (sys m)" and "truly_idle (sys m')"
  shows "worker_bumps (wpc m' w)"
proof -
  have wc: "worker_count (pool (sys m')) = worker_count (pool (sys m))"
    using worker_turn_simulates [OF assms(1-3)] worker_step_frame by metis
  have busy: "batch (phase (sys m') w) = 0"
    using assms(2,5) summed_one_more [of w "worker_count (pool (sys m))" batch "phase (sys m')"]
    by (simp add: truly_idle_def wc)
  show ?thesis
  proof (cases "wpc m w")
    case (W_waiting pt)
    with linkedD(3) [OF assms(3), of w] have "batch (phase (sys m) w) = 0" by simp
    then have "summed batch ((phase (sys m))(w := Exited)) (worker_count (pool (sys m))) = active (sys m)"
      using summed_update [OF assms(2), of batch "phase (sys m)" Exited] by simp
    with W_waiting assms(1,4,5) show ?thesis
      by (auto simp: worker_turn_defs truly_idle_def split: loop_move.splits if_splits)
  next
    case W_claiming
    with assms(1,4,5) busy show ?thesis
      by (auto simp: worker_turn_defs split: if_splits option.splits)
  next
    case W_executing
    with linkedD(3) [OF assms(3), of w] obtain xs k where run: "phase (sys m) w = Running xs k"
      by (auto simp: in_batch_def split: worker_phase.splits)
    show ?thesis
    proof (cases xs)
      case Nil
      obtain b p where fin: "finish_tasks k (pool (sys m)) = (b, p)" by (cases "finish_tasks k (pool (sys m))")
      note res = finish_result [OF linkedD(1) [OF assms(3)] assms(2) run [unfolded Nil] fin]
      have m': "m' = worker_at w (if b then W_noticing Checking else W_waiting Loading)
          (updating ((sys m)\<lparr>pool := p, phase := (phase (sys m))(w := Looping)\<rparr>) m)"
        using assms(1) W_executing run Nil fin by (simp add: worker_turn_defs)
      have "active (sys m') + k = active (sys m)"
        using summed_update [OF assms(2), of batch "phase (sys m)" Looping] run wc by (simp add: m')
      moreover have "k \<le> bulk_claim_size" using system_invD(3) [OF linkedD(1) [OF assms(3)], of w] run by simp
      ultimately have b using res(2,5) assms(5) by (simp add: m' truly_idle_def bulk_claim_size_def)
      then show ?thesis by (simp add: m')
    next
      case (Cons x ys)
      have "summed batch ((phase (sys m))(w := Running ys k)) (worker_count (pool (sys m))) = active (sys m)"
        using summed_update [OF assms(2), of batch "phase (sys m)" "Running ys k"] run by simp
      with assms(1,4,5) W_executing run Cons show ?thesis
        by (auto simp: worker_turn_defs truly_idle_def account_def queued_def split: option.splits if_splits)
    qed
  next
    case (W_noticing nt)
    with assms(1,4,5) show ?thesis by (auto simp: worker_turn_defs dest!: notice_frame split: prod.splits)
  qed (use assms(1,4,5) in \<open>auto simp: worker_turn_defs split: if_splits\<close>)
qed

lemma client_idling:
  assumes "client_turn nfy W c m = Some m'" and "linked m"
    and "\<not> truly_idle (sys m)" and "truly_idle (sys m')"
  shows "client_bumps (cpc m' c)"
proof (cases "cpc m c")
  case (Inserting rq)
  show ?thesis
  proof (cases "insert_request rq (pool (sys m))")
    case (Inserted k items p nx)
    have "length (queued (pool (sys m))) \<le> length (queued p)"
      using insert_grows [OF Inserted linkedD(2) [OF assms(2)]] .
    moreover have "worker_count p = worker_count (pool (sys m))"
      using Inserted by (cases rq) (auto simp: insert_defs dest: submit_tracked_frame enqueue_frame
          bulk_frame split: if_splits submission.splits bulk_round.splits)
    ultimately show ?thesis
      using assms(1,3,4) Inserting Inserted
      by (auto simp: client_turn_defs accept_def truly_idle_def split: if_splits)
  qed (use assms Inserting in \<open>auto simp: client_turn_defs split: if_splits\<close>)
next
  case (Cancelling pu)
  obtain p where p: "cancel_pending (pool (sys m)) = Some (length (queued (pool (sys m))), p)"
    using cancel_pending_effect [OF linkedD(2) [OF assms(2)]] by metis
  with assms Cancelling cancel_pending_frame [OF p] show ?thesis
    by (auto simp: client_turn_defs cancel_all_def truly_idle_def split: if_splits)
next
  case (Stopping mode ext)
  with assms signal_stop(2) [OF linkedD(2) [OF assms(2)]] show ?thesis
    by (auto simp: client_turn_defs set_stopping_def truly_idle_def split: if_splits)
next
  case (Requesting ext)
  with assms show ?thesis by (auto simp: client_turn_defs truly_idle_def request_stop_def queued_def)
next
  case Taking
  with assms show ?thesis by (auto simp: client_turn_defs truly_idle_def queued_def)
qed (use assms in \<open>auto simp: client_turn_defs dest!: notice_frame
      split: loop_move.splits if_splits idle_move.splits cancelling.splits list.splits prod.splits\<close>)


lemma worker_bump_turn:
  assumes "worker_turn nfy out W w m = Some m'" and "worker_bumps (wpc m w)" and "waiting_for_idle m \<noteq> 0"
  shows "worker_bumps (wpc m' w) \<or> bumped m' = Suc (bumped m)"
  using assms by (cases "wpc m w" rule: worker_bumps.cases) (auto simp: worker_turn_defs)

lemma client_bump_turn:
  assumes "client_turn nfy W c m = Some m'" and "client_bumps (cpc m c)" and "waiting_for_idle m \<noteq> 0"
    and "linked m" and "truly_idle (sys m)"
  shows "client_bumps (cpc m' c) \<or> bumped m' = Suc (bumped m)"
proof -
  have "active_from_state (word_of m) = 0"
    using linkedD_word(3) [OF assms(4)] assms(5) by (simp add: truly_idle_def)
  with assms(1-3) show ?thesis
    by (cases "cpc m c" rule: client_bumps.cases) (auto simp: client_turn_defs)
qed

lemma worker_tell_turn:
  assumes "worker_turn nfy out W w m = Some m'" and "worker_tells (wpc m w)"
  shows "\<not> late (bumped m') (cpc m' c)"
  using assms by (cases "wpc m w" rule: worker_tells.cases) (auto simp: worker_turn_defs tell_idle_def)

lemma client_tell_turn:
  assumes "client_turn nfy W c m = Some m'" and "client_tells (cpc m c)"
  shows "\<not> late (bumped m') (cpc m' d)"
  using assms by (cases "cpc m c" rule: client_tells.cases)
    (auto simp: client_turn_defs tell_idle_def split: if_splits)

lemma worker_turn_idle:
  assumes "worker_turn nfy out W w m = Some m'" and "w < worker_count (pool (sys m))" and "linked m"
    and "sleepers_ok m" and "counts m" and "clients m < 2 ^ 64" and "epochs_ok m" and "idle_announced m"
  shows "idle_announced m'"
proof -
  note others = worker_turn_others [OF assms(1)]
  have kept: "committed b (cpc m' c) = committed b (cpc m c)" "late b (cpc m' c) \<Longrightarrow> late b (cpc m c)" for b c
    using others(2) [of c] by (auto dest: late_tell)
  have bumps: "(\<exists>v. worker_bumps (wpc m' v)) \<or> (\<exists>c. client_bumps (cpc m' c))"
    if idle: "truly_idle (sys m')" and com: "committed (bumped m') (cpc m' c)" for c
  proof (cases "bumped m' = bumped m \<and> truly_idle (sys m)")
    case False
    have "bumped m' \<noteq> Suc (bumped m)"
      using com kept(1) committed_bound assms(7) by (metis epochs_ok_def)
    then have "bumped m' = bumped m" using worker_turn_bumped [OF assms(1)] by auto
    with False show ?thesis using worker_idling [OF assms(1-3) _ idle] by blast
  next
    case True
    then have com0: "committed (bumped m) (cpc m c)" using com kept(1) by simp
    then consider v where "worker_bumps (wpc m v)" | d where "client_bumps (cpc m d)"
      using assms(8) True by (auto simp: idle_announced_def)
    then show ?thesis
    proof cases
      case (1 v)
      show ?thesis
      proof (cases "v = w")
        case False
        then show ?thesis using others(1) [OF False] 1 by (intro disjI1 exI [of _ v]) auto
      next
        case same: True
        show ?thesis
          using worker_bump_turn [OF assms(1)] 1 waiting_for_idle_pos [OF assms(5,4) com0 assms(6)] True
          unfolding same by (intro disjI1 exI [of _ w]) auto
      qed
    next
      case (2 d)
      then show ?thesis using others(2) [of d] by (intro disjI2 exI [of _ d]) auto
    qed
  qed
  have tells: "(\<exists>v. worker_tells (wpc m' v)) \<or> (\<exists>c. client_tells (cpc m' c))"
    if lt: "late (bumped m') (cpc m' c)" for c
  proof (cases "bumped m' = bumped m")
    case False
    then show ?thesis using worker_turn_bumped [OF assms(1)] by blast
  next
    case True
    then have "late (bumped m) (cpc m c)" using lt kept(2) by simp
    then consider v where "worker_tells (wpc m v)" | d where "client_tells (cpc m d)"
      using assms(8) unfolding idle_announced_def by blast
    then show ?thesis
    proof cases
      case (1 v)
      then have "v \<noteq> w" using worker_tell_turn [OF assms(1)] lt by blast
      with others(1) [of v] 1 show ?thesis by (intro disjI1 exI [of _ v]) auto
    next
      case (2 d)
      then show ?thesis using others(2) [of d] by (intro disjI2 exI [of _ d]) auto
    qed
  qed
  show ?thesis using bumps tells unfolding idle_announced_def by blast
qed


lemma committed_turn:
  assumes "client_turn nfy W c m = Some m'" and "committed b (cpc m' c)" and "linked m"
  shows "committed b (cpc m c) \<or> (\<not> truly_idle (sys m) \<and> sys m' = sys m)"
proof (cases "cpc m c")
  case (Awaiting pt)
  with assms(1,2) truly_idle_is_idle [OF assms(3)] show ?thesis
    by (cases pt) (auto simp: client_turn_defs split: if_splits)
next
  case (Cancelling pu)
  with assms(1,2) show ?thesis by (cases pu) (auto simp: client_turn_defs split: if_splits option.splits)
next
  case (Cancel pu n ca)
  with assms(1,2) show ?thesis
    by (cases pu) (auto simp: client_turn_defs split: cancelling.splits prod.splits)
qed (use assms(1,2) in \<open>auto simp: client_turn_defs resume_def
      split: loop_move.splits if_splits insertion.splits list.splits sum.splits\<close>)

lemma late_turn:
  assumes "client_turn nfy W c m = Some m'" and "late (bumped m) (cpc m' c)"
  shows "late (bumped m) (cpc m c)"
proof (cases "cpc m c")
  case (Awaiting pt)
  with assms show ?thesis by (cases pt) (auto simp: client_turn_defs split: if_splits)
next
  case (Cancelling pu)
  with assms show ?thesis by (cases pu) (auto simp: client_turn_defs split: if_splits option.splits)
next
  case (Cancel pu n ca)
  with assms show ?thesis
    by (cases pu) (auto simp: client_turn_defs split: cancelling.splits prod.splits)
qed (use assms in \<open>auto simp: client_turn_defs resume_def
      split: loop_move.splits if_splits insertion.splits list.splits sum.splits\<close>)

lemma client_turn_idle:
  assumes "client_turn nfy W c m = Some m'" and "linked m"
    and "sleepers_ok m" and "counts m" and "clients m < 2 ^ 64" and "epochs_ok m" and "idle_announced m"
  shows "idle_announced m'"
proof -
  note frame = client_turn_frame [OF assms(1)] and others = client_turn_others [OF assms(1)]
  have bumps: "(\<exists>v. worker_bumps (wpc m' v)) \<or> (\<exists>d. client_bumps (cpc m' d))"
    if idle: "truly_idle (sys m')" and com: "committed (bumped m') (cpc m' a)" for a
  proof (cases "bumped m' = bumped m")
    case False
    then obtain pu n where up: "cpc m' c = Cancel pu n (Noticing Telling)" "bumped m' = Suc (bumped m)"
      using client_turn_bumped [OF assms(1)] by blast
    then have "a \<noteq> c" using com by auto
    then have "committed (Suc (bumped m)) (cpc m a)" using others [of a] com up(2) by auto
    then show ?thesis using committed_bound assms(6) by (metis epochs_ok_def)
  next
    case same: True
    show ?thesis
    proof (cases "truly_idle (sys m)")
      case False
      then show ?thesis using client_idling [OF assms(1,2) False idle] by blast
    next
      case True
      have com0: "committed (bumped m) (cpc m a)"
        using com committed_turn [OF assms(1) _ assms(2)] others [of a] True unfolding same
        by (cases "a = c") auto
      then consider v where "worker_bumps (wpc m v)" | d where "client_bumps (cpc m d)"
        using assms(7) True unfolding idle_announced_def by blast
      then show ?thesis
      proof cases
        case (1 v)
        then show ?thesis using frame(2) [of v] by (intro disjI1 exI [of _ v]) auto
      next
        case (2 d)
        then have "client_bumps (cpc m' d)"
          using client_bump_turn [OF assms(1) _ waiting_for_idle_pos [OF assms(4,3) com0 assms(5)] assms(2) True]
            others [of d] same by (cases "d = c") auto
        then show ?thesis by blast
      qed
    qed
  qed
  have tells: "(\<exists>v. worker_tells (wpc m' v)) \<or> (\<exists>d. client_tells (cpc m' d))"
    if lt: "late (bumped m') (cpc m' a)" for a
  proof (cases "bumped m' = bumped m")
    case False
    then obtain pu n where "cpc m' c = Cancel pu n (Noticing Telling)"
      using client_turn_bumped [OF assms(1)] by blast
    then have "client_tells (cpc m' c)" by simp
    then show ?thesis by blast
  next
    case same: True
    have "late (bumped m) (cpc m a)"
      using lt late_turn [OF assms(1)] others [of a] unfolding same
      by (cases "a = c") (auto dest: late_tell)
    then consider v where "worker_tells (wpc m v)" | d where "client_tells (cpc m d)"
      using assms(7) unfolding idle_announced_def by blast
    then show ?thesis
    proof cases
      case (1 v)
      then show ?thesis using frame(2) [of v] by (intro disjI1 exI [of _ v]) auto
    next
      case (2 d)
      then have "d \<noteq> c" using client_tell_turn [OF assms(1)] lt by blast
      with others [of d] 2 show ?thesis by (intro disjI2 exI [of _ d]) auto
    qed
  qed
  show ?thesis using bumps tells unfolding idle_announced_def by blast
qed

end
