(* ===== verification/Pool_Blocking.thy ===== *)
theory Pool_Blocking
  imports Machine_Idle
begin

text \<open>
  The announcements of \<open>Machine_Wakeups\<close> and \<open>Machine_Idle\<close> hold in every reachable state, every thread
  that is not held up has a turn, and an owner joins only threads of the pool. Together they say
  what a machine at rest looks like.
\<close>

section \<open>The announcements hold in every reachable state\<close>

lemma entry_notices [simp]:
  "\<not> producer_asleep (call_entry cl)" "\<not> brings_work (call_entry cl)" "\<not> holds_queue (call_entry cl)"
  "\<not> committed b (call_entry cl)" "\<not> late b (call_entry cl)" "epoch_ok b (call_entry cl)"
  by (cases cl; simp)+

text \<open>Beginning a call and waking up spuriously add no sleeper and no caller committed to the epoch,
  and take no announcer away.\<close>

lemma quiet_step:
  assumes "machine_step nfy m m'" and "\<not> thread_step nfy m m'"
  shows "sys m' = sys m" and "clients m' = clients m" and "bumped m' = bumped m"
    and "completion_epoch m' = completion_epoch m"
    and "worker_asleep (wpc m' w) \<Longrightarrow> worker_asleep (wpc m w)"
    and "producer_asleep (cpc m' c) \<Longrightarrow> producer_asleep (cpc m c)"
    and "announces (cpc m c) \<Longrightarrow> announces (cpc m' c)"
    and "brings_work (cpc m c) \<Longrightarrow> brings_work (cpc m' c)"
    and "holds_queue (cpc m c) \<Longrightarrow> holds_queue (cpc m' c)"
    and "frees_room (wpc m w) \<Longrightarrow> frees_room (wpc m' w)"
    and "committed b (cpc m' c) \<Longrightarrow> committed b (cpc m c)"
    and "late b (cpc m' c) \<Longrightarrow> late b (cpc m c)"
    and "client_bumps (cpc m c) \<Longrightarrow> client_bumps (cpc m' c)"
    and "client_tells (cpc m c) \<Longrightarrow> client_tells (cpc m' c)"
    and "worker_bumps (wpc m w) \<Longrightarrow> worker_bumps (wpc m' w)"
    and "worker_tells (wpc m w) \<Longrightarrow> worker_tells (wpc m' w)"
    and "epoch_ok b (cpc m c) \<Longrightarrow> epoch_ok b (cpc m' c)"
  using assms
  by (auto elim!: machine_step.cases simp: begin_call_def wake_def split: client_pc.splits if_splits)

lemma stop_announced_step:
  assumes "machine_step nfy m m'" and "linked m" and "sleepers_ok m" and "stop_announced m"
  shows "stop_announced m'"
proof (cases "thread_step nfy m m'")
  case True
  then show ?thesis
    using worker_turn_announced client_turn_announced assms(2-4) by (metis thread_step.cases)
next
  case False
  note q = quiet_step [OF assms(1) False]
  show ?thesis using assms(4) q(5-7) unfolding stop_announced_def q(1) by blast
qed

lemma work_announced_step:
  assumes "machine_step wakes_every m m'" and "linked m" and "sleepers_ok m" and "counts m"
    and "work_announced m"
  shows "work_announced m'"
proof (cases "thread_step wakes_every m m'")
  case True
  then show ?thesis
    using worker_turn_work client_turn_work assms(2-5) by (metis thread_step.cases)
next
  case False
  note q = quiet_step [OF assms(1) False]
  show ?thesis using assms(5) q(5,8) unfolding work_announced_def q(1) by blast
qed

lemma room_announced_step:
  assumes "machine_step wakes_every m m'" and "linked m" and "sleepers_ok m" and "counts m"
    and "clients m < 2 ^ 64" and "room_announced m"
  shows "room_announced m'"
proof (cases "thread_step wakes_every m m'")
  case True
  then show ?thesis
    using worker_turn_room client_turn_room assms(2-6) by (metis thread_step.cases)
next
  case False
  note q = quiet_step [OF assms(1) False]
  show ?thesis using assms(6) q(6,9,10) unfolding room_announced_def q(1) by blast
qed

lemma machine_step_bumped:
  assumes "machine_step nfy m m'"
  shows "bumped m \<le> bumped m' \<and> clients m' = clients m"
proof (cases "thread_step nfy m m'")
  case True
  then show ?thesis
  proof cases
    case (worker_turns w out W)
    then show ?thesis using worker_turn_bumped worker_turn_others(3) by fastforce
  next
    case (client_turns c W)
    then show ?thesis using client_turn_bumped client_turn_frame(1) by fastforce
  qed
next
  case False
  then show ?thesis using quiet_step(2,3) [OF assms] by simp
qed

lemma idle_announced_step:
  assumes "machine_step nfy m m'" and "linked m" and "sleepers_ok m" and "counts m"
    and "clients m < 2 ^ 64" and "bumped m' < 2 ^ 64" and "epochs_ok m \<and> idle_announced m"
  shows "epochs_ok m' \<and> idle_announced m'"
proof (cases "thread_step nfy m m'")
  case True
  then show ?thesis
    using worker_turn_epochs client_turn_epochs worker_turn_idle client_turn_idle assms(2-7)
    by (metis thread_step.cases)
next
  case False
  note q = quiet_step [OF assms(1) False]
  have "epochs_ok m'" using assms(7) q(17) unfolding epochs_ok_def q(3,4) by blast
  moreover have "idle_announced m'"
    using assms(7) q(11-16) unfolding idle_announced_def q(1,3) by blast
  ultimately show ?thesis ..
qed

lemma machine_reach_clients: "machine_reach nfy p0 n m \<Longrightarrow> clients m = n"
  by (induction rule: machine_reach.induct) (simp_all add: machine_start_def machine_step_bumped)

lemma machine_reach_announced:
  assumes "Pool_new hw r cap = Inr p0" and "machine_reach nfy p0 n m"
  shows "stop_announced m"
    and "nfy = wakes_every \<Longrightarrow> n < 2 ^ 64 \<Longrightarrow> work_announced m \<and> room_announced m"
    and "n < 2 ^ 64 \<Longrightarrow> bumped m < 2 ^ 64 \<Longrightarrow> epochs_ok m \<and> idle_announced m"
  using assms(2)
proof induction
  case power_on
  {
    case 1
    show ?case by (simp add: stop_announced_def machine_start_def)
  next
    case 2
    show ?case by (simp add: work_announced_def room_announced_def machine_start_def)
  next
    case 3
    show ?case by (simp add: epochs_ok_def idle_announced_def machine_start_def)
  }
next
  case (advance m m')
  note step = advance.hyps(2) and n = machine_reach_clients [OF advance.hyps(1)]
  note facts = machine_reach_linked(1) [OF assms(1) advance.hyps(1)]
    machine_reach_sleepers [OF assms(1) advance.hyps(1)] machine_reach_counts [OF assms(1) advance.hyps(1)]
  {
    case 1
    show ?case using stop_announced_step [OF step facts(1,2) advance.IH(1)] .
  next
    case 2
    then show ?case
      using work_announced_step [OF _ facts] room_announced_step [OF _ facts] advance.IH(2) step
      by (simp add: n)
  next
    case 3
    then show ?case
      using idle_announced_step [OF step facts] advance.IH(3) machine_step_bumped [OF step] by (simp add: n)
  }
qed


section \<open>What a machine at rest looks like\<close>

lemma notify_one_picks:
  assumes "notify_one_contract nfy"
  obtains W where "nfy E W"
  using assms unfolding notify_one_contract_def by blast

lemma worker_turn_enabled:
  assumes "linked m" and "notify_one_contract nfy" and "\<not> queue_locked m"
    and "w < worker_count (pool (sys m))" and "\<not> worker_asleep (wpc m w)" and "wpc m w \<noteq> W_returned"
  shows "\<exists>out W m'. worker_turn nfy out W w m = Some m'"
proof (cases "wpc m w")
  case (W_waiting pt)
  with assms(5) show ?thesis by (cases pt) (auto simp: worker_turn_defs)
next
  case W_claiming
  with claim_defined [OF linkedD(1) [OF assms(1)]] assms(3) show ?thesis
    by (auto simp: worker_turn_defs)
next
  case W_notifying
  obtain W where "nfy (eligible m) W" using notify_one_picks [OF assms(2)] by blast
  with W_notifying show ?thesis by (auto simp: worker_turn_defs)
next
  case W_executing
  with linkedD(3) [OF assms(1), of w] obtain xs k where run: "phase (sys m) w = Running xs k"
    by (auto simp: in_batch_def split: worker_phase.splits)
  show ?thesis
  proof (cases xs)
    case Nil
    with W_executing run show ?thesis by (auto simp: worker_turn_defs split: prod.splits)
  next
    case (Cons x ys)
    obtain p where "account x (Finished ok) (pool (sys m)) = Some p"
      using account_defined [OF linkedD(1) [OF assms(1)] assms(4) run [unfolded Cons]] by blast
    with W_executing run Cons show ?thesis
      by (intro exI [of _ "Finished ok"]) (simp add: worker_turn_defs)
  qed
next
  case (W_noticing nt)
  then show ?thesis by (cases nt) (auto simp: worker_turn_defs)
qed (use assms in \<open>auto simp: worker_turn_defs\<close>)

text \<open>The places where a client can be kept waiting.\<close>

fun held_up :: "(nat \<Rightarrow> worker_pc) \<Rightarrow> 'c client_pc \<Rightarrow> bool" where
  "held_up ws (Returned r) = True"
| "held_up ws (Space rq pt) = asleep pt"
| "held_up ws (Awaiting (Idle_asleep e k)) = True"
| "held_up ws (Joining (w # js)) = (ws w \<noteq> W_returned)"
| "held_up ws _ = False"

lemma held_up_cases:
  "held_up ws pc \<Longrightarrow> (\<exists>r. pc = Returned r) \<or> producer_asleep pc \<or>
     (\<exists>e k. pc = Awaiting (Idle_asleep e k)) \<or> (\<exists>w js. pc = Joining (w # js))"
  by (induction ws pc rule: held_up.induct) auto

lemma client_turn_enabled:
  assumes "linked m" and "notify_one_contract nfy" and "\<not> queue_locked m"
    and "\<not> held_up (wpc m) (cpc m c)" and "\<And>mode. cpc m c = Locking mode \<Longrightarrow> \<not> shutdown_locked m"
  shows "\<exists>W m'. client_turn nfy W c m = Some m'"
proof (cases "cpc m c")
  case (Space rq pt)
  with assms(4) show ?thesis by (cases pt) (auto simp: client_turn_defs)
next
  case (Inserting rq)
  with assms(3) show ?thesis by (auto simp: client_turn_defs split: insertion.splits)
next
  case (Notifying_workers k nx)
  obtain W where "nfy (eligible m) W" using notify_one_picks [OF assms(2)] by blast
  with Notifying_workers show ?thesis by (auto simp: client_turn_defs)
next
  case (Awaiting pt)
  with assms(4) show ?thesis by (cases pt) (auto simp: client_turn_defs)
next
  case (Cancelling pu)
  obtain p where "cancel_pending (pool (sys m)) = Some (length (queued (pool (sys m))), p)"
    using cancel_pending_effect [OF linkedD(2) [OF assms(1)]] by metis
  with assms(3) Cancelling show ?thesis by (auto simp: client_turn_defs)
next
  case (Cancel pu n ca)
  then show ?thesis by (cases ca) (auto simp: client_turn_defs split: prod.splits)
next
  case (Joining ws)
  with assms(4) show ?thesis by (cases ws) (auto simp: client_turn_defs)
qed (use assms in \<open>auto simp: client_turn_defs\<close>)

lemma quiescent_threads:
  assumes "linked m" and "notify_one_contract nfy" and "quiescent nfy m"
  shows "\<not> queue_locked m"
    and "w < worker_count (pool (sys m)) \<Longrightarrow> worker_asleep (wpc m w) \<or> wpc m w = W_returned"
    and "c < clients m \<Longrightarrow> held_up (wpc m) (cpc m c) \<or> (\<exists>mode. cpc m c = Locking mode \<and> shutdown_locked m)"
proof -
  have no: "\<not> thread_step nfy m m'" for m' using assms(3) by (simp add: quiescent_def)
  show free: "\<not> queue_locked m"
  proof
    assume "queue_locked m"
    then obtain c where c: "c < clients m" "holds_queue (cpc m c)" by (auto simp: queue_locked_iff)
    then obtain pu n ca where "cpc m c = Cancel pu n ca" by (auto elim: holds_queue.elims)
    then have "\<exists>m'. client_turn nfy [] c m = Some m'"
      by (cases ca) (auto simp: client_turn_defs split: prod.splits)
    with no client_turns [OF c(1)] show False by blast
  qed
  show "w < worker_count (pool (sys m)) \<Longrightarrow> worker_asleep (wpc m w) \<or> wpc m w = W_returned"
    using worker_turn_enabled [OF assms(1,2) free] worker_turns no by metis
  show "c < clients m \<Longrightarrow> held_up (wpc m) (cpc m c) \<or> (\<exists>mode. cpc m c = Locking mode \<and> shutdown_locked m)"
    using client_turn_enabled [OF assms(1,2) free] client_turns no by metis
qed


section \<open>The threads an owner joins\<close>

lemma account_workers: "account x out p = Some p' \<Longrightarrow> workers p' = workers p"
  by (auto simp: account_def split: option.splits if_splits)

lemma claim_workers: "claim p = Some (items, p') \<Longrightarrow> workers p' = workers p"
  by (auto simp: claim_def Let_def split: if_splits option.splits)

lemma insert_workers: "insert_request rq p = Inserted k items p' nx \<Longrightarrow> workers p' = workers p"
  by (cases rq) (auto simp: insert_defs submit_tracked_def with_promise_def enqueue_def
      dispatch_bulk_round_def Let_def split: if_splits submission.splits bulk_round.splits)

lemma cancel_items_workers: "cancel_items n p = Some p' \<Longrightarrow> workers p' = workers p"
  by (induction n p rule: cancel_items.induct) (auto split: option.splits)

lemma cancel_pending_workers: "cancel_pending p = Some (n, p') \<Longrightarrow> workers p' = workers p"
  by (auto simp: cancel_pending_def Let_def dest: cancel_items_workers)

lemmas workers_frames = account_workers claim_workers insert_workers cancel_pending_workers

definition joins_ok :: "'c machine \<Rightarrow> bool" where
  "joins_ok m \<longleftrightarrow> set (workers (pool (sys m))) \<subseteq> {..<worker_count (pool (sys m))} \<and>
     (\<forall>c ws. cpc m c = Joining ws \<longrightarrow> set ws \<subseteq> {..<worker_count (pool (sys m))})"

lemma worker_turn_workers:
  "worker_turn nfy out W w m = Some m' \<Longrightarrow> workers (pool (sys m')) = workers (pool (sys m))"
  by (auto simp: worker_turn_defs finish_tasks_def Let_def dest!: notice_frame dest: workers_frames
      split: worker_pc.splits loop_move.splits if_splits option.splits prod.splits worker_phase.splits list.splits)

lemma client_turn_workers:
  "client_turn nfy W c m = Some m' \<Longrightarrow>
     workers (pool (sys m')) = workers (pool (sys m)) \<or> cpc m c = Taking \<and> workers (pool (sys m')) = []"
  by (auto simp: client_turn_defs accept_def cancel_all_def set_stopping_def request_stop_def
      dest!: notice_frame dest: workers_frames split: client_pc.splits loop_move.splits if_splits
      option.splits prod.splits insertion.splits idle_move.splits cancelling.splits list.splits)

lemma wake_joining [simp]:
  "wake_client pc = Joining ws \<longleftrightarrow> pc = Joining ws" "tell_client n pc = Joining ws \<longleftrightarrow> pc = Joining ws"
proof -
  show "wake_client pc = Joining ws \<longleftrightarrow> pc = Joining ws" by (cases pc; simp)
  show "tell_client n pc = Joining ws \<longleftrightarrow> pc = Joining ws"
    by (induction n pc rule: tell_client.induct) auto
qed

lemma joining_turn:
  assumes "client_turn nfy W c m = Some m'" and "cpc m' c = Joining ws"
  shows "ws = workers (pool (sys m)) \<or> (\<exists>v. cpc m c = Joining (v # ws) \<and> wpc m v = W_returned)"
proof (cases "cpc m c")
  case (Cancelling pu)
  with assms show ?thesis by (cases pu) (auto simp: client_turn_defs split: if_splits option.splits)
next
  case (Cancel pu n ca)
  with assms show ?thesis
    by (cases pu) (auto simp: client_turn_defs split: cancelling.splits prod.splits)
qed (use assms in \<open>auto simp: client_turn_defs resume_def
      split: loop_move.splits if_splits insertion.splits list.splits sum.splits idle_move.splits\<close>)

lemma joins_step:
  assumes "machine_step nfy m m'" and "linked m" and "joins_ok m"
  shows "joins_ok m'"
proof -
  have wc: "worker_count (pool (sys m')) = worker_count (pool (sys m))"
    using machine_step_linked [OF assms(1,2)] worker_step_frame client_step_frame
    by (metis pool_step.cases)
  show ?thesis
    using assms(1)
  proof cases
    case turns
    then show ?thesis
    proof cases
      case (worker_turns w out W)
      have "cpc m' c = Joining ws \<Longrightarrow> cpc m c = Joining ws" for c ws
        using worker_turn_others(2) [OF worker_turns(2), of c] by (metis wake_joining)
      then show ?thesis
        using assms(3) worker_turn_workers [OF worker_turns(2)] unfolding joins_ok_def wc by metis
    next
      case (client_turns c W)
      have "cpc m' d = Joining ws \<Longrightarrow> cpc m d = Joining ws" if "d \<noteq> c" for d ws
        using client_turn_others [OF client_turns(2) that] by (metis wake_joining)
      moreover have "set ws \<subseteq> {..<worker_count (pool (sys m))}" if "cpc m' c = Joining ws" for ws
        using joining_turn [OF client_turns(2) that] assms(3) by (fastforce simp: joins_ok_def)
      ultimately show ?thesis
        using assms(3) client_turn_workers [OF client_turns(2)] unfolding joins_ok_def wc
        by (metis empty_subsetI list.set(1))
    qed
  next
    case (begins c cl)
    then have "cpc m' d = Joining ws \<Longrightarrow> cpc m d = Joining ws" for d ws
      by (cases cl) (auto simp: begin_call_def split: client_pc.splits if_splits)
    moreover have "sys m' = sys m"
      using begins(2) by (auto simp: begin_call_def split: client_pc.splits)
    ultimately show ?thesis using assms(3) unfolding joins_ok_def by metis
  next
    case (wakes_up t)
    with assms(3) show ?thesis by (auto simp: joins_ok_def wake_def split: if_splits)
  next
    case (idle_wakes_up c e k)
    with assms(3) show ?thesis by (auto simp: joins_ok_def split: if_splits)
  qed
qed

lemma machine_reach_joins:
  assumes "Pool_new hw r cap = Inr p0" and "machine_reach nfy p0 n m"
  shows "joins_ok m"
  using assms(2)
proof induction
  case power_on
  show ?case
    using assms(1)
    by (auto simp: joins_ok_def machine_start_def system_start_def Pool_new_def Let_def split: sum.splits if_splits)
next
  case (advance m m')
  then show ?case using joins_step machine_reach_linked(1) [OF assms(1)] by blast
qed


section \<open>The mutexes exclude\<close>

lemma shutdown_locked_iff: "shutdown_locked m \<longleftrightarrow> (\<exists>c < clients m. holds_shutdown (cpc m c))"
  by (auto simp: shutdown_locked_def)

definition exclusive :: "'c machine \<Rightarrow> bool" where
  "exclusive m \<longleftrightarrow> (\<forall>c d. holds_queue (cpc m c) \<and> holds_queue (cpc m d) \<longrightarrow> c = d) \<and>
     (\<forall>c d. holds_shutdown (cpc m c) \<and> holds_shutdown (cpc m d) \<longrightarrow> c = d)"

lemma holds_shutdown_wake [simp]:
  "holds_shutdown (wake_client pc) = holds_shutdown pc"
  "holds_shutdown (tell_client n pc) = holds_shutdown pc"
proof -
  show "holds_shutdown (wake_client pc) = holds_shutdown pc" by (cases pc; simp)
  show "holds_shutdown (tell_client n pc) = holds_shutdown pc"
    by (induction n pc rule: tell_client.induct) auto
qed

fun from_owner :: "purpose \<Rightarrow> bool" where
  "from_owner Clearing = False"
| "from_owner (Shutting ext) = ext"

lemma not_holding [simp]:
  "\<not> holds_queue (resume nx)" "\<not> holds_shutdown (resume nx)" "\<not> holds_queue (after_cancel pu n)"
  "holds_shutdown (after_cancel pu n) = from_owner pu"
  "holds_shutdown (Cancel pu n ca) = from_owner pu" "holds_shutdown (Cancelling pu) = from_owner pu"
  "\<not> holds_shutdown (call_entry cl)"
proof -
  show "\<not> holds_queue (resume nx)" "\<not> holds_shutdown (resume nx)"
    by (auto simp: resume_def split: sum.splits)
  show "\<not> holds_queue (after_cancel pu n)"
    "holds_shutdown (after_cancel pu n) = from_owner pu"
    "holds_shutdown (Cancel pu n ca) = from_owner pu" "holds_shutdown (Cancelling pu) = from_owner pu"
    by (cases pu; simp)+
  show "\<not> holds_shutdown (call_entry cl)" by (cases cl) auto
qed

lemma acquiring_turn:
  assumes "client_turn nfy W c m = Some m'"
  shows "holds_queue (cpc m' c) \<Longrightarrow> holds_queue (cpc m c) \<or> \<not> queue_locked m"
    and "holds_shutdown (cpc m' c) \<Longrightarrow> holds_shutdown (cpc m c) \<or> \<not> shutdown_locked m"
  using assms
  by (cases "cpc m c"; auto simp: client_turn_defs split: loop_move.splits if_splits option.splits
      prod.splits insertion.splits idle_move.splits cancelling.splits list.splits)+

lemma exclusive_step:
  assumes "machine_step nfy m m'" and "linked m" and "sleepers_ok m" and "exclusive m"
  shows "exclusive m'"
  using assms(1)
proof cases
  case turns
  then show ?thesis
  proof cases
    case (worker_turns w out W)
    have "holds_queue (cpc m' c) = holds_queue (cpc m c)"
      and "holds_shutdown (cpc m' c) = holds_shutdown (cpc m c)" for c
      using worker_turn_others(2) [OF worker_turns(2), of c] by auto
    then show ?thesis using assms(4) by (simp add: exclusive_def)
  next
    case (client_turns c W)
    note acq = acquiring_turn [OF client_turns(2)]
    have others: "holds_queue (cpc m' d) = holds_queue (cpc m d)"
      "holds_shutdown (cpc m' d) = holds_shutdown (cpc m d)" if "d \<noteq> c" for d
      using client_turn_others [OF client_turns(2) that] by auto
    have inside: "d < clients m" if "holds_queue (cpc m d) \<or> holds_shutdown (cpc m d)" for d
      using that assms(3) by (cases "d < clients m") (auto simp: sleepers_ok_def)
    have one: "holds_queue (cpc m a) \<Longrightarrow> holds_queue (cpc m b) \<Longrightarrow> a = b"
      and one': "holds_shutdown (cpc m a) \<Longrightarrow> holds_shutdown (cpc m b) \<Longrightarrow> a = b" for a b
      using assms(4) unfolding exclusive_def by blast+
    have alone: "\<not> holds_queue (cpc m d)" if "holds_queue (cpc m' c)" "d \<noteq> c" for d
      using acq(1) [OF that(1)] that(2) one inside [of d] unfolding queue_locked_iff by blast
    have alone': "\<not> holds_shutdown (cpc m d)" if "holds_shutdown (cpc m' c)" "d \<noteq> c" for d
      using acq(2) [OF that(1)] that(2) one' inside [of d] unfolding shutdown_locked_iff by blast
    have "a = b" if "holds_queue (cpc m' a)" "holds_queue (cpc m' b)" for a b
      using that alone others(1) one by metis
    moreover have "a = b" if "holds_shutdown (cpc m' a)" "holds_shutdown (cpc m' b)" for a b
      using that alone' others(2) one' by metis
    ultimately show ?thesis unfolding exclusive_def by blast
  qed
next
  case (begins c cl)
  then have "holds_queue (cpc m' d) \<Longrightarrow> holds_queue (cpc m d)"
    and "holds_shutdown (cpc m' d) \<Longrightarrow> holds_shutdown (cpc m d)" for d
    by (auto simp: begin_call_def split: client_pc.splits if_splits)
  then show ?thesis using assms(4) unfolding exclusive_def by blast
next
  case (wakes_up t)
  with assms(4) show ?thesis by (auto simp: exclusive_def wake_def)
next
  case (idle_wakes_up c e k)
  then have "holds_queue (cpc m' d) \<Longrightarrow> holds_queue (cpc m d)"
    and "holds_shutdown (cpc m' d) \<Longrightarrow> holds_shutdown (cpc m d)" for d
    by (auto split: if_splits)
  then show ?thesis using assms(4) unfolding exclusive_def by blast
qed

lemma machine_reach_exclusive:
  assumes "Pool_new hw r cap = Inr p0" and "machine_reach nfy p0 n m"
  shows "exclusive m"
  using assms(2)
proof induction
  case power_on
  show ?case by (simp add: exclusive_def machine_start_def)
next
  case (advance m m')
  then show ?case
    using exclusive_step machine_reach_linked(1) [OF assms(1)] machine_reach_sleepers [OF assms(1)] by blast
qed

end
