(* ===== verification/Machine_Termination.thy ===== *)
theory Machine_Termination
  imports Pool_Blocking
begin

text \<open>
  Turns come to an end. Every turn that updates an atomic, runs a task or wakes somebody uses up some
  of the work that the calls in progress still have to do (\<open>budget\<close>); between two such turns a thread
  goes through its waiting loop at most once more before it sleeps or leaves (\<open>unrest\<close>).
\<close>

section \<open>The work the calls in progress still have to do\<close>

fun worker_units :: "worker_pc \<times> 'c worker_phase \<Rightarrow> nat" where
  "worker_units (W_checking, ph) = 6 + length (remaining ph)"
| "worker_units (W_notifying, ph) = 5 + length (remaining ph)"
| "worker_units (W_executing, ph) = 4 + length (remaining ph)"
| "worker_units (W_noticing Checking, ph) = 3"
| "worker_units (W_noticing Bumping, ph) = 2"
| "worker_units (W_noticing Telling, ph) = 1"
| "worker_units (_, ph) = 0"

fun request_units :: "'c request \<Rightarrow> nat" where
  "request_units (Single c tr) = 12"
| "request_units (Bulk ts acc) = 12 * length ts + 3"

definition next_units :: "'c request + reply \<Rightarrow> nat" where
  "next_units nx = (case nx of Inl rq \<Rightarrow> request_units rq | Inr r \<Rightarrow> 0)"

fun purpose_units :: "nat \<Rightarrow> purpose \<Rightarrow> nat" where
  "purpose_units j Clearing = 0"
| "purpose_units j (Shutting ext) = 4 + j"

fun cancelling_units :: "cancelling \<Rightarrow> nat" where
  "cancelling_units Reading_active = 5"
| "cancelling_units (Noticing Checking) = 4"
| "cancelling_units (Noticing Bumping) = 3"
| "cancelling_units (Noticing Telling) = 2"
| "cancelling_units Waking = 1"

text \<open>\<open>j\<close> is the number of threads that are still to be joined.\<close>

fun client_units :: "nat \<Rightarrow> 'c client_pc \<Rightarrow> nat" where
  "client_units j (Returned r) = 0"
| "client_units j (Space rq pt) = request_units rq"
| "client_units j (Inserting rq) = request_units rq"
| "client_units j (Checking_workers k nx) = 2 + next_units nx"
| "client_units j (Notifying_workers k nx) = 1 + next_units nx"
| "client_units j (Awaiting pt) = 0"
| "client_units j (Cancelling pu) = 6 + purpose_units j pu"
| "client_units j (Cancel pu n ca) = cancelling_units ca + purpose_units j pu"
| "client_units j (Locking mode) = 12 + j"
| "client_units j (Stopping mode ext) = 11 + j"
| "client_units j (Requesting ext) = 4 + j"
| "client_units j (Signalling ext) = 3 + j"
| "client_units j Taking = 2 + j"
| "client_units j (Joining ws) = 1 + length ws"

definition worker_budget :: "'c machine \<Rightarrow> nat" where
  "worker_budget m = summed worker_units (\<lambda>w. (wpc m w, phase (sys m) w)) (worker_count (pool (sys m)))"

definition client_budget :: "'c machine \<Rightarrow> nat" where
  "client_budget m = summed (client_units (length (workers (pool (sys m))))) (cpc m) (clients m)"

definition budget :: "'c machine \<Rightarrow> nat" where
  "budget m = 8 * length (queued (pool (sys m))) + worker_budget m + client_budget m"

section \<open>How far a thread is from sleeping or leaving its loop\<close>

fun loop_unrest :: "bool \<Rightarrow> u64 \<Rightarrow> loop_point \<Rightarrow> nat" where
  "loop_unrest blocked state Loading = (if blocked then 4 else 2)"
| "loop_unrest blocked state Counting = (if blocked then 3 else 5)"
| "loop_unrest blocked state Observing = (if blocked then 2 else 4)"
| "loop_unrest blocked state (Comparing v) = (if state = v then 1 else 6)"
| "loop_unrest blocked state (Asleep v k) = 0"
| "loop_unrest blocked state Uncounting = (if blocked then 5 else 3)"

fun idle_unrest :: "bool \<Rightarrow> u64 \<Rightarrow> idle_point \<Rightarrow> nat" where
  "idle_unrest idle epoch Idle_loading = (if idle then 1 else 5)"
| "idle_unrest idle epoch Idle_counting = (if idle then 5 else 4)"
| "idle_unrest idle epoch Idle_reading = (if idle then 4 else 3)"
| "idle_unrest idle epoch (Idle_rechecking e) = (if idle then 3 else if epoch = e then 2 else 8)"
| "idle_unrest idle epoch (Idle_comparing e) = (if epoch = e then 1 else 7)"
| "idle_unrest idle epoch (Idle_asleep e k) = 0"
| "idle_unrest idle epoch Idle_uncounting = (if idle then 2 else 6)"

fun worker_unrest :: "u64 \<Rightarrow> worker_pc \<Rightarrow> nat" where
  "worker_unrest state (W_waiting pt) = loop_unrest (no_work state) state pt"
| "worker_unrest state W_claiming = (if pending_from_state state = 0 then 5 else 1)"
| "worker_unrest state _ = 0"

fun client_unrest :: "nat \<Rightarrow> u64 \<Rightarrow> bool \<Rightarrow> u64 \<Rightarrow> 'c client_pc \<Rightarrow> nat" where
  "client_unrest cap state idle epoch (Space rq pt) = loop_unrest (no_room cap state) state pt"
| "client_unrest cap state idle epoch (Inserting rq) = (if no_room cap state then 5 else 1)"
| "client_unrest cap state idle epoch (Awaiting pt) = idle_unrest idle epoch pt"
| "client_unrest cap state idle epoch _ = 0"

abbreviation unrest_of_client :: "'c machine \<Rightarrow> 'c client_pc \<Rightarrow> nat" where
  "unrest_of_client m \<equiv> client_unrest (queue_capacity (pool (sys m))) (word_of m)
     (is_idle (pool (sys m))) (completion_epoch m)"

definition unrest :: "'c machine \<Rightarrow> nat" where
  "unrest m = summed (worker_unrest (word_of m)) (wpc m) (worker_count (pool (sys m))) +
     summed (unrest_of_client m) (cpc m) (clients m)"

section \<open>Every turn uses up budget or unrest\<close>

lemma units_wake [simp]:
  "worker_units (wake_worker wp, ph) = worker_units (wp, ph)"
  "client_units j (wake_client pc) = client_units j pc"
  "client_units j (tell_client n pc) = client_units j pc"
proof -
  show "worker_units (wake_worker wp, ph) = worker_units (wp, ph)" by (cases wp) auto
  show "client_units j (wake_client pc) = client_units j pc" by (cases pc; simp)
  show "client_units j (tell_client n pc) = client_units j pc"
    by (induction n pc rule: tell_client.induct) auto
qed

lemma worker_turn_phases:
  assumes "worker_turn nfy out W w m = Some m'" and "v \<noteq> w"
  shows "phase (sys m') v = phase (sys m) v"
  using assms
  by (auto simp: worker_turn_defs dest!: notice_frame split: worker_pc.splits loop_move.splits
      if_splits option.splits prod.splits worker_phase.splits list.splits)

text \<open>The budget moves by the mover's own units and the queue.\<close>

lemma worker_turn_budget:
  assumes "worker_turn nfy out W w m = Some m'" and "w < worker_count (pool (sys m))" and "linked m"
    and "workers (pool (sys m')) = workers (pool (sys m))"
  shows "worker_budget m' + worker_units (wpc m w, phase (sys m) w) =
      worker_budget m + worker_units (wpc m' w, phase (sys m') w)"
    and "client_budget m' = client_budget m"
proof -
  note others = worker_turn_others [OF assms(1)]
  have wc: "worker_count (pool (sys m')) = worker_count (pool (sys m))"
    using worker_turn_simulates [OF assms(1-3)] worker_step_frame by metis
  show "worker_budget m' + worker_units (wpc m w, phase (sys m) w) =
      worker_budget m + worker_units (wpc m' w, phase (sys m') w)"
    unfolding worker_budget_def wc using others(1) worker_turn_phases [OF assms(1)]
    by (intro summed_one [OF assms(2)]) (metis units_wake(1))
  show "client_budget m' = client_budget m"
    unfolding client_budget_def assms(4) others(3) using others(2)
    by (intro summed_cong) (metis units_wake(2,3))
qed


lemma worker_unrest_drop:
  assumes "wpc m' = (wpc m)(w := pc)" and "cpc m' = cpc m" and "clients m' = clients m"
    and "pool (sys m') = pool (sys m)" and "completion_epoch m' = completion_epoch m"
    and "w < worker_count (pool (sys m))"
    and "worker_unrest (word_of m) pc < worker_unrest (word_of m) (wpc m w)"
  shows "unrest m' < unrest m"
  using summed_update [OF assms(6), of "worker_unrest (word_of m)" "wpc m" pc] assms(7)
  by (simp add: unrest_def assms(1-5))

lemma loop_unrest_moves:
  "loop_next b s k pt = Moves pt' \<Longrightarrow> loop_unrest (b s) s pt' < loop_unrest (b s) s pt"
  by (cases pt) auto

lemma idle_unrest_moves:
  "idle_next b e k pt = Idle_moves pt' \<Longrightarrow> idle_unrest b e pt' < idle_unrest b e pt"
  by (cases pt) auto

lemma claim_nothing:
  assumes "system_inv s" and "claim (pool s) = Some ([], p)"
  shows "pending_from_state (queue_state (pool s)) = 0"
proof (rule ccontr)
  assume "pending_from_state (queue_state (pool s)) \<noteq> 0"
  then have "queued (pool s) \<noteq> []" using pool_observers(1) [OF system_invD(1) [OF assms(1)]] by auto
  then show False
    using claim_items [OF system_invD(1) [OF assms(1)] _ active_room [OF assms(1)]] claimed_bounds(2) assms(2)
    by (metis option.inject prod.inject)
qed

lemma worker_turn_progress:
  assumes "worker_turn nfy out W w m = Some m'" and "w < worker_count (pool (sys m))" and "linked m"
  shows "budget m' < budget m \<or> (budget m' = budget m \<and> unrest m' < unrest m)"
proof -
  note b = worker_turn_budget [OF assms worker_turn_workers [OF assms(1)]]
  have drop: ?thesis
    if "8 * length (queued (pool (sys m'))) + worker_units (wpc m' w, phase (sys m') w) <
      8 * length (queued (pool (sys m))) + worker_units (wpc m w, phase (sys m) w)"
    using that b by (simp add: budget_def)
  have same: "budget m' = budget m"
    if "pool (sys m') = pool (sys m)"
      "worker_units (wpc m' w, phase (sys m') w) = worker_units (wpc m w, phase (sys m) w)"
    using that b by (simp add: budget_def)
  show ?thesis
  proof (cases "wpc m w")
    case (W_waiting pt)
    then consider (moves) pt' where "loop_next no_work (word_of m) (modified m) pt = Moves pt'"
        "m' = worker_at w (W_waiting pt') (m\<lparr>waiting_workers := recount pt (waiting_workers m)\<rparr>)"
      | (leaves) "pt = Loading" "\<not> no_work (word_of m)" "pending_from_state (word_of m) = 0"
          "m' = worker_at w W_returned (m\<lparr>sys := (sys m)\<lparr>phase := (phase (sys m))(w := Exited)\<rparr>\<rparr>)"
      | (claims) "pt = Loading" "\<not> no_work (word_of m)" "pending_from_state (word_of m) \<noteq> 0"
          "m' = worker_at w W_claiming m"
      using assms(1)
      by (auto simp: worker_turn_defs dest!: loop_leaves split: loop_move.splits if_splits)
    then show ?thesis
    proof cases
      case (moves pt')
      have "unrest m' < unrest m"
        using loop_unrest_moves [OF moves(1)] W_waiting
        by (intro worker_unrest_drop [where pc = "W_waiting pt'", OF _ _ _ _ _ assms(2)])
          (simp_all add: moves(2))
      then show ?thesis using same W_waiting by (simp add: moves(2))
    next
      case leaves
      have "unrest m' < unrest m"
        using leaves(1-3) W_waiting
        by (intro worker_unrest_drop [where pc = W_returned, OF _ _ _ _ _ assms(2)]) (simp_all add: leaves(4))
      then show ?thesis using same W_waiting by (simp add: leaves(4))
    next
      case claims
      have "unrest m' < unrest m"
        using claims(1-3) W_waiting
        by (intro worker_unrest_drop [where pc = W_claiming, OF _ _ _ _ _ assms(2)]) (simp_all add: claims(4))
      then show ?thesis using same W_waiting by (simp add: claims(4))
    qed
  next
    case W_claiming
    then obtain items p where cl: "claim (pool (sys m)) = Some (items, p)"
      using assms(1) by (auto simp: worker_turn_defs split: if_splits option.splits)
    show ?thesis
    proof (cases "items = []")
      case True
      then have m': "m' = worker_at w (W_waiting Loading) m"
        using assms(1) W_claiming cl by (auto simp: worker_turn_defs split: if_splits)
      have "unrest m' < unrest m"
        using claim_nothing [OF linkedD(1) [OF assms(3)] cl [unfolded True]] W_claiming
        by (intro worker_unrest_drop [where pc = "W_waiting Loading", OF _ _ _ _ _ assms(2)]) (simp_all add: m')
      then show ?thesis using same W_claiming by (simp add: m')
    next
      case False
      note res = claim_result [OF linkedD(1) [OF assms(3)] cl False]
      have "length items \<le> length (queued (pool (sys m)))"
        using arg_cong [OF claimed_prefix [of "queued (pool (sys m))"], of length] by (simp add: res(2))
      then have "8 * (length (queued (pool (sys m))) - length items) + (6 + length items) <
          8 * length (queued (pool (sys m)))"
        using length_greater_0_conv [THEN iffD2, OF False] by linarith
      then show ?thesis
        using assms(1) W_claiming cl False res(4)
        by (intro drop) (auto simp: worker_turn_defs split: if_splits)
    qed
  next
    case W_executing
    with linkedD(3) [OF assms(3), of w] obtain xs k where run: "phase (sys m) w = Running xs k"
      by (auto simp: in_batch_def split: worker_phase.splits)
    show ?thesis
    proof (cases xs)
      case Nil
      obtain bb p where fin: "finish_tasks k (pool (sys m)) = (bb, p)" by (cases "finish_tasks k (pool (sys m))")
      have "queued p = queued (pool (sys m))"
        using finish_result(2) [OF linkedD(1) [OF assms(3)] assms(2) run [unfolded Nil] fin] .
      then show ?thesis
        using assms(1) W_executing run Nil fin by (intro drop) (auto simp: worker_turn_defs)
    next
      case (Cons x ys)
      then show ?thesis
        using assms(1) W_executing run
        by (intro drop) (auto simp: worker_turn_defs account_def queued_def split: option.splits if_splits)
    qed
  next
    case (W_noticing nt)
    then show ?thesis
      using assms(1) by (intro drop, cases nt) (auto simp: worker_turn_defs split: if_splits)
  next
    case W_checking
    then show ?thesis using assms(1) by (intro drop) (auto simp: worker_turn_defs)
  next
    case W_notifying
    then show ?thesis
      using assms(1) by (intro drop) (auto simp: worker_turn_defs split: if_splits)
  next
    case W_returned
    with assms(1) show ?thesis by (simp add: worker_turn_defs)
  qed
qed


lemma client_turn_budget:
  assumes "client_turn nfy W c m = Some m'" and "c < clients m" and "linked m"
  shows "worker_budget m' = worker_budget m"
    and "workers (pool (sys m')) = workers (pool (sys m)) \<Longrightarrow>
      client_budget m' + client_units (length (workers (pool (sys m)))) (cpc m c) =
      client_budget m + client_units (length (workers (pool (sys m)))) (cpc m' c)"
proof -
  note others = client_turn_others [OF assms(1)] and frame = client_turn_frame [OF assms(1)]
  have wc: "worker_count (pool (sys m')) = worker_count (pool (sys m))"
    using client_turn_simulates [OF assms(1,3)] client_step_frame by metis
  have phases: "phase (sys m') = phase (sys m)"
    using assms(1)
    by (auto simp: client_turn_defs accept_def cancel_all_def set_stopping_def dest!: notice_frame
      split: client_pc.splits loop_move.splits if_splits option.splits prod.splits insertion.splits
      idle_move.splits cancelling.splits list.splits)
  show "worker_budget m' = worker_budget m"
    unfolding worker_budget_def wc phases using frame(2) by (intro summed_cong) (metis units_wake(1))
  show "client_budget m' + client_units (length (workers (pool (sys m)))) (cpc m c) =
      client_budget m + client_units (length (workers (pool (sys m)))) (cpc m' c)"
    if "workers (pool (sys m')) = workers (pool (sys m))"
    unfolding client_budget_def that frame(1) using others
    by (intro summed_one [OF assms(2)]) (metis units_wake(2,3))
qed

lemma client_unrest_drop:
  assumes "cpc m' = (cpc m)(c := pc)" and "wpc m' = wpc m" and "clients m' = clients m"
    and "pool (sys m') = pool (sys m)" and "completion_epoch m' = completion_epoch m"
    and "c < clients m" and "unrest_of_client m pc < unrest_of_client m (cpc m c)"
  shows "unrest m' < unrest m"
  using summed_update [OF assms(6), of "unrest_of_client m" "cpc m" pc] assms(7)
  by (simp add: unrest_def assms(1-5))

lemma next_units_resume: "client_units j (resume nx) = next_units nx"
  by (cases nx) (simp_all add: resume_def next_units_def)

text \<open>An accepted insertion pays for the queued tasks and the notification; a full queue is no room.\<close>

lemma insert_pays:
  assumes "insert_request rq p = Inserted k items p' nx" and "pool_inv a xs p"
  shows "8 * length (queued p') + 2 + next_units nx < 8 * length (queued p) + request_units rq"
proof (cases rq)
  case (Single cb tr)
  have fresh: "fresh_item xs (fire_and_forget cb) p"
    by (rule fresh_untracked) (simp add: fire_and_forget_def)
  with assms Single submit_tracked_accepted [OF assms(2)] enqueue_cases(2) [OF assms(2) fresh] show ?thesis
    by (auto simp: insert_defs next_units_def split: if_splits submission.splits)
next
  case (Bulk ts acc)
  then obtain q where r: "dispatch_bulk_round ts p = Bulk_moved k q" and q: "p' = q"
    "nx = (if k < length ts then Inl (Bulk (drop k ts) (acc + k)) else Inr (Count (acc + k)))"
    using assms(1) by (auto simp: insert_defs split: bulk_round.splits)
  have "queued q = queued p @ map bulk_item (take k ts)" and k: "k \<le> length ts"
    using dispatch_bulk_round_cases(3) [OF assms(2) r] r
    by (auto simp: dispatch_bulk_round_def Let_def split: if_splits)
  moreover have "k < length ts \<Longrightarrow> 0 < k"
    using r by (auto simp: dispatch_bulk_round_def Let_def split: if_splits)
  ultimately show ?thesis using Bulk q by (auto simp: next_units_def)
qed

lemma insert_full:
  assumes "insert_request rq p = Insert_full" and "pool_inv a xs p"
  shows "no_room (queue_capacity p) (queue_state p)"
  using assms(1) pool_observers [OF assms(2)]
  by (cases rq) (auto simp: no_room_def insert_defs submit_tracked_def enqueue_def with_promise_def
      dispatch_bulk_round_def Let_def split: if_splits submission.splits bulk_round.splits)


lemma units_mono: "j \<le> j' \<Longrightarrow> client_units j pc \<le> client_units j' pc"
proof -
  assume "j \<le> j'"
  moreover from this have "purpose_units j pu \<le> purpose_units j' pu" for pu by (cases pu) auto
  ultimately show ?thesis by (cases pc) auto
qed

lemma take_budget:
  assumes "client_turn nfy W c m = Some m'" and "c < clients m" and "linked m" and "cpc m c = Taking"
  shows "budget m' < budget m"
proof -
  let ?j = "length (workers (pool (sys m)))" and ?f = "(cpc m)(c := Joining (workers (pool (sys m))))"
  have m': "m' = client_at c (Joining (workers (pool (sys m))))
      (m\<lparr>sys := (sys m)\<lparr>pool := (pool (sys m))\<lparr>workers := []\<rparr>\<rparr>\<rparr>)"
    using assms(1,4) by (auto simp: client_turn_defs)
  have "client_budget m' \<le> summed (client_units ?j) ?f (clients m)"
    by (simp add: client_budget_def summed_def m') (intro sum_mono units_mono, simp)
  moreover have "summed (client_units ?j) ?f (clients m) + (2 + ?j) = client_budget m + (1 + ?j)"
    using summed_update [OF assms(2), of "client_units ?j" "cpc m"] assms(4)
    by (simp add: client_budget_def)
  moreover have "queued (pool (sys m')) = queued (pool (sys m))" by (simp add: m' queued_def)
  ultimately show ?thesis
    using client_turn_budget(1) [OF assms(1-3)] by (simp add: budget_def)
qed

lemma client_turn_progress:
  assumes "client_turn nfy W c m = Some m'" and "c < clients m" and "linked m"
  shows "budget m' < budget m \<or> (budget m' = budget m \<and> unrest m' < unrest m)"
proof (cases "cpc m c = Taking")
  case True
  then show ?thesis using take_budget [OF assms] by blast
next
  case not_taking: False
  note inv = linkedD(2) [OF assms(3)]
  let ?j = "length (workers (pool (sys m)))"
  have ws: "workers (pool (sys m')) = workers (pool (sys m))"
    using client_turn_workers [OF assms(1)] not_taking by blast
  note b = client_turn_budget(1) [OF assms] client_turn_budget(2) [OF assms ws]
  have drop: ?thesis
    if "8 * length (queued (pool (sys m'))) + client_units ?j (cpc m' c) <
      8 * length (queued (pool (sys m))) + client_units ?j (cpc m c)"
    using that b by (simp add: budget_def)
  have calm: ?thesis
    if "pool (sys m') = pool (sys m)" "client_units ?j (cpc m' c) \<le> client_units ?j (cpc m c)"
      "unrest m' < unrest m"
    using that b by (simp add: budget_def) linarith
  show ?thesis
  proof (cases "cpc m c")
    case (Space rq pt)
    show ?thesis
    proof (cases "loop_next (no_room (queue_capacity (pool (sys m)))) (word_of m) (modified m) pt")
      case Stays
      with Space assms(1) show ?thesis by (simp add: client_turn_defs)
    next
      case (Moves pt')
      then have m': "m' = client_at c (Space rq pt') (m\<lparr>waiting_producers := recount pt (waiting_producers m)\<rparr>)"
        using Space assms(1) by (simp add: client_turn_defs)
      have "unrest m' < unrest m"
        using loop_unrest_moves [OF Moves] Space
        by (intro client_unrest_drop [where pc = "Space rq pt'", OF _ _ _ _ _ assms(2)]) (simp_all add: m')
      then show ?thesis using Space by (intro calm) (simp_all add: m')
    next
      case Leaves_loop
      let ?pc = "if is_stopping_state (word_of m) then Returned (refusal rq) else Inserting rq"
      have m': "m' = client_at c ?pc m" using Leaves_loop Space assms(1) by (simp add: client_turn_defs)
      have "unrest m' < unrest m"
        using loop_leaves [OF Leaves_loop] Space
        by (intro client_unrest_drop [where pc = ?pc, OF _ _ _ _ _ assms(2)]) (simp_all add: m')
      then show ?thesis using Space by (intro calm) (simp_all add: m')
    qed
  next
    case (Inserting rq)
    show ?thesis
    proof (cases "insert_request rq (pool (sys m))")
      case (Insert_refused r)
      have "0 < request_units rq" by (cases rq) auto
      then show ?thesis
        using Inserting assms(1) Insert_refused
        by (intro drop) (auto simp: client_turn_defs split: if_splits)
    next
      case Insert_full
      then have m': "m' = client_at c (Space rq Loading) m"
        using Inserting assms(1) by (auto simp: client_turn_defs split: if_splits)
      have "unrest m' < unrest m"
        using insert_full [OF Insert_full inv] Inserting
        by (intro client_unrest_drop [where pc = "Space rq Loading", OF _ _ _ _ _ assms(2)]) (simp_all add: m')
      then show ?thesis using Inserting by (intro calm) (simp_all add: m')
    next
      case (Inserted k items p nx)
      then show ?thesis
        using Inserting assms(1) insert_pays [OF Inserted inv]
        by (intro drop) (auto simp: client_turn_defs accept_def split: if_splits)
    qed
  next
    case (Checking_workers k nx)
    then show ?thesis
      using assms(1) by (intro drop) (auto simp: client_turn_defs next_units_resume)
  next
    case (Notifying_workers k nx)
    then show ?thesis
      using assms(1) by (intro drop) (auto simp: client_turn_defs next_units_resume split: if_splits)
  next
    case (Awaiting pt)
    show ?thesis
    proof (cases "idle_next (is_idle (pool (sys m))) (completion_epoch m) (bumped m) pt")
      case Idle_stays
      with Awaiting assms(1) show ?thesis by (simp add: client_turn_defs)
    next
      case (Idle_moves pt')
      then have m': "m' = client_at c (Awaiting pt') (m\<lparr>waiting_for_idle := idle_recount pt (waiting_for_idle m)\<rparr>)"
        using Awaiting assms(1) by (simp add: client_turn_defs)
      have "unrest m' < unrest m"
        using idle_unrest_moves [OF Idle_moves] Awaiting
        by (intro client_unrest_drop [where pc = "Awaiting pt'", OF _ _ _ _ _ assms(2)]) (simp_all add: m')
      then show ?thesis using Awaiting by (intro calm) (simp_all add: m')
    next
      case Idle_leaves
      then have m': "m' = client_at c (Returned Done) m"
        using Awaiting assms(1) by (simp add: client_turn_defs)
      have "unrest m' < unrest m"
        using idle_leaves [OF Idle_leaves] Awaiting
        by (intro client_unrest_drop [where pc = "Returned Done", OF _ _ _ _ _ assms(2)]) (simp_all add: m')
      then show ?thesis using Awaiting by (intro calm) (simp_all add: m')
    qed
  next
    case (Cancelling pu)
    obtain p where p: "cancel_pending (pool (sys m)) = Some (length (queued (pool (sys m))), p)" "queued p = []"
      using cancel_pending_effect [OF inv] by metis
    then show ?thesis
      using Cancelling assms(1)
      by (intro drop, cases pu) (auto simp: client_turn_defs cancel_all_def split: if_splits)
  next
    case (Cancel pu n ca)
    then show ?thesis
      using assms(1) by (intro drop, cases ca rule: cancelling_units.cases; cases pu)
        (auto simp: client_turn_defs split: if_splits)
  next
    case (Stopping mode ext)
    then show ?thesis
      using assms(1) signal_stop(2) [OF inv]
      by (intro drop) (auto simp: client_turn_defs set_stopping_def split: if_splits)
  next
    case (Joining js)
    then show ?thesis
      using assms(1) by (intro drop) (auto simp: client_turn_defs split: list.splits if_splits)
  qed (use assms(1) not_taking drop in \<open>auto simp: client_turn_defs split: if_splits\<close>)
qed

section \<open>No run of turns goes on for ever\<close>

lemma thread_step_progress:
  assumes "thread_step nfy m m'" and "linked m"
  shows "((budget m', unrest m'), budget m, unrest m) \<in> less_than <*lex*> less_than"
  using assms(1)
proof cases
  case (worker_turns w out W)
  then show ?thesis using worker_turn_progress [OF worker_turns(2,1) assms(2)] by auto
next
  case (client_turns c W)
  then show ?thesis using client_turn_progress [OF client_turns(2,1) assms(2)] by auto
qed

lemma turns_well_founded: "wf {(m', m). thread_step nfy m m' \<and> linked m}"
  by (rule wf_subset [OF wf_inv_image [of "less_than <*lex*> less_than" "\<lambda>m. (budget m, unrest m)"]])
    (auto simp: inv_image_def dest!: thread_step_progress)

lemma thread_step_linked: "thread_step nfy m m' \<Longrightarrow> linked m \<Longrightarrow> linked m'"
  using machine_step_linked turns by blast

lemma turns_come_to_rest:
  assumes "linked m"
  shows "\<exists>m'. (thread_step nfy)\<^sup>*\<^sup>* m m' \<and> quiescent nfy m'"
  using assms
proof (induction m rule: wf_induct_rule [OF turns_well_founded [of nfy]])
  case (1 m)
  show ?case
  proof (cases "quiescent nfy m")
    case True
    then show ?thesis by blast
  next
    case False
    then obtain m1 where "thread_step nfy m m1" by (auto simp: quiescent_def)
    with 1 show ?thesis
      by (metis (mono_tags, lifting) case_prodI converse_rtranclp_into_rtranclp mem_Collect_eq thread_step_linked)
  qed
qed

end
