(* ===== verification/Pool_Waiting.thy ===== *)
theory Pool_Waiting
  imports Machine_Termination
begin

text \<open>
  What the callers of a pool may rely on when they block: the waiting counters are exact, turns come to
  an end, a machine at rest has forgotten nobody when notifications reach every blocked thread or the
  pool is stopping - and the run in which a \<open>notify_one\<close> that wakes a single thread loses a wake-up.
\<close>

section \<open>A machine at rest\<close>

lemma returned_workers:
  assumes "linked m"
    and "\<forall>w < worker_count (pool (sys m)). worker_asleep (wpc m w) \<or> wpc m w = W_returned"
  shows "active (sys m) = 0"
    and "w < worker_count (pool (sys m)) \<Longrightarrow> wpc m w = W_returned \<Longrightarrow>
      is_stopping (pool (sys m)) \<and> queued (pool (sys m)) = []"
    and "0 < worker_count (pool (sys m))"
proof -
  have "batch (phase (sys m) w) = 0" if "w < worker_count (pool (sys m))" for w
    using assms(2) that linkedD(3) [OF assms(1), of w]
    by (cases "wpc m w") auto
  then show "active (sys m) = 0" by (simp add: summed_eq_0)
  show "is_stopping (pool (sys m)) \<and> queued (pool (sys m)) = []"
    if "w < worker_count (pool (sys m))" "wpc m w = W_returned"
    using linkedD(3) [OF assms(1), of w] that(2) system_invD(6) [OF linkedD(1) [OF assms(1)], of w] by simp
  show "0 < worker_count (pool (sys m))" using linkedD(2) [OF assms(1)] by (simp add: pool_inv_def)
qed

lemma no_waiter_left:
  assumes "epochs_ok m" and "idle_announced m" and "sleepers_ok m" and "truly_idle (sys m)"
    and "\<And>w. \<not> worker_bumps (wpc m w) \<and> \<not> worker_tells (wpc m w)"
    and "\<And>c. \<not> client_bumps (cpc m c) \<and> \<not> client_tells (cpc m c)"
  shows "cpc m c \<noteq> Awaiting (Idle_asleep e k)"
proof
  assume sleeps: "cpc m c = Awaiting (Idle_asleep e k)"
  have "epoch_ok (bumped m) (cpc m c)" using assms(1) by (simp add: epochs_ok_def)
  then have e: "k = unat e" "unat e \<le> bumped m" using sleeps by simp_all
  have none: "\<not> late (bumped m) (cpc m d)" "\<not> committed (bumped m) (cpc m d)" for d
    using assms(2,4-6) by (auto simp: idle_announced_def)
  from none [of c] e show False by (simp add: sleeps)
qed

lemma rest_is_complete:
  assumes new: "Pool_new hw r cap = Inr p0" and nfy: "notify_one_contract nfy"
    and reach: "machine_reach nfy p0 n m" and bounds: "n < 2 ^ 64" "bumped m < 2 ^ 64"
    and rest: "quiescent nfy m" and "nfy = wakes_every \<or> is_stopping (pool (sys m))"
  shows "queued (pool (sys m)) = []"
    and "w < worker_count (pool (sys m)) \<Longrightarrow>
      (if is_stopping (pool (sys m)) then wpc m w = W_returned else worker_asleep (wpc m w))"
    and "c < n \<Longrightarrow> \<not> producer_asleep (cpc m c)"
proof -
  note link = machine_reach_linked(1) [OF new reach] and sleep = machine_reach_sleepers [OF new reach]
    and ann = machine_reach_announced [OF new reach]
  note q = quiescent_threads [OF link nfy rest] and n = machine_reach_clients [OF reach]
  have "\<forall>w < worker_count (pool (sys m)). worker_asleep (wpc m w) \<or> wpc m w = W_returned"
    using q(2) by blast
  note ret = returned_workers [OF link this]
  have quiet: "\<not> announces (cpc m c)" "\<not> brings_work (cpc m c)" "\<not> holds_queue (cpc m c)" for c
  proof -
    have "cpc m c = Returned Done" if "\<not> c < clients m" using that sleep by (simp add: sleepers_ok_def)
    then show "\<not> announces (cpc m c)" "\<not> brings_work (cpc m c)" "\<not> holds_queue (cpc m c)"
      using q(3) [of c] by (cases "cpc m c"; force)+
  qed
  have freed: "\<not> frees_room (wpc m v)" for v
    using q(2) [of v] sleep
    by (cases "v < worker_count (pool (sys m))") (auto simp: sleepers_ok_def elim: frees_room.elims)
  have stop: "\<not> some_asleep m" if "is_stopping (pool (sys m))"
    using ann(1) that quiet(1) by (auto simp: stop_announced_def)
  have all: "work_announced m \<and> room_announced m" if "\<not> is_stopping (pool (sys m))"
    using ann(2) assms(7) that bounds(1) by blast
  show queue: "queued (pool (sys m)) = []"
  proof (cases "is_stopping (pool (sys m))")
    case True
    then show ?thesis using stop ret(2,3) q(2) by blast
  next
    case False
    have "worker_asleep (wpc m 0)" using q(2) [OF ret(3)] ret(2) [OF ret(3)] False by blast
    then show ?thesis using all [OF False] quiet(2) by (auto simp: work_announced_def)
  qed
  show "if is_stopping (pool (sys m)) then wpc m w = W_returned else worker_asleep (wpc m w)"
    if "w < worker_count (pool (sys m))"
    using stop q(2) [OF that] ret(2) [OF that] by auto
  show "\<not> producer_asleep (cpc m c)"
  proof (cases "is_stopping (pool (sys m))")
    case True
    then show ?thesis using stop by blast
  next
    case False
    then show ?thesis
      using all [OF False] quiet(3) freed queue linkedD_word(5) [OF link] by (auto simp: room_announced_def)
  qed
qed

lemma rest_clients:
  assumes new: "Pool_new hw r cap = Inr p0" and nfy: "notify_one_contract nfy"
    and reach: "machine_reach nfy p0 n m" and bounds: "n < 2 ^ 64" "bumped m < 2 ^ 64"
    and rest: "quiescent nfy m" and which: "nfy = wakes_every \<or> is_stopping (pool (sys m))"
    and c: "c < n"
  shows "\<exists>rp. cpc m c = Returned rp"
proof -
  note link = machine_reach_linked(1) [OF new reach] and sleep = machine_reach_sleepers [OF new reach]
    and joins = machine_reach_joins [OF new reach]
  note q = quiescent_threads [OF link nfy rest] and n = machine_reach_clients [OF reach]
  note complete = rest_is_complete [OF new nfy reach bounds rest which]
  have idle: "truly_idle (sys m)"
    using returned_workers(1) [OF link] q(2) complete(1) by (auto simp: truly_idle_def)
  have outside: "cpc m d = Returned Done" if "\<not> d < clients m" for d
    using that sleep by (simp add: sleepers_ok_def)
  have held: "held_up (wpc m) (cpc m d) \<or> (\<exists>mode. cpc m d = Locking mode \<and> shutdown_locked m)" for d
    using q(3) [of d] outside [of d] by (cases "d < clients m") auto
  have no_join: "cpc m d \<noteq> Joining ws" for d ws
  proof
    assume j: "cpc m d = Joining ws"
    with held [of d] obtain v vs where v: "ws = v # vs" "wpc m v \<noteq> W_returned" by (cases ws) auto
    have "v < worker_count (pool (sys m))" using joins j v(1) unfolding joins_ok_def by fastforce
    moreover have "is_stopping (pool (sys m))" using linkedD(4) [OF link, of d] j by simp
    ultimately show False using complete(2) [of v] v(2) by simp
  qed
  have unlocked: "\<not> shutdown_locked m"
  proof
    assume "shutdown_locked m"
    then obtain d where "holds_shutdown (cpc m d)" by (auto simp: shutdown_locked_def)
    then show False using held [of d] no_join [of d] by (cases "cpc m d") (auto elim: held_up.elims)
  qed
  have noticed: "\<not> worker_bumps (wpc m v) \<and> \<not> worker_tells (wpc m v)" for v
    using q(2) [of v] sleep by (cases "v < worker_count (pool (sys m))")
      (auto simp: sleepers_ok_def elim: worker_bumps.elims worker_tells.elims)
  have "\<not> client_bumps (cpc m d) \<and> \<not> client_tells (cpc m d)" for d
    using held [of d] by (auto elim!: client_bumps.elims client_tells.elims)
  then have "cpc m c \<noteq> Awaiting (Idle_asleep e k)" for e k
    using no_waiter_left [OF _ _ sleep idle noticed] machine_reach_announced(3) [OF new reach bounds] by blast
  moreover have "\<not> producer_asleep (cpc m c)" using complete(3) [OF c] .
  ultimately show ?thesis
    using held [of c] no_join [of c] unlocked held_up_cases by blast
qed


section \<open>Runs given by a list of moves\<close>

datatype 'c move = Worker_move nat outcome "thread list" | Client_move nat "thread list"
  | Begin_move nat "'c call"

fun make_move :: "notify_one \<Rightarrow> 'c move \<Rightarrow> 'c machine \<Rightarrow> 'c machine option" where
  "make_move nfy (Worker_move w out W) m =
     (if w < worker_count (pool (sys m)) then worker_turn nfy out W w m else None)"
| "make_move nfy (Client_move c W) m = (if c < clients m then client_turn nfy W c m else None)"
| "make_move nfy (Begin_move c cl) m = (if c < clients m then begin_call cl c m else None)"

fun run_moves :: "notify_one \<Rightarrow> 'c move list \<Rightarrow> 'c machine \<Rightarrow> 'c machine option" where
  "run_moves nfy [] m = Some m"
| "run_moves nfy (x # xs) m =
     (case make_move nfy x m of None \<Rightarrow> None | Some m' \<Rightarrow> run_moves nfy xs m')"

lemma make_move_step: "make_move nfy x m = Some m' \<Longrightarrow> machine_step nfy m m'"
  by (cases x) (auto intro: turns worker_turns client_turns begins split: if_splits)

lemma run_moves_reach:
  "machine_reach nfy p0 n m \<Longrightarrow> run_moves nfy xs m = Some m' \<Longrightarrow> machine_reach nfy p0 n m'"
proof (induction xs arbitrary: m)
  case (Cons x xs)
  then obtain m1 where "make_move nfy x m = Some m1" "run_moves nfy xs m1 = Some m'"
    by (auto split: option.splits)
  with Cons show ?case using advance make_move_step by blast
qed simp

definition one_slot_pool :: "unit Pool" where
  "one_slot_pool = \<lparr>worker_count = 1, queue_capacity = 1, slots = ring_new 1, queue_state = 0,
     failed_dispatches = 0, cancelled_dispatches = 0, promises = Map.empty, next_promise = 0,
     workers = [0], stop_requested = (\<lambda>_. False)\<rparr>"

lemma one_slot_pool_new: "Pool_new 0 1 1 = Inr one_slot_pool"
  by (simp add: Pool_new_def validate_queue_capacity_def max_queue_capacity_def max_worker_count_def
      one_slot_pool_def Let_def)

lemma contracts [simp]: "notify_one_contract wakes_one" "notify_one_contract wakes_every"
proof -
  have "wakes_one E (take 1 E)" for E by (cases E) (simp_all add: wakes_one_def)
  then have "\<exists>W. wakes_one E W" for E by blast
  moreover have "\<forall>E W. wakes_one E W \<longrightarrow> set W \<subseteq> set E \<and> (E \<noteq> [] \<longrightarrow> W \<noteq> [])"
    by (simp add: wakes_one_def split: list.splits)
  ultimately show "notify_one_contract wakes_one" unfolding notify_one_contract_def by blast
  show "notify_one_contract wakes_every" by (simp add: notify_one_contract_def wakes_every_def)
qed

text \<open>A machine at rest with one worker and no client, for either kind of notification.\<close>

lemma resting_worker:
  "\<exists>m. machine_reach nfy one_slot_pool 0 m \<and> quiescent nfy m \<and> bumped m = 0 \<and>
     wpc m 0 = W_waiting (Asleep 0 0)"
proof -
  let ?w = "Worker_move 0 (Finished ok) []"
  let ?m = "(machine_start one_slot_pool 0)\<lparr>wpc := (\<lambda>_. W_waiting Loading)(0 := W_waiting (Asleep 0 0)),
      waiting_workers := 1\<rparr>"
  have word: "no_work 0"
    by (simp add: no_work_def pending_from_state_def is_stopping_state_def)
  have "run_moves nfy [?w, ?w, ?w, ?w] (machine_start one_slot_pool 0) = Some ?m"
    by (simp add: machine_start_def system_start_def one_slot_pool_def worker_turn_defs word)
  from run_moves_reach [OF power_on this] have "machine_reach nfy one_slot_pool 0 ?m" .
  moreover have "quiescent nfy ?m"
    unfolding quiescent_def
    by (auto elim!: thread_step.cases simp: machine_start_def system_start_def one_slot_pool_def worker_turn_defs)
  ultimately show ?thesis by (intro exI [of _ ?m]) (simp add: machine_start_def)
qed

section \<open>Properties\<close>

text \<open>
  C22. The machine of atomic operations refines the pool protocol: what it does to the pool is a run of
  the protocol, so that every property of reachable protocol states holds of it, and the program
  counter of each worker agrees with its phase.
\<close>

theorem waiting_machine_refines_protocol:
  assumes "Pool_new hardware requested capacity = Inr p0" and "machine_reach nfy p0 n m"
  shows "pool_reach p0 (sys m) \<and> agrees (wpc m w) (phase (sys m) w) \<and>
    (\<forall>m'. machine_step nfy m m' \<longrightarrow> sys m' = sys m \<or> pool_step (sys m) (sys m'))"
  using machine_reach_linked [OF assms] linkedD(3) machine_step_linked by blast

theorem waiting_machine_refines_protocol_witness:
  "\<exists>m. machine_reach wakes_one one_slot_pool 0 m \<and> wpc m 0 = W_waiting (Asleep 0 0) \<and>
     pool_reach one_slot_pool (sys m)"
  using resting_worker [of wakes_one] waiting_machine_refines_protocol [OF one_slot_pool_new] by blast

text \<open>
  C23. The state of the machine is well formed: each of the three counters is exactly the number of
  threads between its increment and its decrement (no counter wraps), at most one thread holds the two
  queue mutexes in \<open>cancel_pending\<close> and at most one holds \<open>shutdown_mutex_\<close>, and an owner only
  joins threads of the pool.
\<close>

theorem waiting_state_is_well_formed:
  assumes "Pool_new hardware requested capacity = Inr p0" and "machine_reach nfy p0 n m"
    and "n < 2 ^ 64"
  shows "unat (waiting_workers m) = waiting_in_run m \<and> unat (waiting_producers m) = waiting_for_space m \<and>
    unat (waiting_for_idle m) = waiting_in_wait m \<and> exclusive m \<and> joins_ok m"
proof -
  note counts = machine_reach_counts [OF assms(1,2)] and n = machine_reach_clients [OF assms(2)]
  have fits: "unat (of_nat k :: u64) = k" if "k < 2 ^ 64" for k
    using that by (simp only: unat_of_nat) simp
  have "worker_count (pool (sys m)) < 2 ^ 64"
    using linkedD(2) [OF machine_reach_linked(1) [OF assms(1,2)]] by (simp add: pool_inv_def max_worker_count_def)
  then have "waiting_in_run m < 2 ^ 64" and "waiting_for_space m < 2 ^ 64" and "waiting_in_wait m < 2 ^ 64"
    using summed_le [of "worker_count (pool (sys m))" worker_counted "wpc m" "Suc 0"]
      summed_le [of "clients m" producer_counted "cpc m" "Suc 0"]
      summed_le [of "clients m" waiter_counted "cpc m" "Suc 0"] assms(3) n by simp_all
  then show ?thesis
    using counts fits machine_reach_exclusive [OF assms(1,2)] machine_reach_joins [OF assms(1,2)]
    by (simp add: counts_def)
qed

theorem waiting_state_is_well_formed_witness:
  "\<exists>m. machine_reach wakes_one one_slot_pool 0 m \<and> waiting_in_run m = 1 \<and> unat (waiting_workers m) = 1"
proof -
  obtain m where m: "machine_reach wakes_one one_slot_pool 0 m" "wpc m 0 = W_waiting (Asleep 0 0)"
    using resting_worker [of wakes_one] by blast
  have "worker_count (pool (sys m)) = 1"
    using pool_reach_limits [OF machine_reach_linked(2) [OF one_slot_pool_new m(1)]] by (simp add: one_slot_pool_def)
  then have "waiting_in_run m = 1" by (simp add: summed_def m(2))
  with waiting_state_is_well_formed [OF one_slot_pool_new m(1)] m(1) show ?thesis by auto
qed

text \<open>
  C20. Whatever \<open>notify_one\<close> picks and whatever the order of turns, the calls in progress do not run for
  ever: there is no infinite run of turns, and from every reachable state some run comes to rest.
\<close>

theorem turns_come_to_an_end:
  fixes m :: "'c machine"
  assumes "Pool_new hardware requested capacity = Inr p0" and "machine_reach nfy p0 n m"
  shows "\<not> (\<exists>f. f 0 = m \<and> (\<forall>i. thread_step nfy (f i) (f (Suc i)))) \<and>
    (\<exists>m'. (thread_step nfy)\<^sup>*\<^sup>* m m' \<and> machine_reach nfy p0 n m' \<and> quiescent nfy m')"
proof
  note link = machine_reach_linked(1) [OF assms]
  show "\<not> (\<exists>f. f 0 = m \<and> (\<forall>i. thread_step nfy (f i) (f (Suc i))))"
  proof
    assume "\<exists>f. f 0 = m \<and> (\<forall>i. thread_step nfy (f i) (f (Suc i)))"
    then obtain f where f: "f 0 = m" "\<And>i. thread_step nfy (f i) (f (Suc i))" by blast
    have "linked (f i)" for i by (induction i) (use f link thread_step_linked in auto)
    with f(2) have "\<forall>i. (f (Suc i), f i) \<in> {(m', m). thread_step nfy m m' \<and> linked m}" by simp
    then have "\<exists>g :: nat \<Rightarrow> 'c machine. \<forall>i. (g (Suc i), g i) \<in> {(m', m). thread_step nfy m m' \<and> linked m}"
      by (rule exI [of _ f])
    with turns_well_founded [of nfy] show False unfolding wf_iff_no_infinite_down_chain by blast
  qed
  obtain m' where run: "(thread_step nfy)\<^sup>*\<^sup>* m m'" and rest: "quiescent nfy m'"
    using turns_come_to_rest [OF link] by blast
  from run have "machine_reach nfy p0 n m'"
    by induction (use assms(2) in \<open>auto intro: advance turns\<close>)
  with run rest show "\<exists>m'. (thread_step nfy)\<^sup>*\<^sup>* m m' \<and> machine_reach nfy p0 n m' \<and> quiescent nfy m'" by blast
qed

theorem turns_come_to_an_end_witness:
  "\<exists>m. (thread_step wakes_one)\<^sup>*\<^sup>* (machine_start one_slot_pool 2) m \<and> quiescent wakes_one m"
  using turns_come_to_an_end [OF one_slot_pool_new power_on, where nfy = wakes_one and n = 2] by blast

text \<open>A run that wakes a producer where a worker was meant: the first producer is between its wake-up
  and its submission when the worker goes to sleep.\<close>

definition lost_wakeup_schedule :: "unit move list" where
  "lost_wakeup_schedule =
     (let w = (\<lambda>W. Worker_move 0 (Finished ok) W); c = (\<lambda>W. Client_move 0 W); d = (\<lambda>W. Client_move 1 W) in
      [Begin_move 0 (Call_dispatch ()), c [], c [], c [],
       Begin_move 0 (Call_dispatch ()), c [], c [], c [], c [],
       Begin_move 1 (Call_dispatch ()), d [], d [], d [], d [],
       w [], w [], w [], w [Client 0], w [], w [], w [], w [], w [], w [], w [],
       c [], c [], c [], c [], c [], c [Client 1], d []])"

lemma lost_wakeup_run:
  "map_option (\<lambda>m. (wpc m 0, cpc m 0, cpc m 1, word_of m, clients m))
     (run_moves wakes_one lost_wakeup_schedule (machine_start one_slot_pool 2)) =
   Some (W_waiting (Asleep 0 3), Returned Done, Space (Single (Task ()) False) (Asleep 1 4), 1, 2)"
  by code_simp

text \<open>
  C21. Producers and workers wait on the same atomic, and a \<open>notify_one\<close> that wakes a single eligible
  thread may wake the wrong kind: with one slot, one worker and two producers a state is reachable in
  which a task is queued, the worker and a producer sleep, and no thread can take a turn.
\<close>

theorem notify_one_can_lose_a_wakeup:
  "\<exists>m. Pool_new 0 1 1 = Inr one_slot_pool \<and> machine_reach wakes_one one_slot_pool 2 m \<and>
     quiescent wakes_one m \<and> length (queued (pool (sys m))) = 1 \<and> \<not> is_stopping (pool (sys m)) \<and>
     worker_asleep (wpc m 0) \<and> producer_asleep (cpc m 1)"
proof -
  obtain m where run: "run_moves wakes_one lost_wakeup_schedule (machine_start one_slot_pool 2) = Some m"
    and pcs: "wpc m 0 = W_waiting (Asleep 0 3)" "cpc m 0 = Returned Done"
      "cpc m 1 = Space (Single (Task ()) False) (Asleep 1 4)" and word: "word_of m = 1" and n: "clients m = 2"
    using lost_wakeup_run by auto
  have reach: "machine_reach wakes_one one_slot_pool 2 m" by (rule run_moves_reach [OF power_on run])
  note link = machine_reach_linked [OF one_slot_pool_new reach]
  have "worker_count (pool (sys m)) = 1"
    using pool_reach_limits [OF link(2)] by (simp add: one_slot_pool_def)
  then have "quiescent wakes_one m"
    unfolding quiescent_def using n pcs
    by (auto elim!: thread_step.cases simp: worker_turn_defs client_turn_defs less_2_cases_iff)
  moreover have "length (queued (pool (sys m))) = 1" and "\<not> is_stopping (pool (sys m))"
    using linkedD_word(1,2) [OF link(1)]
    by (simp_all add: word pending_from_state_def is_stopping_state_def mask_literals(1) stopping_mask_def)
  ultimately show ?thesis using one_slot_pool_new reach pcs by (intro exI [of _ m]) simp
qed

end
