(* ===== verification/Pool_Callbacks.thy ===== *)
theory Pool_Callbacks
  imports Pool_Waiting
begin

text \<open>
  Callbacks that call the pool that runs them. A call made inside a callback runs on the worker's
  thread, so the worker does not move before the call has returned. The machine of \<open>Pool_Machine\<close> is
  restricted to the runs in which that is respected: \<open>host\<close> names the worker in whose callback a call
  was made. Which calls may then block for ever, and which may not, is what this theory shows.
\<close>

section \<open>The machine with callbacks on their workers\<close>

record 'c nested =
  base :: "'c machine"
  host :: "nat \<Rightarrow> nat option"

definition nested_start :: "'c Pool \<Rightarrow> nat \<Rightarrow> 'c nested" where
  "nested_start p n = \<lparr>base = machine_start p n, host = Map.empty\<rparr>"

fun returned :: "'c client_pc \<Rightarrow> bool" where
  "returned (Returned r) = True"
| "returned _ = False"

text \<open>Worker \<open>w\<close> is inside a call that its own callback made.\<close>

definition in_call :: "'c nested \<Rightarrow> nat \<Rightarrow> bool" where
  "in_call k w \<longleftrightarrow> (\<exists>c \<in> set [0..<clients (base k)]. host k c = Some w \<and> \<not> returned (cpc (base k) c))"

definition in_callback :: "'c machine \<Rightarrow> nat \<Rightarrow> bool" where
  "in_callback m w \<longleftrightarrow> w < worker_count (pool (sys m)) \<and> wpc m w = W_executing \<and>
     (case phase (sys m) w of Running (x # xs) b \<Rightarrow> True | _ \<Rightarrow> False)"

text \<open>\<open>shutdown\<close> asks whether it runs on a worker: only then it stops after the signal.\<close>

fun possible_call :: "bool \<Rightarrow> 'c call \<Rightarrow> bool" where
  "possible_call on_worker (Call_shutdown mode) = (\<not> on_worker)"
| "possible_call on_worker (Call_shutdown_from_worker mode) = on_worker"
| "possible_call on_worker _ = True"

inductive nested_turn :: "notify_one \<Rightarrow> 'c nested \<Rightarrow> 'c nested \<Rightarrow> bool" for nfy :: notify_one where
  worker_moves: "w < worker_count (pool (sys (base k))) \<Longrightarrow> \<not> in_call k w \<Longrightarrow>
     worker_turn nfy out W w (base k) = Some m \<Longrightarrow> nested_turn nfy k (k\<lparr>base := m\<rparr>)"
| client_moves: "c < clients (base k) \<Longrightarrow> client_turn nfy W c (base k) = Some m \<Longrightarrow>
     nested_turn nfy k (k\<lparr>base := m\<rparr>)"

inductive nested_step :: "notify_one \<Rightarrow> 'c nested \<Rightarrow> 'c nested \<Rightarrow> bool" for nfy :: notify_one where
  nested_turns: "nested_turn nfy k k' \<Longrightarrow> nested_step nfy k k'"
| calls_outside: "c < clients (base k) \<Longrightarrow> possible_call False cl \<Longrightarrow> begin_call cl c (base k) = Some m \<Longrightarrow>
     nested_step nfy k (k\<lparr>base := m, host := (host k)(c := None)\<rparr>)"
| calls_inside: "c < clients (base k) \<Longrightarrow> possible_call True cl \<Longrightarrow> begin_call cl c (base k) = Some m \<Longrightarrow>
     in_callback (base k) w \<Longrightarrow> \<not> in_call k w \<Longrightarrow>
     nested_step nfy k (k\<lparr>base := m, host := (host k)(c \<mapsto> w)\<rparr>)"
| spurious: "nested_step nfy k (k\<lparr>base := wake [t] (base k)\<rparr>)"
| idle_spurious: "cpc (base k) c = Awaiting (Idle_asleep e b) \<Longrightarrow>
     nested_step nfy k (k\<lparr>base := client_at c (Awaiting (Idle_comparing e)) (base k)\<rparr>)"

inductive nested_reach :: "notify_one \<Rightarrow> 'c Pool \<Rightarrow> nat \<Rightarrow> 'c nested \<Rightarrow> bool"
  for nfy :: notify_one and p0 :: "'c Pool" and n :: nat where
  nested_on: "nested_reach nfy p0 n (nested_start p0 n)"
| nested_on_step: "nested_reach nfy p0 n k \<Longrightarrow> nested_step nfy k k' \<Longrightarrow> nested_reach nfy p0 n k'"

definition at_rest :: "notify_one \<Rightarrow> 'c nested \<Rightarrow> bool" where
  "at_rest nfy k \<longleftrightarrow> (\<nexists>k'. nested_turn nfy k k')"

section \<open>Every run is a run of the machine\<close>

lemma nested_turn_thread: "nested_turn nfy k k' \<Longrightarrow> thread_step nfy (base k) (base k')"
  by (induction rule: nested_turn.induct) (auto intro: worker_turns client_turns)

lemma nested_step_machine: "nested_step nfy k k' \<Longrightarrow> machine_step nfy (base k) (base k')"
  by (induction rule: nested_step.induct)
    (auto intro: turns begins wakes_up idle_wakes_up dest: nested_turn_thread)

lemma nested_reach_machine: "nested_reach nfy p0 n k \<Longrightarrow> machine_reach nfy p0 n (base k)"
proof (induction rule: nested_reach.induct)
  case nested_on
  then show ?case by (simp add: nested_start_def power_on)
next
  case (nested_on_step k k')
  then show ?case using nested_step_machine advance by blast
qed

section \<open>A worker stays where its callback made the call\<close>

lemma in_call_iff: "in_call k w \<longleftrightarrow> (\<exists>c < clients (base k). host k c = Some w \<and> \<not> returned (cpc (base k) c))"
  by (auto simp: in_call_def)

lemma returned_wake [simp]:
  "returned (wake_client pc) = returned pc" "returned (tell_client n pc) = returned pc"
proof -
  show "returned (wake_client pc) = returned pc" by (cases pc; simp)
  show "returned (tell_client n pc) = returned pc" by (induction n pc rule: tell_client.induct) auto
qed

text \<open>Where a call made inside a callback cannot be: waiting for or holding \<open>shutdown_mutex_\<close>.\<close>

definition inside_pc :: "'c client_pc \<Rightarrow> bool" where
  "inside_pc pc \<longleftrightarrow> \<not> holds_shutdown pc \<and> (\<forall>mode. pc \<noteq> Locking mode)"

lemma locking_wake [simp]:
  "wake_client pc = Locking mode \<longleftrightarrow> pc = Locking mode" "tell_client n pc = Locking mode \<longleftrightarrow> pc = Locking mode"
proof -
  show "wake_client pc = Locking mode \<longleftrightarrow> pc = Locking mode" by (cases pc; simp)
  show "tell_client n pc = Locking mode \<longleftrightarrow> pc = Locking mode"
    by (induction n pc rule: tell_client.induct) auto
qed

lemma inside_wake [simp]: "inside_pc (wake_client pc) = inside_pc pc" "inside_pc (tell_client n pc) = inside_pc pc"
  by (simp_all add: inside_pc_def)

lemma inside_turn: "client_turn nfy W c m = Some m' \<Longrightarrow> inside_pc (cpc m c) \<Longrightarrow> inside_pc (cpc m' c)"
  by (cases "cpc m c"; auto simp: client_turn_defs inside_pc_def resume_def elim!: after_cancel.elims
      split: loop_move.splits if_splits option.splits sum.splits
      prod.splits insertion.splits idle_move.splits cancelling.splits list.splits)

lemma inside_entry: "possible_call True cl \<Longrightarrow> inside_pc (call_entry cl)"
  by (cases cl) (auto simp: inside_pc_def)

definition hosted_ok :: "'c nested \<Rightarrow> bool" where
  "hosted_ok k \<longleftrightarrow> (\<forall>c w. host k c = Some w \<and> \<not> returned (cpc (base k) c) \<longrightarrow>
     c < clients (base k) \<and> in_callback (base k) w \<and> inside_pc (cpc (base k) c))"

lemma client_turn_phase: "client_turn nfy W c m = Some m' \<Longrightarrow> phase (sys m') = phase (sys m)"
  by (auto simp: client_turn_defs accept_def cancel_all_def set_stopping_def request_stop_def
      dest!: notice_frame split: client_pc.splits loop_move.splits if_splits option.splits
      prod.splits insertion.splits idle_move.splits cancelling.splits list.splits)

lemma worker_turn_phase: "worker_turn nfy out W w m = Some m' \<Longrightarrow> v \<noteq> w \<Longrightarrow> phase (sys m') v = phase (sys m) v"
  by (auto simp: worker_turn_defs dest!: notice_frame split: worker_pc.splits loop_move.splits if_splits
      option.splits prod.splits worker_phase.splits list.splits)

lemma machine_step_workers:
  "machine_step nfy m m' \<Longrightarrow> linked m \<Longrightarrow> worker_count (pool (sys m')) = worker_count (pool (sys m))"
  using machine_step_linked worker_step_frame client_step_frame by (metis pool_step.cases)

lemma in_callback_cong:
  assumes "in_callback m w" and "wpc m' w = wpc m w \<or> wpc m' w = wake_worker (wpc m w)"
    and "phase (sys m') w = phase (sys m) w" and "worker_count (pool (sys m')) = worker_count (pool (sys m))"
  shows "in_callback m' w"
  using assms by (auto simp: in_callback_def)

lemma in_callback_client_at [simp]: "in_callback (client_at c pc m) w = in_callback m w"
  by (simp add: in_callback_def)

lemma hosted_step:
  assumes "nested_step nfy k k'" and "linked (base k)" and "hosted_ok k"
  shows "hosted_ok k'"
proof -
  note count = machine_step_workers [OF nested_step_machine [OF assms(1)] assms(2)]
  have ok: "c < clients (base k) \<and> in_callback (base k) w \<and> inside_pc (cpc (base k) c)"
    if "host k c = Some w" "\<not> returned (cpc (base k) c)" for c w
    using assms(3) that unfolding hosted_ok_def by blast
  show ?thesis
    using assms(1)
  proof cases
    case nested_turns
    then show ?thesis
    proof cases
      case (worker_moves v out W m)
      note others = worker_turn_others [OF worker_moves(4)]
      have "c < clients m \<and> in_callback m w \<and> inside_pc (cpc m c)"
        if hosted: "host k c = Some w" and unret: "\<not> returned (cpc m c)" for c w
      proof -
        have "\<not> returned (cpc (base k) c)" using others(2) [of c] unret by auto
        note c = ok [OF hosted this]
        then have "in_call k w" using hosted \<open>\<not> returned (cpc (base k) c)\<close> unfolding in_call_iff by blast
        then have "w \<noteq> v" using worker_moves(3) by blast
        then have "in_callback m w"
          using in_callback_cong [OF conjunct1 [OF conjunct2 [OF c]] others(1) worker_turn_phase [OF worker_moves(4)]]
            count worker_moves(1) by simp
        then show ?thesis using c others(2) [of c] others(3) by auto
      qed
      moreover have "base k' = m" and "host k' = host k" by (simp_all add: worker_moves(1))
      ultimately show ?thesis unfolding hosted_ok_def by (simp only:) blast
    next
      case (client_moves d W m)
      note frame = client_turn_frame [OF client_moves(3)]
      have "c < clients m \<and> in_callback m w \<and> inside_pc (cpc m c)"
        if hosted: "host k c = Some w" and unret: "\<not> returned (cpc m c)" for c w
      proof -
        have was: "\<not> returned (cpc (base k) c)"
        proof (cases "c = d")
          case True
          then show ?thesis using client_moves(3) by (cases "cpc (base k) d") (auto simp: client_turn_def)
        next
          case False
          then show ?thesis using client_turn_others [OF client_moves(3) False] unret by auto
        qed
        note c = ok [OF hosted was]
        have "inside_pc (cpc m c)"
        proof (cases "c = d")
          case True
          then show ?thesis using c inside_turn [OF client_moves(3)] by simp
        next
          case False
          then show ?thesis using c client_turn_others [OF client_moves(3) False] by auto
        qed
        moreover have "in_callback m w"
          using in_callback_cong [OF conjunct1 [OF conjunct2 [OF c]] frame(2)]
            client_turn_phase [OF client_moves(3)] count client_moves(1) by simp
        ultimately show ?thesis using c frame(1) by simp
      qed
      moreover have "base k' = m" and "host k' = host k" by (simp_all add: client_moves(1))
      ultimately show ?thesis unfolding hosted_ok_def by (simp only:) blast
    qed
  next
    case (calls_outside c cl m)
    then have m: "m = client_at c (call_entry cl) (base k)"
      by (auto simp: begin_call_def split: client_pc.splits)
    show ?thesis using assms(3)
      by (auto simp: hosted_ok_def calls_outside(1) m in_callback_def split: if_splits)
  next
    case (calls_inside c cl m w)
    then have m: "m = client_at c (call_entry cl) (base k)"
      by (auto simp: begin_call_def split: client_pc.splits)
    show ?thesis using assms(3) calls_inside(2,5) inside_entry [OF calls_inside(3)]
      by (auto simp: hosted_ok_def calls_inside(1) m in_callback_def split: if_splits)
  next
    case (spurious t)
    show ?thesis using assms(3)
      by (auto simp: hosted_ok_def spurious wake_def in_callback_def split: if_splits)
  next
    case (idle_spurious c e b)
    have "host k c = Some w \<Longrightarrow> c < clients (base k) \<and> in_callback (base k) w" for w
      using ok [of c w] idle_spurious(2) by simp
    with assms(3) show ?thesis
      by (auto simp: hosted_ok_def idle_spurious(1) inside_pc_def split: if_splits)
  qed
qed

lemma nested_reach_hosted:
  assumes "Pool_new hw r cap = Inr p0" and "nested_reach nfy p0 n k"
  shows "hosted_ok k"
  using assms(2)
proof induction
  case nested_on
  then show ?case by (simp add: hosted_ok_def nested_start_def)
next
  case (nested_on_step k k')
  then show ?case
    using hosted_step machine_reach_linked(1) [OF assms(1) nested_reach_machine] by blast
qed

section \<open>Threads at rest\<close>

lemma rest_threads:
  assumes "linked (base k)" and "notify_one_contract nfy" and "at_rest nfy k"
  shows "\<not> queue_locked (base k)"
    and "w < worker_count (pool (sys (base k))) \<Longrightarrow> \<not> in_call k w \<Longrightarrow>
      worker_asleep (wpc (base k) w) \<or> wpc (base k) w = W_returned"
    and "c < clients (base k) \<Longrightarrow> held_up (wpc (base k)) (cpc (base k) c) \<or>
      (\<exists>mode. cpc (base k) c = Locking mode \<and> shutdown_locked (base k))"
proof -
  let ?m = "base k"
  have no: "\<not> nested_turn nfy k k'" for k' using assms(3) by (simp add: at_rest_def)
  show free: "\<not> queue_locked ?m"
  proof
    assume "queue_locked ?m"
    then obtain c where c: "c < clients ?m" "holds_queue (cpc ?m c)" by (auto simp: queue_locked_iff)
    then obtain pu n ca where "cpc ?m c = Cancel pu n ca" by (auto elim: holds_queue.elims)
    then have "\<exists>m'. client_turn nfy [] c ?m = Some m'"
      by (cases ca) (auto simp: client_turn_defs split: prod.splits)
    with no client_moves [OF c(1)] show False by blast
  qed
  show "w < worker_count (pool (sys ?m)) \<Longrightarrow> \<not> in_call k w \<Longrightarrow> worker_asleep (wpc ?m w) \<or> wpc ?m w = W_returned"
    using worker_turn_enabled [OF assms(1,2) free] worker_moves no by metis
  show "c < clients ?m \<Longrightarrow> held_up (wpc ?m) (cpc ?m c) \<or> (\<exists>mode. cpc ?m c = Locking mode \<and> shutdown_locked ?m)"
    using client_turn_enabled [OF assms(1,2) free] client_moves no by metis
qed

text \<open>At rest, a call made inside a callback either waits for the pool to be idle or for room in the queue.\<close>

lemma rest_inside:
  assumes "linked (base k)" and "notify_one_contract nfy" and "at_rest nfy k" and "hosted_ok k"
    and "in_call k w"
  shows "\<exists>c < clients (base k). host k c = Some w \<and> wpc (base k) w = W_executing \<and>
    (producer_asleep (cpc (base k) c) \<or> (\<exists>pt. cpc (base k) c = Awaiting pt))"
proof -
  obtain c where c: "c < clients (base k)" "host k c = Some w" "\<not> returned (cpc (base k) c)"
    using assms(5) by (auto simp: in_call_iff)
  then have ok: "in_callback (base k) w \<and> inside_pc (cpc (base k) c)" using assms(4) unfolding hosted_ok_def by blast
  then have "held_up (wpc (base k)) (cpc (base k) c)"
    using rest_threads(3) [OF assms(1-3) c(1)] by (auto simp: inside_pc_def)
  from held_up_cases [OF this] c ok show ?thesis
    by (intro exI [of _ c]) (auto simp: inside_pc_def in_callback_def)
qed

lemma rest_announcers:
  assumes "linked (base k)" and "sleepers_ok (base k)" and "notify_one_contract nfy" and "at_rest nfy k"
  shows "\<not> announces (cpc (base k) c)" and "\<not> brings_work (cpc (base k) c)" and "\<not> holds_queue (cpc (base k) c)"
proof -
  have "cpc (base k) c = Returned Done" if "\<not> c < clients (base k)" using that assms(2) by (simp add: sleepers_ok_def)
  then show "\<not> announces (cpc (base k) c)" "\<not> brings_work (cpc (base k) c)" "\<not> holds_queue (cpc (base k) c)"
    using rest_threads(3) [OF assms(1,3,4), of c] by (cases "cpc (base k) c"; force)+
qed

lemma rest_quiescent:
  assumes new: "Pool_new hw r cap = Inr p0" and nfy: "notify_one_contract nfy"
    and reach: "nested_reach nfy p0 n k" and n: "n < 2 ^ 64" and rest: "at_rest nfy k"
    and waits: "\<And>c pt. c < n \<Longrightarrow> cpc (base k) c = Awaiting pt \<Longrightarrow> host k c = None"
    and which: "nfy = wakes_every \<and> (\<exists>v < worker_count (pool (sys (base k))). \<not> in_call k v) \<or>
      is_stopping (pool (sys (base k)))"
  shows "quiescent nfy (base k)"
proof -
  let ?m = "base k"
  note mreach = nested_reach_machine [OF reach]
  note link = machine_reach_linked(1) [OF new mreach] and sleep = machine_reach_sleepers [OF new mreach]
    and ann = machine_reach_announced [OF new mreach] and hosted = nested_reach_hosted [OF new reach]
  note clients = machine_reach_clients [OF mreach] and still = rest_announcers [OF link sleep nfy rest]
  have inside: "\<exists>c. producer_asleep (cpc ?m c) \<and> wpc ?m w = W_executing" if "in_call k w" for w
    using rest_inside [OF link nfy rest hosted that] waits clients by (metis option.distinct(1))
  have "\<not> (\<exists>c. producer_asleep (cpc ?m c))"
  proof (cases "is_stopping (pool (sys ?m))")
    case True
    then show ?thesis using ann(1) still(1) by (auto simp: stop_announced_def)
  next
    case False
    with which obtain v where every: "nfy = wakes_every" and v: "v < worker_count (pool (sys ?m))" "\<not> in_call k v"
      by blast
    have "wpc ?m v \<noteq> W_returned"
      using linkedD(3) [OF link, of v] system_invD(6) [OF linkedD(1) [OF link], of v] False by auto
    then have "worker_asleep (wpc ?m v)" using rest_threads(2) [OF link nfy rest v] by blast
    then have empty: "queued (pool (sys ?m)) = []" using ann(2) [OF every n] still(2) by (auto simp: work_announced_def)
    have "\<not> frees_room (wpc ?m u)" for u
      using rest_threads(2) [OF link nfy rest, of u] inside [of u] sleep
      by (cases "u < worker_count (pool (sys ?m))"; cases "in_call k u") (auto simp: sleepers_ok_def elim!: frees_room.elims)
    then show ?thesis
      using ann(2) [OF every n] still(3) empty linkedD_word(5) [OF link] by (auto simp: room_announced_def)
  qed
  then have "\<not> in_call k w" for w using inside by blast
  then have "thread_step nfy ?m m' \<Longrightarrow> nested_turn nfy k (k\<lparr>base := m'\<rparr>)" for m'
    by (auto elim!: thread_step.cases intro: worker_moves client_moves)
  then show ?thesis using rest unfolding quiescent_def at_rest_def by blast
qed

section \<open>\<open>wait()\<close> in a callback\<close>

lemma busy_pool_not_idle:
  assumes "system_inv s" and "worker_count (pool s) \<le> 127" and "0 < active s"
  shows "\<not> is_idle (pool s)"
proof -
  have "active s \<le> 16 * 127" using active_bound [OF assms(1)] assms(2) by (simp add: bulk_claim_size_def)
  with assms(3) show ?thesis using pool_observers [OF system_invD(1) [OF assms(1)]] by (simp add: is_idle_def)
qed

lemma in_callback_active: "in_callback m w \<Longrightarrow> linked m \<Longrightarrow> 0 < active (sys m)"
  using system_invD(2) [OF linkedD(1), of m w]
  by (intro summed_pos [of w]) (auto simp: in_callback_def split: worker_phase.splits list.splits)

lemma awaiting_wake [simp]:
  "wake_client (Awaiting pt) = Awaiting pt" "\<exists>pt'. tell_client n (Awaiting pt) = Awaiting pt'"
  by (cases pt; simp)+

lemma waits_on:
  assumes "nested_step nfy k k'" and "linked (base k)" and "hosted_ok k"
    and "worker_count (pool (sys (base k))) \<le> 127" and "host k c = Some w" and "cpc (base k) c = Awaiting pt"
  shows "host k' c = Some w \<and> (\<exists>pt'. cpc (base k') c = Awaiting pt')"
proof -
  have "in_callback (base k) w" using assms(3,5,6) unfolding hosted_ok_def by force
  note busy = busy_pool_not_idle [OF linkedD(1) [OF assms(2)] assms(4) in_callback_active [OF this assms(2)]]
  show ?thesis
    using assms(1)
  proof cases
    case nested_turns
    then show ?thesis
    proof cases
      case (worker_moves v out W m)
      then show ?thesis using worker_turn_others(2) [OF worker_moves(4), of c] assms(5,6) by (auto simp: awaiting_wake)
    next
      case (client_moves d W m)
      show ?thesis
      proof (cases "d = c")
        case True
        then show ?thesis
          using client_moves assms(5,6) busy
          by (auto simp: client_turn_defs dest: idle_leaves split: idle_move.splits)
      next
        case False
        then show ?thesis using client_turn_others [OF client_moves(3), of c] client_moves(1) assms(5,6) by auto
      qed
    qed
  next
    case (calls_outside d cl m)
    then show ?thesis using assms(5,6) by (auto simp: begin_call_def split: client_pc.splits)
  next
    case (calls_inside d cl m v)
    then show ?thesis using assms(5,6) by (auto simp: begin_call_def split: client_pc.splits)
  next
    case (spurious t)
    then show ?thesis using assms(5,6) by (simp add: wake_def)
  next
    case (idle_spurious d e b)
    then show ?thesis using assms(5,6) by auto
  qed
qed

section \<open>Runs given by a list of moves\<close>

datatype 'c nested_move = Worker_goes nat outcome "thread list" | Client_goes nat "thread list"
  | Call_outside nat "'c call" | Call_inside nat nat "'c call"

fun nested_go :: "notify_one \<Rightarrow> 'c nested_move \<Rightarrow> 'c nested \<Rightarrow> 'c nested option" where
  "nested_go nfy (Worker_goes w out W) k =
     (if w < worker_count (pool (sys (base k))) \<and> \<not> in_call k w
      then map_option (\<lambda>m. k\<lparr>base := m\<rparr>) (worker_turn nfy out W w (base k)) else None)"
| "nested_go nfy (Client_goes c W) k =
     (if c < clients (base k) then map_option (\<lambda>m. k\<lparr>base := m\<rparr>) (client_turn nfy W c (base k)) else None)"
| "nested_go nfy (Call_outside c cl) k =
     (if c < clients (base k) \<and> possible_call False cl
      then map_option (\<lambda>m. k\<lparr>base := m, host := (host k)(c := None)\<rparr>) (begin_call cl c (base k)) else None)"
| "nested_go nfy (Call_inside w c cl) k =
     (if c < clients (base k) \<and> possible_call True cl \<and> in_callback (base k) w \<and> \<not> in_call k w
      then map_option (\<lambda>m. k\<lparr>base := m, host := (host k)(c \<mapsto> w)\<rparr>) (begin_call cl c (base k)) else None)"

fun nested_run :: "notify_one \<Rightarrow> 'c nested_move list \<Rightarrow> 'c nested \<Rightarrow> 'c nested option" where
  "nested_run nfy [] k = Some k"
| "nested_run nfy (x # xs) k = (case nested_go nfy x k of None \<Rightarrow> None | Some k' \<Rightarrow> nested_run nfy xs k')"

lemma nested_go_step: "nested_go nfy x k = Some k' \<Longrightarrow> nested_step nfy k k'"
  by (cases x) (auto intro: nested_turns worker_moves client_moves calls_outside calls_inside split: if_splits)

lemma nested_run_reach:
  "nested_reach nfy p0 n k \<Longrightarrow> nested_run nfy xs k = Some k' \<Longrightarrow> nested_reach nfy p0 n k'"
proof (induction xs arbitrary: k)
  case (Cons x xs)
  then obtain k1 where "nested_go nfy x k = Some k1" "nested_run nfy xs k1 = Some k'"
    by (auto split: option.splits)
  with Cons show ?case using nested_on_step nested_go_step by blast
qed simp

text \<open>A task is dispatched and claimed, and its callback makes a call.\<close>

definition dispatched_task :: "unit nested_move list" where
  "dispatched_task = [Call_outside 0 (Call_dispatch ()), Client_goes 0 [], Client_goes 0 [], Client_goes 0 [],
     Worker_goes 0 (Finished ok) [], Worker_goes 0 (Finished ok) [], Worker_goes 0 (Finished ok) []]"

definition dispatching_callback :: "unit nested_move list" where
  "dispatching_callback = dispatched_task @
     [Call_inside 0 1 (Call_dispatch ()), Client_goes 1 [], Client_goes 1 [], Client_goes 1 []] @
     replicate 12 (Worker_goes 0 (Finished ok) [])"

lemma dispatching_callback_run:
  "map_option (\<lambda>k. (wpc (base k) 0, cpc (base k) 0, cpc (base k) 1, host k 1, bumped (base k), length (executed (sys (base k)))))
     (nested_run wakes_every dispatching_callback (nested_start one_slot_pool 2)) =
   Some (W_waiting (Asleep 0 6), Returned Done, Returned Done, Some 0, 0, 2)"
  by code_simp

lemma waiting_callback_run:
  "map_option (\<lambda>k. (cpc (base k) 1, host k 1))
     (nested_run wakes_every (dispatched_task @ [Call_inside 0 1 Call_wait]) (nested_start one_slot_pool 2)) =
   Some (Awaiting Idle_loading, Some 0)"
  by code_simp

section \<open>Properties\<close>

text \<open>
  C19. Nobody blocks for ever when notifications reach every eligible thread, nor, whatever \<open>notify_one\<close>
  picks, once the pool is stopping: in a reachable state in which no thread can take a turn, every call
  has returned (those of other threads and those made inside callbacks; submissions, \<open>wait()\<close>,
  \<open>clear_queue()\<close>, \<open>shutdown()\<close> with its joins), the queue is empty, and every worker sleeps for want
  of work or, when stopping, has returned. Two things are asked of the callbacks: none of them is inside
  \<open>wait()\<close> on its own pool, and, unless the pool is stopping, not every worker is inside a pool call that
  its own callback made (a submission that waits for room in the queue).
\<close>

theorem blocked_calls_return:
  assumes "Pool_new hardware requested capacity = Inr p0" and "notify_one_contract nfy"
    and "nested_reach nfy p0 n k" and "n < 2 ^ 64" and "bumped (base k) < 2 ^ 64" and "at_rest nfy k"
    and "\<And>c pt. c < n \<Longrightarrow> cpc (base k) c = Awaiting pt \<Longrightarrow> host k c = None"
    and "nfy = wakes_every \<and> (\<exists>v < worker_count p0. \<not> in_call k v) \<or> is_stopping (pool (sys (base k)))"
  shows "(\<forall>c < n. \<exists>r. cpc (base k) c = Returned r) \<and> queued (pool (sys (base k))) = [] \<and>
    (\<forall>w < worker_count p0.
       if is_stopping (pool (sys (base k))) then wpc (base k) w = W_returned else worker_asleep (wpc (base k) w))"
proof -
  note reach = nested_reach_machine [OF assms(3)]
  have count: "worker_count (pool (sys (base k))) = worker_count p0"
    using pool_reach_limits [OF machine_reach_linked(2) [OF assms(1) reach]] by simp
  have which: "nfy = wakes_every \<or> is_stopping (pool (sys (base k)))" using assms(8) by blast
  have rest: "quiescent nfy (base k)"
    using rest_quiescent [OF assms(1-4,6,7)] assms(8) by (simp add: count)
  note facts = assms(1,2) reach assms(4,5) rest which
  show ?thesis using rest_clients [OF facts] rest_is_complete(1,2) [OF facts] by (simp add: count)
qed

text \<open>A callback dispatches a further task; both are run, and everybody comes to rest.\<close>

theorem blocked_calls_return_witness:
  "\<exists>k. nested_reach wakes_every one_slot_pool 2 k \<and> at_rest wakes_every k \<and> host k 1 = Some 0 \<and>
     length (executed (sys (base k))) = 2 \<and> queued (pool (sys (base k))) = [] \<and>
     (\<forall>c < 2. \<exists>r. cpc (base k) c = Returned r) \<and> worker_asleep (wpc (base k) 0)"
proof -
  obtain k where run: "nested_run wakes_every dispatching_callback (nested_start one_slot_pool 2) = Some k"
    and pcs: "wpc (base k) 0 = W_waiting (Asleep 0 6)" "cpc (base k) 0 = Returned Done"
      "cpc (base k) 1 = Returned Done" "host k 1 = Some 0" "bumped (base k) = 0"
      "length (executed (sys (base k))) = 2"
    using dispatching_callback_run by auto
  have reach: "nested_reach wakes_every one_slot_pool 2 k" by (rule nested_run_reach [OF nested_on run])
  note mreach = nested_reach_machine [OF reach]
  have n: "clients (base k) = 2" by (rule machine_reach_clients [OF mreach])
  have count: "worker_count (pool (sys (base k))) = 1"
    using pool_reach_limits [OF machine_reach_linked(2) [OF one_slot_pool_new mreach]] by (simp add: one_slot_pool_def)
  have two: "c = 0 \<or> c = 1" if "c < 2" for c :: nat using that by (simp add: less_2_cases_iff)
  have rest: "at_rest wakes_every k"
    unfolding at_rest_def using n pcs count
    by (auto elim!: nested_turn.cases simp: worker_turn_defs client_turn_defs less_2_cases_iff)
  have "host k c = None" if "c < 2" "cpc (base k) c = Awaiting pt" for c pt
    using two [OF that(1)] that(2) pcs by auto
  moreover have "returned (cpc (base k) c)" if "c < 2" for c using two [OF that] pcs by auto
  then have "\<not> in_call k 0" by (auto simp: in_call_iff n)
  moreover have "worker_count one_slot_pool = 1" by (simp add: one_slot_pool_def)
  ultimately have "(\<forall>c < 2. \<exists>r. cpc (base k) c = Returned r) \<and> queued (pool (sys (base k))) = [] \<and>
      (\<forall>w < worker_count one_slot_pool. if is_stopping (pool (sys (base k))) then wpc (base k) w = W_returned
        else worker_asleep (wpc (base k) w))"
    by (intro blocked_calls_return [OF one_slot_pool_new contracts(2) reach _ _ rest]) (simp_all add: pcs(5))
  then show ?thesis using reach rest pcs by (intro exI [of _ k]) simp
qed

text \<open>
  C32. \<open>wait()\<close> in a callback of the same pool never returns, whatever the other threads do: with at most
  127 workers, once a callback is inside it, it and its worker stay there in every later state.
\<close>

theorem wait_in_a_callback_never_returns:
  assumes "Pool_new hardware requested capacity = Inr p0" and "worker_count p0 \<le> 127"
    and "nested_reach nfy p0 n k" and "host k c = Some w" and "cpc (base k) c = Awaiting pt"
    and "(nested_step nfy)\<^sup>*\<^sup>* k k'"
  shows "(\<exists>pt'. cpc (base k') c = Awaiting pt') \<and> host k' c = Some w \<and> wpc (base k') w = W_executing"
proof -
  have "nested_reach nfy p0 n k' \<and> host k' c = Some w \<and> (\<exists>pt'. cpc (base k') c = Awaiting pt')"
    using assms(6)
  proof induction
    case base
    then show ?case using assms(3-5) by blast
  next
    case (step k1 k2)
    then obtain pt1 where k1: "nested_reach nfy p0 n k1" "host k1 c = Some w" "cpc (base k1) c = Awaiting pt1"
      by blast
    note reach = nested_reach_machine [OF k1(1)]
    have "worker_count (pool (sys (base k1))) \<le> 127"
      using pool_reach_limits [OF machine_reach_linked(2) [OF assms(1) reach]] assms(2) by simp
    from waits_on [OF step(2) machine_reach_linked(1) [OF assms(1) reach] nested_reach_hosted [OF assms(1) k1(1)] this k1(2,3)]
    show ?case using nested_on_step [OF k1(1) step(2)] by blast
  qed
  moreover from this have "in_callback (base k') w"
    using nested_reach_hosted [OF assms(1)] unfolding hosted_ok_def by force
  ultimately show ?thesis by (simp add: in_callback_def)
qed

theorem wait_in_a_callback_never_returns_witness:
  "\<exists>k. nested_reach wakes_every one_slot_pool 2 k \<and> host k 1 = Some 0 \<and>
     (\<forall>k'. (nested_step wakes_every)\<^sup>*\<^sup>* k k' \<longrightarrow> wpc (base k') 0 = W_executing)"
proof -
  obtain k where run: "nested_run wakes_every (dispatched_task @ [Call_inside 0 1 Call_wait])
      (nested_start one_slot_pool 2) = Some k"
    and pcs: "cpc (base k) 1 = Awaiting Idle_loading" "host k 1 = Some 0"
    using waiting_callback_run by auto
  have reach: "nested_reach wakes_every one_slot_pool 2 k" by (rule nested_run_reach [OF nested_on run])
  have "worker_count one_slot_pool \<le> 127" by (simp add: one_slot_pool_def)
  from wait_in_a_callback_never_returns [OF one_slot_pool_new this reach pcs(2,1)] reach pcs(2)
  show ?thesis by blast
qed

end
