(* ===== verification/Log_Model.thy ===== *)
theory Log_Model
  imports Error_Model
begin

text \<open>
  The vocabulary of \<open>include/vosp/logger.hpp\<close>: levels, records, the compile-time policies for
  filtering and metadata, sinks, and the abstract service \<open>ILogger\<close> with the operations it
  implements itself (one per level, logging of a \<open>Result\<close>, \<open>capture\<close>).
\<close>

section \<open>Levels\<close>

text \<open>\<open>enum class Level : std::uint8_t\<close>; like \<open>Category\<close> it wraps its underlying integer.\<close>

datatype Level = Level (level_number: u8)

definition TRACE :: Level where "TRACE = Level 0"

definition DEBUG :: Level where "DEBUG = Level 1"

definition INFO :: Level where "INFO = Level 2"

definition WARNING :: Level where "WARNING = Level 3"

definition ERROR :: Level where "ERROR = Level 4"

definition CRITICAL :: Level where "CRITICAL = Level 5"

lemmas level_defs = TRACE_def DEBUG_def INFO_def WARNING_def ERROR_def CRITICAL_def

instantiation Level :: linorder
begin

definition less_eq_Level :: "Level \<Rightarrow> Level \<Rightarrow> bool" where
  "less_eq_Level a b \<longleftrightarrow> level_number a \<le> level_number b"

definition less_Level :: "Level \<Rightarrow> Level \<Rightarrow> bool" where
  "less_Level a b \<longleftrightarrow> level_number a < level_number b"

instance
  by standard (auto simp: less_eq_Level_def less_Level_def Level.expand)

end

definition level_name :: "Level \<Rightarrow> string" where
  "level_name l =
     (if l = TRACE then ''TRACE''
      else if l = DEBUG then ''DEBUG''
      else if l = INFO then ''INFO''
      else if l = WARNING then ''WARNING''
      else if l = ERROR then ''ERROR''
      else if l = CRITICAL then ''CRITICAL''
      else ''UNKNOWN'')"

definition log_category_name :: "Category \<Rightarrow> string" where
  "log_category_name c =
     (if c = NETWORK then ''NETWORK''
      else if c = DATABASE then ''DATABASE''
      else if c = FILESYSTEM then ''FILESYSTEM''
      else if c = NONE then ''NONE''
      else ''UNKNOWN'')"

lemma log_category_name [simp]: "log_category_name = category_name"
  by (simp add: fun_eq_iff log_category_name_def category_name_def)

lemma length_level_name: "length (level_name l) \<le> 8"
  by (simp add: level_name_def)

section \<open>Records and policies\<close>

text \<open>Time points and thread ids are numbers; the default-constructed ones are zero.\<close>

record LogEntry =
  timestamp :: int
  thread_id :: nat
  level :: Level
  error :: Error

type_synonym policy = "Level \<Rightarrow> bool"

definition AcceptAllPolicy :: policy where "AcceptAllPolicy = (\<lambda>_. True)"

definition MinimumLevelPolicy :: "Level \<Rightarrow> policy" where
  "MinimumLevelPolicy minimum l \<longleftrightarrow> level_number l \<ge> level_number minimum"

lemma MinimumLevelPolicy_iff: "MinimumLevelPolicy minimum l \<longleftrightarrow> minimum \<le> l"
  by (simp add: MinimumLevelPolicy_def less_eq_Level_def)

text \<open>The full metadata policy asks the clock and the platform, here functions of the state.\<close>

record 's metadata =
  timestamp_of :: "'s \<Rightarrow> int"
  thread_id_of :: "'s \<Rightarrow> nat"

definition FullMetadataPolicy :: "('s \<Rightarrow> int) \<Rightarrow> ('s \<Rightarrow> nat) \<Rightarrow> 's metadata" where
  "FullMetadataPolicy now get_id = \<lparr>timestamp_of = now, thread_id_of = get_id\<rparr>"

definition MinimalMetadataPolicy :: "'s metadata" where
  "MinimalMetadataPolicy = \<lparr>timestamp_of = (\<lambda>_. 0), thread_id_of = (\<lambda>_. 0)\<rparr>"

text \<open>\<open>serializes_callbacks\<close> of the three dispatch policies, and the bound of the third.\<close>

datatype dispatch_policy = SerializedSinkDispatch | ParallelSinkDispatch | AsyncSinkDispatch

fun serializes_callbacks :: "dispatch_policy \<Rightarrow> bool" where
  "serializes_callbacks SerializedSinkDispatch = True"
| "serializes_callbacks ParallelSinkDispatch = False"
| "serializes_callbacks AsyncSinkDispatch = False"

definition async_queue_capacity :: nat where "async_queue_capacity = 1024"

section \<open>The logging service\<close>

text \<open>
  A sink is an object address; calling its virtual \<open>write\<close> may change the state of the program and
  returns a boolean or throws. \<open>ILogger\<close> is the table of virtual functions of a service.
\<close>

type_synonym ILogSink = nat

type_synonym 's sink_write = "ILogSink \<Rightarrow> LogEntry \<Rightarrow> ('s, bool) callable"

record 's ILogger =
  virtual_attach :: "ILogSink \<Rightarrow> 's \<Rightarrow> bool \<times> 's"
  virtual_detach :: "ILogSink \<Rightarrow> 's \<Rightarrow> bool \<times> 's"
  virtual_write :: "Level \<Rightarrow> Error \<Rightarrow> ('s, bool) callable"
  virtual_write_owned :: "Level \<Rightarrow> Error \<Rightarrow> ('s, bool) callable"

definition default_write_owned :: "(Level \<Rightarrow> Error \<Rightarrow> ('s, bool) callable) \<Rightarrow>
    Level \<Rightarrow> Error \<Rightarrow> ('s, bool) callable" where
  "default_write_owned wr l e = wr l e"

text \<open>\<open>lvalue\<close> says whether the argument is an lvalue.\<close>

definition publish :: "'s ILogger \<Rightarrow> bool \<Rightarrow> Level \<Rightarrow> Error \<Rightarrow> ('s, bool) callable" where
  "publish vt lvalue l e = (if lvalue then virtual_write vt l e else virtual_write_owned vt l e)"

definition log_trace :: "'s ILogger \<Rightarrow> bool \<Rightarrow> Error \<Rightarrow> ('s, bool) callable" where
  "log_trace vt lvalue e = publish vt lvalue TRACE e"

definition log_debug :: "'s ILogger \<Rightarrow> bool \<Rightarrow> Error \<Rightarrow> ('s, bool) callable" where
  "log_debug vt lvalue e = publish vt lvalue DEBUG e"

definition log_info :: "'s ILogger \<Rightarrow> bool \<Rightarrow> Error \<Rightarrow> ('s, bool) callable" where
  "log_info vt lvalue e = publish vt lvalue INFO e"

definition log_warning :: "'s ILogger \<Rightarrow> bool \<Rightarrow> Error \<Rightarrow> ('s, bool) callable" where
  "log_warning vt lvalue e = publish vt lvalue WARNING e"

definition log_error :: "'s ILogger \<Rightarrow> bool \<Rightarrow> Error \<Rightarrow> ('s, bool) callable" where
  "log_error vt lvalue e = publish vt lvalue ERROR e"

definition log_critical :: "'s ILogger \<Rightarrow> bool \<Rightarrow> Error \<Rightarrow> ('s, bool) callable" where
  "log_critical vt lvalue e = publish vt lvalue CRITICAL e"

definition log_result :: "'s ILogger \<Rightarrow> 'a Result \<Rightarrow> ('s, bool) callable" where
  "log_result vt result s =
     (case result of Inr v \<Rightarrow> (Returned True, s) | Inl e \<Rightarrow> virtual_write vt ERROR e s)"

definition capture ::
  "'s ILogger \<Rightarrow> Error \<Rightarrow> ('s, 'a) callable \<Rightarrow> Level \<Rightarrow> 's \<Rightarrow> 'a Result \<times> 's" where
  "capture vt failure f l s =
     (case attempt failure f s of (result, s') \<Rightarrow>
        (case result of
           Inr v \<Rightarrow> (result, s')
         | Inl e \<Rightarrow> (result, snd (virtual_write vt l e s'))))"

section \<open>What a service promises\<close>

text \<open>
  An implementation must treat an owned error as a borrowed one and drop filtered records without
  any effect. Then the operations of the interface depend on \<open>write\<close> alone.
\<close>

locale logging_service =
  fixes vt :: "'s ILogger" and accepts :: policy
  assumes owned: "virtual_write_owned vt l e s = virtual_write vt l e s"
    and dropped: "\<not> accepts l \<Longrightarrow> virtual_write vt l e s = (Returned True, s)"
begin

lemma publish_write: "publish vt lvalue l e s = virtual_write vt l e s"
  by (simp add: publish_def owned)

lemma capture_dropped: "\<not> accepts l \<Longrightarrow> capture vt failure f l s = attempt failure f s"
  by (simp add: capture_def dropped split: prod.splits sum.splits)

lemma log_result_dropped:
  "\<not> accepts ERROR \<Longrightarrow> log_result vt result s = (Returned True, s)"
  by (simp add: log_result_def dropped split: sum.splits)

end

lemma capture_result: "fst (capture vt failure f l s) = fst (attempt failure f s)"
  by (simp add: capture_def split: prod.splits sum.splits)

text \<open>The state after \<open>capture\<close>: on success that of the operation, on failure that of one \<open>write\<close> after it.\<close>

lemma capture_state:
  "snd (capture vt failure f l s) =
     (case fst (attempt failure f s) of
        Inr v \<Rightarrow> snd (f s)
      | Inl e \<Rightarrow> snd (virtual_write vt l e (snd (f s))))"
  by (auto simp: capture_def attempt_def split: prod.splits sum.splits)

end
