(* ===== verification/Logger_Sync.thy ===== *)
theory Logger_Sync
  imports Log_Model Refinement
begin

text \<open>
  The synchronous \<open>Logger\<close> of \<open>include/vosp/logger.hpp\<close> (serialized and parallel dispatch): the
  list of attached sinks, the lock-free path for a single sink that is not owned, and the
  delivery of a record. A callback may do anything to the state of the program, which contains
  the logger itself: \<open>get\<close> and \<open>put\<close> read and write the logger in it. \<open>write\<close> selects the sinks
  before the first callback, as the code does.
\<close>

section \<open>State and registration\<close>

text \<open>\<open>shared_owner\<close> says whether the slot holds a shared owner of its sink.\<close>

record SinkSlot =
  sink :: ILogSink
  shared_owner :: bool

record Logger =
  sinks :: "SinkSlot list"
  single_non_owning_sink :: "ILogSink option"

definition single_sink_fast_path :: "SinkSlot list \<Rightarrow> ILogSink option" where
  "single_sink_fast_path slots =
     (case slots of [slot] \<Rightarrow> if shared_owner slot then None else Some (sink slot) | _ \<Rightarrow> None)"

definition refresh_single_sink_fast_path :: "Logger \<Rightarrow> Logger" where
  "refresh_single_sink_fast_path lg = lg\<lparr>single_non_owning_sink := single_sink_fast_path (sinks lg)\<rparr>"

definition attach_slot :: "SinkSlot \<Rightarrow> Logger \<Rightarrow> bool \<times> Logger" where
  "attach_slot slot lg =
     (if \<exists>registered \<in> set (sinks lg). sink registered = sink slot then (False, lg)
      else (True, refresh_single_sink_fast_path (lg\<lparr>sinks := sinks lg @ [slot]\<rparr>)))"

definition attach :: "ILogSink \<Rightarrow> Logger \<Rightarrow> bool \<times> Logger" where
  "attach s lg = attach_slot \<lparr>sink = s, shared_owner = False\<rparr> lg"

definition attach_shared :: "ILogSink option \<Rightarrow> Logger \<Rightarrow> bool \<times> Logger" where
  "attach_shared pointer lg =
     (case pointer of
        None \<Rightarrow> (False, lg)
      | Some s \<Rightarrow> attach_slot \<lparr>sink = s, shared_owner = True\<rparr> lg)"

definition detach :: "ILogSink \<Rightarrow> Logger \<Rightarrow> bool \<times> Logger" where
  "detach s lg =
     (let kept = filter (\<lambda>slot. sink slot \<noteq> s) (sinks lg) in
      if length (sinks lg) - length kept = 0 then (False, lg\<lparr>sinks := kept\<rparr>)
      else (True, refresh_single_sink_fast_path (lg\<lparr>sinks := kept\<rparr>)))"

definition Logger_default :: Logger where
  "Logger_default = \<lparr>sinks = [], single_non_owning_sink = None\<rparr>"

definition Logger_new :: "ILogSink list \<Rightarrow> Logger" where
  "Logger_new ss = fold (\<lambda>s lg. snd (attach_slot \<lparr>sink = s, shared_owner = False\<rparr> lg)) ss Logger_default"

definition Logger_new_shared :: "ILogSink option \<Rightarrow> Logger" where
  "Logger_new_shared pointer =
     (case pointer of
        None \<Rightarrow> Logger_default
      | Some s \<Rightarrow> snd (attach_slot \<lparr>sink = s, shared_owner = True\<rparr> Logger_default))"

section \<open>Publishing\<close>

text \<open>The loop of \<open>deliver\<close>: every sink is called, also after one has refused; an exception leaves
  the loop.\<close>

fun deliver_all :: "'s sink_write \<Rightarrow> LogEntry \<Rightarrow> bool \<Rightarrow> SinkSlot list \<Rightarrow> ('s, bool) callable" where
  "deliver_all wr entry accepted [] s = (Returned accepted, s)"
| "deliver_all wr entry accepted (slot # slots) s =
     (case wr (sink slot) entry s of
        (Returned answer, s') \<Rightarrow> deliver_all wr entry (answer \<and> accepted) slots s'
      | (thrown, s') \<Rightarrow> (thrown, s'))"

definition deliver ::
  "'s sink_write \<Rightarrow> LogEntry \<Rightarrow> ILogSink option \<Rightarrow> SinkSlot list \<Rightarrow> ('s, bool) callable" where
  "deliver wr entry single_sink slots s =
     (case single_sink of
        Some target \<Rightarrow> wr target entry s
      | None \<Rightarrow> deliver_all wr entry True slots s)"

definition write_entry ::
  "policy \<Rightarrow> 's metadata \<Rightarrow> 's sink_write \<Rightarrow> ('s \<Rightarrow> Logger) \<Rightarrow> Level \<Rightarrow> Error \<Rightarrow> ('s, bool) callable" where
  "write_entry accepts md wr get l e s =
     (if \<not> accepts l then (Returned True, s)
      else
        (let entry = \<lparr>timestamp = timestamp_of md s, thread_id = thread_id_of md s, level = l, error = e\<rparr>
         in case single_non_owning_sink (get s) of
              Some target \<Rightarrow> wr target entry s
            | None \<Rightarrow>
                (let slots = sinks (get s) in
                 if slots = [] then (Returned False, s)
                 else if length slots = 1 then deliver wr entry (Some (sink (hd slots))) [] s
                 else deliver wr entry None slots s)))"

definition Logger_vtable ::
  "policy \<Rightarrow> 's metadata \<Rightarrow> 's sink_write \<Rightarrow> ('s \<Rightarrow> Logger) \<Rightarrow> (Logger \<Rightarrow> 's \<Rightarrow> 's) \<Rightarrow> 's ILogger" where
  "Logger_vtable accepts md wr get put =
     \<lparr>virtual_attach = (\<lambda>x s. map_prod id (\<lambda>lg. put lg s) (attach x (get s))),
      virtual_detach = (\<lambda>x s. map_prod id (\<lambda>lg. put lg s) (detach x (get s))),
      virtual_write = write_entry accepts md wr get,
      virtual_write_owned = write_entry accepts md wr get\<rparr>"

section \<open>The registration invariant\<close>

definition logger_ok :: "Logger \<Rightarrow> bool" where
  "logger_ok lg \<longleftrightarrow> distinct (map sink (sinks lg)) \<and>
     single_non_owning_sink lg = single_sink_fast_path (sinks lg)"

lemma refresh_ok: "logger_ok (refresh_single_sink_fast_path lg) \<longleftrightarrow> distinct (map sink (sinks lg))"
  by (simp add: logger_ok_def refresh_single_sink_fast_path_def)

lemma sinks_refresh [simp]: "sinks (refresh_single_sink_fast_path lg) = sinks lg"
  by (simp add: refresh_single_sink_fast_path_def)

lemma attach_slot_ok: "logger_ok lg \<Longrightarrow> logger_ok (snd (attach_slot slot lg))"
  by (auto simp: attach_slot_def refresh_ok) (auto simp: logger_ok_def)

lemma registered_iff: "(\<exists>registered \<in> set slots. sink registered = a) \<longleftrightarrow> a \<in> sink ` set slots"
  by force

lemma attach_slot_sinks:
  "sinks (snd (attach_slot slot lg)) =
     (if fst (attach_slot slot lg) then sinks lg @ [slot] else sinks lg)"
  "fst (attach_slot slot lg) \<longleftrightarrow> sink slot \<notin> sink ` set (sinks lg)"
  by (simp_all add: attach_slot_def registered_iff)

lemma detach_same: "length xs - length (filter P xs) = 0 \<longleftrightarrow> filter P xs = xs"
proof
  assume "length xs - length (filter P xs) = 0"
  with length_filter_le [of P xs] have "length (filter P xs) = length xs" by linarith
  then show "filter P xs = xs" by (metis filter_True length_filter_less less_irrefl)
qed simp

lemma detach_ok: "logger_ok lg \<Longrightarrow> logger_ok (snd (detach s lg))"
  unfolding detach_def detach_same Let_def
  by (simp add: refresh_ok) (simp add: distinct_map_filter logger_ok_def)

lemma detach_sinks:
  "sinks (snd (detach s lg)) = filter (\<lambda>slot. sink slot \<noteq> s) (sinks lg)"
  "fst (detach s lg) \<longleftrightarrow> s \<in> sink ` set (sinks lg)"
  unfolding detach_def detach_same Let_def by (auto simp: filter_id_conv)

lemma Logger_default_ok: "logger_ok Logger_default"
  by (simp add: logger_ok_def Logger_default_def single_sink_fast_path_def)

lemma Logger_new_ok: "logger_ok (Logger_new ss)"
proof -
  have "logger_ok (fold (\<lambda>s lg. snd (attach_slot (mk s) lg)) ss lg)" if "logger_ok lg" for mk lg
    using that by (induction ss arbitrary: lg) (simp_all add: attach_slot_ok)
  then show ?thesis by (simp add: Logger_new_def Logger_default_ok)
qed

lemma Logger_new_shared_ok: "logger_ok (Logger_new_shared pointer)"
  by (simp add: Logger_new_shared_def Logger_default_ok attach_slot_ok split: option.splits)

section \<open>Registration is an ordered set of sinks\<close>

datatype registration = Attach ILogSink | Attach_shared "ILogSink option" | Detach ILogSink

fun register_sink :: "registration \<Rightarrow> Logger \<Rightarrow> bool \<times> Logger" where
  "register_sink (Attach s) lg = attach s lg"
| "register_sink (Attach_shared pointer) lg = attach_shared pointer lg"
| "register_sink (Detach s) lg = detach s lg"

definition insert_last :: "'a \<Rightarrow> 'a list \<Rightarrow> bool \<times> 'a list" where
  "insert_last x xs = (if x \<in> set xs then (False, xs) else (True, xs @ [x]))"

fun spec_registration :: "registration \<Rightarrow> ILogSink list \<Rightarrow> bool \<times> ILogSink list" where
  "spec_registration (Attach s) xs = insert_last s xs"
| "spec_registration (Attach_shared None) xs = (False, xs)"
| "spec_registration (Attach_shared (Some s)) xs = insert_last s xs"
| "spec_registration (Detach s) xs = (s \<in> set xs, removeAll s xs)"

abbreviation attached :: "Logger \<Rightarrow> ILogSink list" where
  "attached lg \<equiv> map sink (sinks lg)"

lemma attach_slot_refines:
  "map_prod id attached (attach_slot slot lg) = insert_last (sink slot) (attached lg)"
  by (simp add: attach_slot_def insert_last_def registered_iff)

lemma map_sink_removeAll: "map sink (filter (\<lambda>slot. sink slot \<noteq> s) slots) = removeAll s (map sink slots)"
  by (induction slots) auto

lemma detach_refines:
  "map_prod id attached (detach s lg) = (s \<in> set (attached lg), removeAll s (attached lg))"
  using detach_sinks [where lg = lg and s = s]
  by (cases "detach s lg") (simp add: map_sink_removeAll)

interpretation registry: data_refinement register_sink spec_registration attached logger_ok
proof unfold_locales
  fix c lg
  show "map_prod id attached (register_sink c lg) = spec_registration c (attached lg)"
  proof (cases c)
    case (Attach s)
    then show ?thesis using attach_slot_refines by (simp add: attach_def)
  next
    case (Attach_shared pointer)
    then show ?thesis using attach_slot_refines by (cases pointer) (simp_all add: attach_shared_def)
  next
    case (Detach s)
    then show ?thesis using detach_refines by simp
  qed
  show "logger_ok lg \<Longrightarrow> logger_ok (snd (register_sink c lg))"
    by (cases c) (simp_all add: attach_def attach_shared_def attach_slot_ok detach_ok split: option.splits)
qed

lemma attached_new: "attached (Logger_new ss) = fold (\<lambda>s xs. snd (insert_last s xs)) ss []"
proof -
  have "attached (fold (\<lambda>s lg. snd (attach_slot \<lparr>sink = s, shared_owner = False\<rparr> lg)) ss lg) =
      fold (\<lambda>s xs. snd (insert_last s xs)) ss (attached lg)" for lg
  proof (induction ss arbitrary: lg)
    case (Cons s ss)
    have "attached (snd (attach_slot \<lparr>sink = s, shared_owner = False\<rparr> lg)) = snd (insert_last s (attached lg))"
      using arg_cong [OF attach_slot_refines [of "\<lparr>sink = s, shared_owner = False\<rparr>" lg], of snd] by simp
    with Cons show ?case by simp
  qed simp
  then show ?thesis by (simp add: Logger_new_def Logger_default_def)
qed

section \<open>Publishing broadcasts to the attached sinks\<close>

text \<open>The specification: every sink in order gets the record, and the answers are conjoined.\<close>

fun broadcast :: "'s sink_write \<Rightarrow> LogEntry \<Rightarrow> ILogSink list \<Rightarrow> ('s, bool) callable" where
  "broadcast wr entry [] s = (Returned True, s)"
| "broadcast wr entry (x # xs) s =
     (case wr x entry s of
        (Returned a, s') \<Rightarrow>
          (case broadcast wr entry xs s' of
             (Returned b, s'') \<Rightarrow> (Returned (a \<and> b), s'')
           | (thrown, s'') \<Rightarrow> (thrown, s''))
      | (thrown, s') \<Rightarrow> (thrown, s'))"

definition conjoin :: "bool \<Rightarrow> bool completion \<times> 's \<Rightarrow> bool completion \<times> 's" where
  "conjoin a r = (case r of (Returned b, s) \<Rightarrow> (Returned (b \<and> a), s) | _ \<Rightarrow> r)"

lemma deliver_all_broadcast:
  "deliver_all wr entry a slots s = conjoin a (broadcast wr entry (map sink slots) s)"
proof (induction slots arbitrary: a s)
  case Nil
  then show ?case by (simp add: conjoin_def)
next
  case (Cons slot slots)
  then show ?case
    by (auto simp: conjoin_def split: prod.splits completion.splits)
qed

lemma conjoin_True [simp]: "conjoin True r = r"
  by (auto simp: conjoin_def split: prod.splits completion.splits)

lemma broadcast_single [simp]: "broadcast wr entry [x] s = wr x entry s"
  by (auto split: prod.splits completion.splits)

definition log_entry :: "'s metadata \<Rightarrow> Level \<Rightarrow> Error \<Rightarrow> 's \<Rightarrow> LogEntry" where
  "log_entry md l e s =
     \<lparr>timestamp = timestamp_of md s, thread_id = thread_id_of md s, level = l, error = e\<rparr>"

lemma write_entry_broadcast:
  assumes "logger_ok (get s)"
  shows "write_entry accepts md wr get l e s =
    (if \<not> accepts l then (Returned True, s)
     else if sinks (get s) = [] then (Returned False, s)
     else broadcast wr (log_entry md l e s) (attached (get s)) s)"
proof (cases "sinks (get s)")
  case Nil
  with assms show ?thesis
    by (simp add: write_entry_def logger_ok_def single_sink_fast_path_def)
next
  case (Cons slot slots)
  show ?thesis
  proof (cases slots)
    case Nil
    with Cons assms show ?thesis
      by (simp add: write_entry_def logger_ok_def single_sink_fast_path_def deliver_def log_entry_def
          del: broadcast.simps)
  next
    case (Cons slot' slots')
    with \<open>sinks (get s) = slot # slots\<close> assms show ?thesis
      by (simp add: write_entry_def logger_ok_def single_sink_fast_path_def deliver_def log_entry_def
          deliver_all_broadcast del: broadcast.simps deliver_all.simps)
  qed
qed

interpretation logger: logging_service "Logger_vtable accepts md wr get put" accepts
  for accepts md wr get put
  by unfold_locales (simp_all add: Logger_vtable_def write_entry_def)

section \<open>Properties\<close>

lemma run_registry_ok: "logger_ok (snd (run_calls register_sink cs (Logger_new ss)))"
  by (rule registry.run_invar [OF Logger_new_ok])

text \<open>
  A logger keeps an ordered set of sinks: whatever sequence of \<open>attach\<close> and \<open>detach\<close> calls it
  gets after construction, it answers as the specification on lists without duplicates does, in
  particular a sink that is attached already is refused and one that is detached was attached.
\<close>

lemma registration_is_an_ordered_set:
  "fst (run_calls register_sink cs (Logger_new ss)) =
     fst (run_calls spec_registration cs (fold (\<lambda>s xs. snd (insert_last s xs)) ss [])) \<and>
   attached (snd (run_calls register_sink cs (Logger_new ss))) =
     snd (run_calls spec_registration cs (fold (\<lambda>s xs. snd (insert_last s xs)) ss [])) \<and>
   distinct (attached (snd (run_calls register_sink cs (Logger_new ss))))"
  using registry.run_replies [OF Logger_new_ok] registry.run_view [OF Logger_new_ok]
    run_registry_ok [of cs ss] by (simp only: attached_new logger_ok_def)

lemma write_is_broadcast:
  assumes "get s = snd (run_calls register_sink cs (Logger_new ss))"
  shows "virtual_write (Logger_vtable accepts md wr get put) l e s =
    (let xs = snd (run_calls spec_registration cs (fold (\<lambda>s xs. snd (insert_last s xs)) ss [])) in
     if \<not> accepts l then (Returned True, s)
     else if xs = [] then (Returned False, s)
     else broadcast wr (log_entry md l e s) xs s)"
proof -
  have ok: "logger_ok (get s)" by (simp only: assms run_registry_ok)
  have xs: "attached (get s) =
      snd (run_calls spec_registration cs (fold (\<lambda>s xs. snd (insert_last s xs)) ss []))"
    by (simp only: assms registry.run_view [OF Logger_new_ok] attached_new)
  have "virtual_write (Logger_vtable accepts md wr get put) l e s = write_entry accepts md wr get l e s"
    by (simp add: Logger_vtable_def)
  also have "\<dots> = (if \<not> accepts l then (Returned True, s)
     else if attached (get s) = [] then (Returned False, s)
     else broadcast wr (log_entry md l e s) (attached (get s)) s)"
    by (simp only: write_entry_broadcast [of get s, OF ok] map_is_Nil_conv)
  finally show ?thesis by (simp only: xs Let_def)
qed

text \<open>
  C10. \<open>write\<close> broadcasts: after any registration calls, a record that the policy accepts is given
  once to each attached sink in the order of attachment, the answer is the conjunction of theirs,
  and without sinks it is false; the lock-free path for a single sink makes no difference. A record
  that the policy drops is reported as accepted and reaches no sink.
\<close>

theorem write_broadcasts_to_attached_sinks:
  assumes "get s = snd (run_calls register_sink cs (Logger_new ss))"
  shows "virtual_write (Logger_vtable accepts md wr get put) l e s =
    (let xs = snd (run_calls spec_registration cs (fold (\<lambda>s xs. snd (insert_last s xs)) ss [])) in
     if \<not> accepts l then (Returned True, s)
     else if xs = [] then (Returned False, s)
     else broadcast wr (log_entry md l e s) xs s)"
  using assms by (rule write_is_broadcast)

text \<open>Three sinks, the second detached again; the sinks record that they are called, and the first
  refuses the record.\<close>

theorem write_broadcasts_to_attached_sinks_witness:
  "virtual_write (Logger_vtable AcceptAllPolicy MinimalMetadataPolicy
       (\<lambda>x entry s. (Returned (x \<noteq> 1), (fst s, snd s @ [x]))) fst (\<lambda>lg s. (lg, snd s)))
     ERROR (make_Error NETWORK 7 ''io'')
     (snd (run_calls register_sink [Attach 3, Detach 2, Attach 1] (Logger_new [1, 2])), []) =
   (Returned False, (snd (run_calls register_sink [Attach 3, Detach 2, Attach 1] (Logger_new [1, 2])), [1, 3]))"
  by (subst write_broadcasts_to_attached_sinks [where cs = "[Attach 3, Detach 2, Attach 1]" and ss = "[1, 2]"])
    (simp_all add: AcceptAllPolicy_def insert_last_def del: register_sink.simps)



end
