(* ===== verification/Concurrent_Logging.thy ===== *)
theory Concurrent_Logging
  imports Logger_Sync
begin

text \<open>
  The synchronous \<open>Logger\<close> of \<open>include/vosp/logger.hpp\<close> under concurrent use, by atomic operations and
  critical sections: \<open>write_entry\<close> probes the lock-free pointer, else selects the sinks under
  \<open>mutex_\<close>, and calls them with (serialized dispatch) or without (parallel dispatch) the recursive
  \<open>callback_mutex_\<close>; \<open>attach\<close> and \<open>detach\<close> change the list of slots and then refresh the pointer,
  which readers without a lock may see in between. A callback may call the logger again, so a thread
  is a stack of calls. Sinks answer or throw as they like.
\<close>

section \<open>Calls in progress\<close>

datatype frame =
    Probing LogEntry nat
  | Locating LogEntry nat
  | Entering LogEntry nat "ILogSink list"
  | Calling LogEntry nat "ILogSink list" "(ILogSink \<times> bool) list"
  | In_sink LogEntry nat "ILogSink list" "(ILogSink \<times> bool) list" ILogSink
  | Refreshing registration

text \<open>What a call commits to, and what it learns: the reply of a registration, or the selected sinks.\<close>

datatype commit = Register_sink registration | Select_sinks

datatype commit_reply = Registered bool | Selected "ILogSink list"

datatype write_end = Write_end LogEntry nat nat "ILogSink list" "(ILogSink \<times> bool) list" "bool completion"

text \<open>A write carries the number of commits at its call, and its end also that at its return. The last
  three fields are ghosts: the list of sinks as of the last completed registration, the
  commits in order, and the writes that have ended.\<close>

record logging =
  registry :: Logger
  registry_holder :: "nat option"
  callback_holder :: "(nat \<times> nat) option"
  stacks :: "nat \<Rightarrow> frame list"
  published :: "ILogSink list"
  commits :: "(commit \<times> commit_reply) list"
  ended :: "write_end list"

definition logging_start :: "ILogSink list \<Rightarrow> logging" where
  "logging_start ss = \<lparr>registry = Logger_new ss, registry_holder = None, callback_holder = None,
     stacks = (\<lambda>_. []), published = attached (Logger_new ss), commits = [], ended = []\<rparr>"

abbreviation with_stack :: "nat \<Rightarrow> frame list \<Rightarrow> logging \<Rightarrow> logging" where
  "with_stack t fs s \<equiv> s\<lparr>stacks := (stacks s)(t := fs)\<rparr>"

text \<open>A thread may call the logger when it is outside or inside a callback.\<close>

fun may_call :: "frame list \<Rightarrow> bool" where
  "may_call [] = True"
| "may_call (In_sink e n sel ans x # fs) = True"
| "may_call _ = False"

text \<open>The recursive mutex: its owner and how often it is held.\<close>

fun acquire :: "nat \<Rightarrow> (nat \<times> nat) option \<Rightarrow> (nat \<times> nat) option option" where
  "acquire t None = Some (Some (t, 1))"
| "acquire t (Some (u, d)) = (if u = t then Some (Some (t, Suc d)) else None)"

fun release :: "(nat \<times> nat) option \<Rightarrow> (nat \<times> nat) option" where
  "release None = None"
| "release (Some (u, d)) = (if d \<le> 1 then None else Some (u, d - 1))"

definition leave_callbacks :: "bool \<Rightarrow> logging \<Rightarrow> logging" where
  "leave_callbacks serialized s =
     (if serialized then s\<lparr>callback_holder := release (callback_holder s)\<rparr> else s)"

text \<open>What \<open>attach\<close> and \<open>detach\<close> do to the slots before they refresh the pointer.\<close>

definition append_slot :: "SinkSlot \<Rightarrow> SinkSlot list \<Rightarrow> bool \<times> SinkSlot list" where
  "append_slot slot slots =
     (if \<exists>registered \<in> set slots. sink registered = sink slot then (False, slots)
      else (True, slots @ [slot]))"

fun change_slots :: "registration \<Rightarrow> SinkSlot list \<Rightarrow> bool \<times> SinkSlot list" where
  "change_slots (Attach s) slots = append_slot \<lparr>sink = s, shared_owner = False\<rparr> slots"
| "change_slots (Attach_shared None) slots = (False, slots)"
| "change_slots (Attach_shared (Some s)) slots = append_slot \<lparr>sink = s, shared_owner = True\<rparr> slots"
| "change_slots (Detach s) slots =
     (let kept = filter (\<lambda>slot. sink slot \<noteq> s) slots in (length slots - length kept \<noteq> 0, kept))"

inductive logging_step :: "policy \<Rightarrow> bool \<Rightarrow> nat \<Rightarrow> logging \<Rightarrow> logging \<Rightarrow> bool"
  for accepts :: policy and serialized :: bool and t :: nat where
  writes: "may_call (stacks s t) \<Longrightarrow> accepts (level e) \<Longrightarrow>
     logging_step accepts serialized t s (with_stack t (Probing e (length (commits s)) # stacks s t) s)"
| probes: "stacks s t = Probing e n # fs \<Longrightarrow> single_non_owning_sink (registry s) = Some x \<Longrightarrow>
     logging_step accepts serialized t s
       (with_stack t (Entering e n [x] # fs) (s\<lparr>commits := commits s @ [(Select_sinks, Selected [x])]\<rparr>))"
| misses: "stacks s t = Probing e n # fs \<Longrightarrow> single_non_owning_sink (registry s) = None \<Longrightarrow>
     logging_step accepts serialized t s (with_stack t (Locating e n # fs) s)"
| finds_none: "stacks s t = Locating e n # fs \<Longrightarrow> registry_holder s = None \<Longrightarrow> sinks (registry s) = [] \<Longrightarrow>
     logging_step accepts serialized t s
       (with_stack t fs (s\<lparr>commits := commits s @ [(Select_sinks, Selected [])],
          ended := ended s @ [Write_end e n (Suc (length (commits s))) [] [] (Returned False)]\<rparr>))"
| selects: "stacks s t = Locating e n # fs \<Longrightarrow> registry_holder s = None \<Longrightarrow> sinks (registry s) \<noteq> [] \<Longrightarrow>
     logging_step accepts serialized t s
       (with_stack t (Entering e n (attached (registry s)) # fs)
          (s\<lparr>commits := commits s @ [(Select_sinks, Selected (attached (registry s)))]\<rparr>))"
| enters_serialized: "stacks s t = Entering e n sel # fs \<Longrightarrow> serialized \<Longrightarrow>
     acquire t (callback_holder s) = Some holder \<Longrightarrow>
     logging_step accepts serialized t s
       (with_stack t (Calling e n sel [] # fs) (s\<lparr>callback_holder := holder\<rparr>))"
| enters_parallel: "stacks s t = Entering e n sel # fs \<Longrightarrow> \<not> serialized \<Longrightarrow>
     logging_step accepts serialized t s (with_stack t (Calling e n sel [] # fs) s)"
| calls_sink: "stacks s t = Calling e n sel ans # fs \<Longrightarrow> length ans < length sel \<Longrightarrow>
     logging_step accepts serialized t s (with_stack t (In_sink e n sel ans (sel ! length ans) # fs) s)"
| sink_answers: "stacks s t = In_sink e n sel ans x # fs \<Longrightarrow>
     logging_step accepts serialized t s (with_stack t (Calling e n sel (ans @ [(x, b)]) # fs) s)"
| sink_throws: "stacks s t = In_sink e n sel ans x # fs \<Longrightarrow> r \<noteq> Returned True \<Longrightarrow> r \<noteq> Returned False \<Longrightarrow>
     logging_step accepts serialized t s
       (with_stack t fs (leave_callbacks serialized (s\<lparr>ended := ended s @ [Write_end e n (length (commits s)) sel ans r]\<rparr>)))"
| write_returns: "stacks s t = Calling e n sel ans # fs \<Longrightarrow> length ans = length sel \<Longrightarrow>
     logging_step accepts serialized t s
       (with_stack t fs (leave_callbacks serialized
          (s\<lparr>ended := ended s @ [Write_end e n (length (commits s)) sel ans (Returned (\<forall>a \<in> set ans. snd a))]\<rparr>)))"
| registers_in_vain: "may_call (stacks s t) \<Longrightarrow> registry_holder s = None \<or> c = Attach_shared None \<Longrightarrow>
     \<not> fst (change_slots c (sinks (registry s))) \<Longrightarrow>
     logging_step accepts serialized t s (s\<lparr>commits := commits s @ [(Register_sink c, Registered False)]\<rparr>)"
| changes_slots: "may_call (stacks s t) \<Longrightarrow> registry_holder s = None \<Longrightarrow>
     change_slots c (sinks (registry s)) = (True, slots) \<Longrightarrow>
     logging_step accepts serialized t s
       (with_stack t (Refreshing c # stacks s t)
          (s\<lparr>registry := (registry s)\<lparr>sinks := slots\<rparr>, registry_holder := Some t\<rparr>))"
| refreshes: "stacks s t = Refreshing c # fs \<Longrightarrow>
     logging_step accepts serialized t s
       (with_stack t fs (s\<lparr>registry := refresh_single_sink_fast_path (registry s), registry_holder := None,
          published := attached (registry s), commits := commits s @ [(Register_sink c, Registered True)]\<rparr>))"

inductive logging_reach :: "policy \<Rightarrow> bool \<Rightarrow> ILogSink list \<Rightarrow> logging \<Rightarrow> bool"
  for accepts :: policy and serialized :: bool and ss :: "ILogSink list" where
  fresh_logger: "logging_reach accepts serialized ss (logging_start ss)"
| logs: "logging_reach accepts serialized ss s \<Longrightarrow> logging_step accepts serialized t s s' \<Longrightarrow>
     logging_reach accepts serialized ss s'"

section \<open>The slots and the pointer\<close>

lemma filter_all_kept [simp]: "length xs \<le> length (filter P xs) \<longleftrightarrow> filter P xs = xs"
  using detach_same [of xs P] by auto

text \<open>Changing the slots and refreshing the pointer is the sequential registration.\<close>

lemma change_slots_register:
  "register_sink c lg =
     (case change_slots c (sinks lg) of (changed, slots) \<Rightarrow>
        (changed, if changed then refresh_single_sink_fast_path (lg\<lparr>sinks := slots\<rparr>) else lg))"
proof (cases c)
  case (Attach_shared pointer)
  then show ?thesis
    by (cases pointer) (auto simp: attach_shared_def attach_slot_def append_slot_def)
qed (auto simp: attach_def attach_slot_def append_slot_def detach_def Let_def)

lemma append_slot_spec:
  "map_prod id (map sink) (append_slot slot slots) = insert_last (sink slot) (map sink slots)"
  by (simp add: append_slot_def insert_last_def registered_iff)

lemma change_slots_spec:
  "map_prod id (map sink) (change_slots c slots) = spec_registration c (map sink slots)"
proof (cases c)
  case (Attach s)
  then show ?thesis using append_slot_spec by simp
next
  case (Attach_shared pointer)
  then show ?thesis using append_slot_spec by (cases pointer) simp_all
next
  case (Detach s)
  then show ?thesis
    using detach_sinks(2) [where lg = "\<lparr>sinks = slots, single_non_owning_sink = None\<rparr>" and s = s]
    by (simp add: map_sink_removeAll Let_def detach_def split: if_splits)
qed

lemma change_slots_result:
  assumes "change_slots c slots = (changed, slots')"
  shows "spec_registration c (map sink slots) = (changed, map sink slots')"
    and "\<not> changed \<Longrightarrow> slots' = slots"
proof -
  show "spec_registration c (map sink slots) = (changed, map sink slots')"
    using change_slots_spec [of c slots] assms by simp
  show "\<not> changed \<Longrightarrow> slots' = slots"
    using assms by (induction c slots rule: change_slots.induct)
      (auto simp: append_slot_def Let_def split: if_splits)
qed

lemma spec_registration_distinct: "distinct xs \<Longrightarrow> distinct (snd (spec_registration c xs))"
  by (induction c xs rule: spec_registration.induct) (auto simp: insert_last_def distinct_removeAll)


section \<open>The registry\<close>

text \<open>While nobody is between the two halves of a registration, slots and pointer are those of the
  published list; in between, the pending registration leads from it to the new slots, and the
  pointer still belongs to the published list.\<close>

definition registry_inv :: "logging \<Rightarrow> bool" where
  "registry_inv s \<longleftrightarrow> distinct (published s) \<and>
     (\<forall>x. single_non_owning_sink (registry s) = Some x \<longrightarrow> published s = [x]) \<and>
     (registry_holder s = None \<longrightarrow> attached (registry s) = published s) \<and>
     (\<forall>t c. Refreshing c \<in> set (stacks s t) \<longrightarrow> registry_holder s = Some t) \<and>
     (\<forall>t. registry_holder s = Some t \<longrightarrow> (\<exists>c fs. stacks s t = Refreshing c # fs \<and>
        (\<forall>d. Refreshing d \<notin> set fs) \<and>
        spec_registration c (published s) = (True, attached (registry s))))"

lemma fast_path_single: "single_sink_fast_path slots = Some x \<Longrightarrow> map sink slots = [x]"
  by (auto simp: single_sink_fast_path_def split: list.splits if_splits)

lemma registry_inv_frame:
  assumes "registry_inv s" and "registry s' = registry s" and "registry_holder s' = registry_holder s"
    and "published s' = published s" and "stacks s' = (stacks s)(t := fs)"
    and "\<And>c. Refreshing c \<in> set fs \<Longrightarrow> Refreshing c \<in> set (stacks s t)"
    and "\<And>c gs. stacks s t \<noteq> Refreshing c # gs"
  shows "registry_inv s'"
proof -
  have other: "registry_holder s \<noteq> Some t" using assms(1,7) by (auto simp: registry_inv_def)
  then have none: "Refreshing c \<notin> set fs" for c
    using assms(1) assms(6) [of c] by (auto simp: registry_inv_def)
  show ?thesis using assms(1) other none by (simp add: registry_inv_def assms(2-5))
qed

lemma may_call_top: "may_call fs \<Longrightarrow> fs \<noteq> Refreshing c # gs"
  by (cases fs rule: may_call.cases) auto

lemma leave_frame [simp]:
  "registry (leave_callbacks ser s) = registry s" "stacks (leave_callbacks ser s) = stacks s"
  "registry_holder (leave_callbacks ser s) = registry_holder s"
  "published (leave_callbacks ser s) = published s" "commits (leave_callbacks ser s) = commits s"
  "ended (leave_callbacks ser s) = ended s"
  by (simp_all add: leave_callbacks_def)

lemma registry_inv_top:
  assumes "registry_inv s" and "stacks s t = f # fs" and "stacks s' = (stacks s)(t := gs @ fs)"
    and "registry s' = registry s" and "registry_holder s' = registry_holder s"
    and "published s' = published s" and "\<And>c. f \<noteq> Refreshing c" and "\<And>c. Refreshing c \<notin> set gs"
  shows "registry_inv s'"
  by (rule registry_inv_frame [OF assms(1,4,5,6,3)]) (use assms(2,7,8) in auto)

lemma logging_step_registry:
  "logging_step accepts ser t s s' \<Longrightarrow> registry_inv s \<Longrightarrow> registry_inv s'"
proof (induction rule: logging_step.induct)
  case (writes s e)
  show ?case
    by (rule registry_inv_frame [OF writes(3), where t = t and fs = "Probing e (length (commits s)) # stacks s t"])
      (use may_call_top [OF writes(1)] in auto)
next
  case (registers_in_vain s c)
  then show ?case by (simp add: registry_inv_def)
next
  case (changes_slots s c slots)
  have free: "\<forall>u d. Refreshing d \<notin> set (stacks s u)"
    using changes_slots(2,4) by (auto simp: registry_inv_def)
  have "spec_registration c (published s) = (True, map sink slots)"
    using change_slots_result(1) [OF changes_slots(3)] changes_slots(2,4) by (simp add: registry_inv_def)
  with changes_slots(4) free show ?case by (auto simp: registry_inv_def)
next
  case (refreshes s c fs)
  have "Refreshing c \<in> set (stacks s t)" using refreshes(1) by simp
  then have holder: "registry_holder s = Some t" using refreshes(2) unfolding registry_inv_def by blast
  then have "spec_registration c (published s) = (True, attached (registry s))"
    and rest: "\<forall>d. Refreshing d \<notin> set fs"
    using refreshes by (auto simp: registry_inv_def)
  then have "distinct (attached (registry s))"
    using spec_registration_distinct [of "published s" c] refreshes(2) by (simp add: registry_inv_def)
  moreover have "\<forall>u d. Refreshing d \<in> set (stacks s u) \<longrightarrow> u = t"
    using holder refreshes(2) by (auto simp: registry_inv_def)
  ultimately have unique: "distinct (attached (registry s))"
      "\<And>u d. Refreshing d \<in> set (stacks s u) \<Longrightarrow> u = t" by blast+
  let ?s = "with_stack t fs (s\<lparr>registry := refresh_single_sink_fast_path (registry s),
    registry_holder := None, published := attached (registry s),
    commits := commits s @ [(Register_sink c, Registered True)]\<rparr>)"
  have "Refreshing d \<notin> set (stacks ?s u)" for u d
    using unique(2) [of d u] rest by (cases "u = t") auto
  moreover have "single_non_owning_sink (registry ?s) = Some x \<Longrightarrow> published ?s = [x]" for x
    by (auto simp: refresh_single_sink_fast_path_def dest: fast_path_single)
  moreover have "attached (registry ?s) = published ?s" by (simp add: refresh_single_sink_fast_path_def)
  ultimately show ?case using unique(1) unfolding registry_inv_def by simp
next
  case (probes s e n fs x)
  show ?case by (rule registry_inv_top [OF probes(3,1), where gs = "[Entering e n [x]]"]) simp_all
next
  case (misses s e n fs)
  show ?case by (rule registry_inv_top [OF misses(3,1), where gs = "[Locating e n]"]) simp_all
next
  case (finds_none s e n fs)
  show ?case by (rule registry_inv_top [OF finds_none(4,1), where gs = "[]"]) simp_all
next
  case (selects s e n fs)
  show ?case
    by (rule registry_inv_top [OF selects(4,1), where gs = "[Entering e n (attached (registry s))]"]) simp_all
next
  case (enters_serialized s e n sel fs holder)
  show ?case by (rule registry_inv_top [OF enters_serialized(4,1), where gs = "[Calling e n sel []]"]) simp_all
next
  case (enters_parallel s e n sel fs)
  show ?case by (rule registry_inv_top [OF enters_parallel(3,1), where gs = "[Calling e n sel []]"]) simp_all
next
  case (calls_sink s e n sel ans fs)
  show ?case
    by (rule registry_inv_top [OF calls_sink(3,1), where gs = "[In_sink e n sel ans (sel ! length ans)]"]) simp_all
next
  case (sink_answers s e n sel ans x fs b)
  show ?case
    by (rule registry_inv_top [OF sink_answers(2,1), where gs = "[Calling e n sel (ans @ [(x, b)])]"]) simp_all
next
  case (sink_throws s e n sel ans x fs r)
  show ?case by (rule registry_inv_top [OF sink_throws(4,1), where gs = "[]"]) simp_all
next
  case (write_returns s e n sel ans fs)
  show ?case by (rule registry_inv_top [OF write_returns(3,1), where gs = "[]"]) simp_all
qed


section \<open>Commits and ended writes\<close>

fun commit_step :: "commit \<Rightarrow> ILogSink list \<Rightarrow> commit_reply \<times> ILogSink list" where
  "commit_step (Register_sink c) xs = map_prod Registered id (spec_registration c xs)"
| "commit_step Select_sinks xs = (Selected xs, xs)"

definition commits_inv :: "ILogSink list \<Rightarrow> logging \<Rightarrow> bool" where
  "commits_inv xs s \<longleftrightarrow>
     run_calls commit_step (map fst (commits s)) xs = (map snd (commits s), published s)"

text \<open>The sinks of a write were selected by a commit since it was called; the answers so far are
  theirs, in order.\<close>

definition selected_between :: "(commit \<times> commit_reply) list \<Rightarrow> nat \<Rightarrow> nat \<Rightarrow> ILogSink list \<Rightarrow> bool" where
  "selected_between cs n m sel \<longleftrightarrow> (\<exists>k. n \<le> k \<and> k < m \<and> m \<le> length cs \<and> cs ! k = (Select_sinks, Selected sel))"

fun frame_ok :: "(commit \<times> commit_reply) list \<Rightarrow> frame \<Rightarrow> bool" where
  "frame_ok cs (Probing e n) \<longleftrightarrow> n \<le> length cs"
| "frame_ok cs (Locating e n) \<longleftrightarrow> n \<le> length cs"
| "frame_ok cs (Entering e n sel) \<longleftrightarrow> sel \<noteq> [] \<and> selected_between cs n (length cs) sel"
| "frame_ok cs (Calling e n sel ans) \<longleftrightarrow> sel \<noteq> [] \<and> selected_between cs n (length cs) sel \<and>
     length ans \<le> length sel \<and> map fst ans = take (length ans) sel"
| "frame_ok cs (In_sink e n sel ans x) \<longleftrightarrow> selected_between cs n (length cs) sel \<and>
     length ans < length sel \<and> map fst ans = take (length ans) sel \<and> x = sel ! length ans"
| "frame_ok cs (Refreshing c) \<longleftrightarrow> True"

fun end_ok :: "(commit \<times> commit_reply) list \<Rightarrow> write_end \<Rightarrow> bool" where
  "end_ok cs (Write_end e n m sel ans r) \<longleftrightarrow> selected_between cs n m sel \<and>
     map fst ans = take (length ans) sel \<and>
     (case r of Returned b \<Rightarrow> map fst ans = sel \<and> (b \<longleftrightarrow> sel \<noteq> [] \<and> (\<forall>a \<in> set ans. snd a))
      | _ \<Rightarrow> True)"

lemma selected_more:
  "selected_between cs n m sel \<Longrightarrow> m \<le> m' \<Longrightarrow> m' \<le> length cs + length ds \<Longrightarrow> selected_between (cs @ ds) n m' sel"
  unfolding selected_between_def by (fastforce simp: nth_append)

lemma selected_now:
  "n \<le> length cs \<Longrightarrow> selected_between (cs @ [(Select_sinks, Selected sel)]) n (Suc (length cs)) sel"
  unfolding selected_between_def by (rule exI [of _ "length cs"]) simp

lemma selected_still: "selected_between cs n m sel \<Longrightarrow> selected_between (cs @ ds) n m sel"
  using selected_more [of cs n m sel m ds] by (auto simp: selected_between_def)

definition writes_inv :: "logging \<Rightarrow> bool" where
  "writes_inv s \<longleftrightarrow> (\<forall>t. \<forall>f \<in> set (stacks s t). frame_ok (commits s) f) \<and>
     (\<forall>w \<in> set (ended s). end_ok (commits s) w)"

lemma frame_ok_more: "frame_ok cs f \<Longrightarrow> frame_ok (cs @ ds) f"
  by (cases f) (auto intro: selected_more)

lemma end_ok_more: "end_ok cs w \<Longrightarrow> end_ok (cs @ ds) w"
  by (cases w) (simp add: selected_still split: completion.splits)

lemma end_ok_returned:
  assumes "end_ok cs (Write_end e n m sel ans (Returned b))"
  shows "map fst ans = sel" and "b = (sel \<noteq> [] \<and> (\<forall>a \<in> set ans. snd a))"
  using assms unfolding end_ok.simps completion.case by blast+

lemma writes_invI:
  assumes "writes_inv s" and "commits s' = commits s @ cs" and "stacks s' = (stacks s)(t := fs)"
    and "ended s' = ended s @ ws" and "\<forall>f \<in> set fs. frame_ok (commits s') f"
    and "\<forall>w \<in> set ws. end_ok (commits s') w"
  shows "writes_inv s'"
proof -
  have "frame_ok (commits s') f" if "f \<in> set (stacks s' u)" for u f
    using that assms(1,2,3,5) frame_ok_more [of "commits s" f cs]
    by (cases "u = t") (simp_all add: writes_inv_def)
  moreover have "end_ok (commits s') w" if "w \<in> set (ended s')" for w
    using that assms(1,2,4,6) end_ok_more [of "commits s" w cs] by (auto simp: writes_inv_def)
  ultimately show ?thesis unfolding writes_inv_def by blast
qed

lemma writes_invD:
  assumes "writes_inv s" and "stacks s t = f # fs"
  shows "frame_ok (commits s) f" and "\<forall>g \<in> set fs. frame_ok (commits s) g"
  using assms unfolding writes_inv_def by (metis list.set_intros)+

lemma writes_inv_top:
  assumes "writes_inv s" and "stacks s t = f # fs" and "stacks s' = (stacks s)(t := gs @ fs)"
    and "commits s' = commits s @ cs" and "ended s' = ended s @ ws"
    and "frame_ok (commits s) f \<Longrightarrow> \<forall>g \<in> set gs. frame_ok (commits s @ cs) g"
    and "frame_ok (commits s) f \<Longrightarrow> \<forall>w \<in> set ws. end_ok (commits s @ cs) w"
  shows "writes_inv s'"
proof (rule writes_invI [OF assms(1,4,3,5)])
  show "\<forall>g \<in> set (gs @ fs). frame_ok (commits s') g"
    using writes_invD [OF assms(1,2)] assms(6) by (auto simp: assms(4) intro: frame_ok_more)
  show "\<forall>w \<in> set ws. end_ok (commits s') w"
    using writes_invD(1) [OF assms(1,2)] assms(7) by (simp add: assms(4))
qed

lemma not_returned:
  "r \<noteq> Returned True \<Longrightarrow> r \<noteq> Returned False \<Longrightarrow> r \<noteq> Returned b"
  by (cases b) auto

lemma logging_step_writes:
  "logging_step accepts ser t s s' \<Longrightarrow> registry_inv s \<Longrightarrow> writes_inv s \<Longrightarrow> writes_inv s'"
proof (induction rule: logging_step.induct)
  case (writes s e)
  then have "\<forall>f \<in> set (stacks s t). frame_ok (commits s) f" by (simp add: writes_inv_def)
  then show ?case
    by (intro writes_invI [OF writes(4), where t = t and ws = "[]" and cs = "[]"
          and fs = "Probing e (length (commits s)) # stacks s t"]) simp_all
next
  case (probes s e n fs x)
  show ?case
    by (rule writes_inv_top [OF probes(4,1), where gs = "[Entering e n [x]]"
          and cs = "[(Select_sinks, Selected [x])]" and ws = "[]"]) (simp_all add: selected_now)
next
  case (misses s e n fs)
  show ?case
    by (rule writes_inv_top [OF misses(4,1), where gs = "[Locating e n]" and cs = "[]" and ws = "[]"]) simp_all
next
  case (finds_none s e n fs)
  show ?case
    by (rule writes_inv_top [OF finds_none(5,1), where gs = "[]" and cs = "[(Select_sinks, Selected [])]"
          and ws = "[Write_end e n (Suc (length (commits s))) [] [] (Returned False)]"])
      (simp_all add: selected_now)
next
  case (selects s e n fs)
  show ?case
    by (rule writes_inv_top [OF selects(5,1), where gs = "[Entering e n (attached (registry s))]"
          and cs = "[(Select_sinks, Selected (attached (registry s)))]" and ws = "[]"])
      (use selects(3) selected_now in simp_all)
next
  case (enters_serialized s e n sel fs holder)
  show ?case
    by (rule writes_inv_top [OF enters_serialized(5,1), where gs = "[Calling e n sel []]"
          and cs = "[]" and ws = "[]"]) simp_all
next
  case (enters_parallel s e n sel fs)
  show ?case
    by (rule writes_inv_top [OF enters_parallel(4,1), where gs = "[Calling e n sel []]"
          and cs = "[]" and ws = "[]"]) simp_all
next
  case (calls_sink s e n sel ans fs)
  show ?case
    by (rule writes_inv_top [OF calls_sink(4,1), where gs = "[In_sink e n sel ans (sel ! length ans)]"
          and cs = "[]" and ws = "[]"]) (use calls_sink(2) in simp_all)
next
  case (sink_answers s e n sel ans x fs b)
  show ?case
    by (rule writes_inv_top [OF sink_answers(3,1), where gs = "[Calling e n sel (ans @ [(x, b)])]"
          and cs = "[]" and ws = "[]"]) (auto simp: take_Suc_conv_app_nth)
next
  case (sink_throws s e n sel ans x fs r)
  show ?case
    by (rule writes_inv_top [OF sink_throws(5,1), where gs = "[]" and cs = "[]"
          and ws = "[Write_end e n (length (commits s)) sel ans r]"]) (use not_returned [OF sink_throws(2,3)] in \<open>simp_all split: completion.split\<close>)
next
  case (write_returns s e n sel ans fs)
  show ?case
    by (rule writes_inv_top [OF write_returns(4,1), where gs = "[]" and cs = "[]"
          and ws = "[Write_end e n (length (commits s)) sel ans (Returned (\<forall>a \<in> set ans. snd a))]"])
      (use write_returns(2) in simp_all)
next
  case (registers_in_vain s c)
  then have "\<forall>f \<in> set (stacks s t). frame_ok (commits s) f" by (simp add: writes_inv_def)
  then show ?case
    by (intro writes_invI [OF registers_in_vain(5), where t = t and fs = "stacks s t" and ws = "[]"
          and cs = "[(Register_sink c, Registered False)]"]) (auto intro: frame_ok_more)
next
  case (changes_slots s c slots)
  then have "\<forall>f \<in> set (stacks s t). frame_ok (commits s) f" by (simp add: writes_inv_def)
  then show ?case
    by (intro writes_invI [OF changes_slots(5), where t = t and fs = "Refreshing c # stacks s t"
          and ws = "[]" and cs = "[]"]) simp_all
next
  case (refreshes s c fs)
  show ?case
    by (rule writes_inv_top [OF refreshes(3,1), where gs = "[]" and ws = "[]"
          and cs = "[(Register_sink c, Registered True)]"]) simp_all
qed

lemma logging_step_commits:
  "logging_step accepts ser t s s' \<Longrightarrow> registry_inv s \<Longrightarrow> commits_inv xs s \<Longrightarrow> commits_inv xs s'"
proof (induction rule: logging_step.induct)
  case (probes s e n fs x)
  then have "published s = [x]" unfolding registry_inv_def by blast
  with probes(4) show ?case by (simp add: commits_inv_def run_calls_snoc)
next
  case (finds_none s e n fs)
  then have "published s = []" by (simp add: registry_inv_def)
  with finds_none(5) show ?case by (simp add: commits_inv_def run_calls_snoc)
next
  case (selects s e n fs)
  then have "published s = attached (registry s)" by (simp add: registry_inv_def)
  with selects(5) show ?case by (simp add: commits_inv_def run_calls_snoc)
next
  case (registers_in_vain s c)
  then have "spec_registration c (published s) = (False, published s)"
    using change_slots_result [of c "sinks (registry s)"]
    by (cases "change_slots c (sinks (registry s))") (auto simp: registry_inv_def)
  with registers_in_vain(5) show ?case by (simp add: commits_inv_def run_calls_snoc)
next
  case (refreshes s c fs)
  then have "Refreshing c \<in> set (stacks s t)" by simp
  then have "registry_holder s = Some t" using refreshes(2) unfolding registry_inv_def by blast
  then have "spec_registration c (published s) = (True, attached (registry s))"
    using refreshes by (auto simp: registry_inv_def)
  with refreshes(3) show ?case by (simp add: commits_inv_def run_calls_snoc)
qed (simp_all add: commits_inv_def)


section \<open>Reachable states\<close>

lemma start_registry: "registry_inv (logging_start ss)"
  using Logger_new_ok [of ss]
  by (auto simp: registry_inv_def logging_start_def logger_ok_def dest: fast_path_single)

lemma logging_reach_inv:
  "logging_reach accepts ser ss s \<Longrightarrow>
     registry_inv s \<and> writes_inv s \<and> commits_inv (attached (Logger_new ss)) s"
proof (induction rule: logging_reach.induct)
  case fresh_logger
  then show ?case
    using start_registry by (simp add: writes_inv_def commits_inv_def logging_start_def)
next
  case (logs s t s')
  then show ?case
    using logging_step_registry logging_step_writes logging_step_commits by blast
qed


section \<open>The callback mutex\<close>

fun holds_callbacks :: "frame \<Rightarrow> bool" where
  "holds_callbacks (Calling e n sel ans) = True"
| "holds_callbacks (In_sink e n sel ans x) = True"
| "holds_callbacks _ = False"

definition depth :: "frame list \<Rightarrow> nat" where
  "depth fs = length (filter holds_callbacks fs)"

lemma depth_simps [simp]:
  "depth [] = 0" "depth (f # fs) = (if holds_callbacks f then Suc (depth fs) else depth fs)"
  by (simp_all add: depth_def)

lemma depth_pos: "f \<in> set fs \<Longrightarrow> holds_callbacks f \<Longrightarrow> 0 < depth fs"
  by (auto simp: depth_def filter_empty_conv)

fun held :: "nat \<Rightarrow> (nat \<times> nat) option \<Rightarrow> nat" where
  "held u None = 0"
| "held u (Some (v, d)) = (if u = v then d else 0)"

definition lock_ok :: "(nat \<times> nat) option \<Rightarrow> bool" where
  "lock_ok h \<longleftrightarrow> (\<forall>u d. h = Some (u, d) \<longrightarrow> 0 < d)"

text \<open>The mutex counts the calls that are delivering, all of them of its owner.\<close>

definition callback_inv :: "logging \<Rightarrow> bool" where
  "callback_inv s \<longleftrightarrow> lock_ok (callback_holder s) \<and>
     (\<forall>u. depth (stacks s u) = held u (callback_holder s))"

lemma acquire_held:
  "acquire t h = Some h' \<Longrightarrow> lock_ok h' \<and> held u h' = (if u = t then Suc (held u h) else held u h)"
  by (induction t h rule: acquire.induct) (auto simp: lock_ok_def split: if_splits)

lemma release_held:
  "lock_ok h \<Longrightarrow> 0 < held t h \<Longrightarrow>
     lock_ok (release h) \<and> held u (release h) = (if u = t then held u h - 1 else held u h)"
  by (induction h rule: release.induct) (auto simp: lock_ok_def split: if_splits)

lemma callback_inv_same:
  assumes "callback_inv s" and "callback_holder s' = callback_holder s"
    and "stacks s' = (stacks s)(t := fs)" and "depth fs = depth (stacks s t)"
  shows "callback_inv s'"
  using assms by (simp add: callback_inv_def)

lemma callback_inv_top:
  assumes "callback_inv s" and "stacks s t = f # fs" and "stacks s' = (stacks s)(t := gs @ fs)"
    and "callback_holder s' = callback_holder s" and "depth (gs @ fs) = depth (f # fs)"
  shows "callback_inv s'"
  by (rule callback_inv_same [OF assms(1,4,3)]) (use assms(2,5) in simp)

lemma callback_inv_leave:
  assumes "callback_inv s" and "callback_holder s' = release (callback_holder s)"
    and "stacks s' = (stacks s)(t := fs)" and "depth (stacks s t) = Suc (depth fs)"
  shows "callback_inv s'"
proof -
  have held: "held t (callback_holder s) = Suc (depth fs)" and ok: "lock_ok (callback_holder s)"
    using assms(1,4) by (simp_all add: callback_inv_def)
  show ?thesis
    using assms(1) held release_held [OF ok, of t] by (simp add: callback_inv_def assms(2,3))
qed

lemma callback_inv_enter:
  assumes "callback_inv s" and "acquire t (callback_holder s) = Some (callback_holder s')"
    and "stacks s' = (stacks s)(t := fs)" and "depth fs = Suc (depth (stacks s t))"
  shows "callback_inv s'"
  using assms(1) acquire_held [OF assms(2)] by (simp add: callback_inv_def assms(3,4))

lemma leave_holder [simp]:
  "ser \<Longrightarrow> callback_holder (leave_callbacks ser s) = release (callback_holder s)"
  by (simp add: leave_callbacks_def)

lemma logging_step_callbacks:
  "logging_step accepts ser t s s' \<Longrightarrow> ser \<Longrightarrow> callback_inv s \<Longrightarrow> callback_inv s'"
proof (induction rule: logging_step.induct)
  case (enters_serialized s e n sel fs holder)
  show ?case
    by (rule callback_inv_enter [OF enters_serialized(5), where t = t and fs = "Calling e n sel [] # fs"])
      (use enters_serialized(1,3) in simp_all)
next
  case (writes s e)
  show ?case by (rule callback_inv_same [OF writes(4), where t = t and fs = "Probing e (length (commits s)) # stacks s t"]) simp_all
next
  case (registers_in_vain s c)
  then show ?case by (simp add: callback_inv_def)
next
  case (changes_slots s c slots)
  show ?case
    by (rule callback_inv_same [OF changes_slots(5), where t = t and fs = "Refreshing c # stacks s t"]) simp_all
next
  case (sink_throws s e n sel ans x fs r)
  show ?case
    by (rule callback_inv_leave [OF sink_throws(5), where t = t and fs = fs]) (use sink_throws(1,4) in simp_all)
next
  case (write_returns s e n sel ans fs)
  show ?case
    by (rule callback_inv_leave [OF write_returns(4), where t = t and fs = fs])
      (use write_returns(1,3) in simp_all)
next
  case (probes s e n fs x)
  show ?case by (rule callback_inv_top [OF probes(4,1), where gs = "[Entering e n [x]]"]) simp_all
next
  case (misses s e n fs)
  show ?case by (rule callback_inv_top [OF misses(4,1), where gs = "[Locating e n]"]) simp_all
next
  case (finds_none s e n fs)
  show ?case by (rule callback_inv_top [OF finds_none(5,1), where gs = "[]"]) simp_all
next
  case (selects s e n fs)
  show ?case
    by (rule callback_inv_top [OF selects(5,1), where gs = "[Entering e n (attached (registry s))]"]) simp_all
next
  case (enters_parallel s e n sel fs)
  then show ?case by simp
next
  case (calls_sink s e n sel ans fs)
  show ?case
    by (rule callback_inv_top [OF calls_sink(4,1), where gs = "[In_sink e n sel ans (sel ! length ans)]"]) simp_all
next
  case (sink_answers s e n sel ans x fs b)
  show ?case
    by (rule callback_inv_top [OF sink_answers(3,1), where gs = "[Calling e n sel (ans @ [(x, b)])]"]) simp_all
next
  case (refreshes s c fs)
  show ?case by (rule callback_inv_top [OF refreshes(3,1), where gs = "[]"]) simp_all
qed

lemma logging_reach_callbacks: "logging_reach accepts True ss s \<Longrightarrow> callback_inv s"
proof (induction rule: logging_reach.induct)
  case fresh_logger
  then show ?case by (simp add: callback_inv_def lock_ok_def logging_start_def)
next
  case (logs s t s')
  then show ?case using logging_step_callbacks by blast
qed


section \<open>Calls return\<close>

text \<open>A run in which no thread starts a further call: the stacks never grow.\<close>

definition settles :: "policy \<Rightarrow> bool \<Rightarrow> logging \<Rightarrow> logging \<Rightarrow> bool" where
  "settles accepts ser = (\<lambda>s s'. \<exists>t. logging_step accepts ser t s s' \<and>
     length (stacks s' t) \<le> length (stacks s t))\<^sup>*\<^sup>*"

lemma settles_refl: "settles accepts ser s s"
  by (simp add: settles_def)

lemma settles_trans:
  "settles accepts ser s s' \<Longrightarrow> settles accepts ser s' s'' \<Longrightarrow> settles accepts ser s s''"
  unfolding settles_def by (rule rtranclp_trans)

lemma settles_step:
  "logging_step accepts ser t s s' \<Longrightarrow> length (stacks s' t) \<le> length (stacks s t) \<Longrightarrow>
     settles accepts ser s s'"
  unfolding settles_def by (blast intro: r_into_rtranclp)

lemma settles_reach:
  "settles accepts ser s s' \<Longrightarrow> logging_reach accepts ser ss s \<Longrightarrow> logging_reach accepts ser ss s'"
  unfolding settles_def by (induction rule: rtranclp_induct) (auto intro: logging_reach.logs)

text \<open>The mutexes do not keep thread \<open>t\<close> from moving.\<close>

definition free_for :: "bool \<Rightarrow> nat \<Rightarrow> logging \<Rightarrow> bool" where
  "free_for ser t s \<longleftrightarrow> registry_holder s = None \<and> (ser \<longrightarrow> acquire t (callback_holder s) \<noteq> None)"

definition pops :: "policy \<Rightarrow> bool \<Rightarrow> nat \<Rightarrow> frame list \<Rightarrow> logging \<Rightarrow> bool" where
  "pops accepts ser t fs s \<longleftrightarrow> (\<exists>s'. settles accepts ser s s' \<and> stacks s' = (stacks s)(t := fs) \<and>
     free_for ser t s')"

lemma pops_after:
  assumes "logging_step accepts ser t s s1" and "stacks s1 = (stacks s)(t := gs)"
    and "length gs \<le> length (stacks s t)" and "pops accepts ser t fs s1"
  shows "pops accepts ser t fs s"
proof -
  obtain s' where s': "settles accepts ser s1 s'" "stacks s' = (stacks s1)(t := fs)" "free_for ser t s'"
    using assms(4) by (auto simp: pops_def)
  have "settles accepts ser s s1" by (rule settles_step [OF assms(1)]) (use assms(2,3) in simp)
  then show ?thesis using s' settles_trans assms(2) unfolding pops_def by fastforce
qed

lemma pops_last:
  assumes "logging_step accepts ser t s s'" and "stacks s' = (stacks s)(t := fs)"
    and "length fs \<le> length (stacks s t)" and "free_for ser t s'"
  shows "pops accepts ser t fs s"
  using settles_step [OF assms(1)] assms(2-4) by (auto simp: pops_def)

lemma acquire_release: "acquire t h \<noteq> None \<Longrightarrow> acquire t (release h) \<noteq> None"
  by (induction h rule: release.induct) (auto split: if_splits)

lemma acquire_again: "acquire t h = Some h' \<Longrightarrow> acquire t h' \<noteq> None"
  by (induction t h rule: acquire.induct) (auto split: if_splits)

lemma free_leave: "free_for ser t s \<Longrightarrow> free_for ser t (leave_callbacks ser s)"
  using acquire_release by (auto simp: free_for_def leave_callbacks_def)

lemma calling_pops:
  assumes "stacks s t = Calling e n sel ans # fs" and "length ans \<le> length sel" and "free_for ser t s"
  shows "pops accepts ser t fs s"
  using assms
proof (induction "length sel - length ans" arbitrary: s ans)
  case 0
  then have all: "length ans = length sel" by simp
  show ?case
    by (rule pops_last [OF write_returns [OF 0(2) all]]) (use 0 free_leave in \<open>auto simp: free_for_def\<close>)
next
  case (Suc k)
  then have less: "length ans < length sel" by simp
  let ?s1 = "with_stack t (In_sink e n sel ans (sel ! length ans) # fs) s"
  let ?s2 = "with_stack t (Calling e n sel (ans @ [(sel ! length ans, True)]) # fs) ?s1"
  have top: "stacks ?s1 t = In_sink e n sel ans (sel ! length ans) # fs" by simp
  have "pops accepts ser t fs ?s2"
    by (rule Suc(1)) (use Suc(2,3,5) less in \<open>auto simp: free_for_def\<close>)
  then have "pops accepts ser t fs ?s1"
    by (rule pops_after [OF sink_answers [OF top], where gs = "Calling e n sel (ans @ [(sel ! length ans, True)]) # fs",
          rotated 2]) simp_all
  then show ?case
    by (rule pops_after [OF calls_sink [OF Suc(3) less],
          where gs = "In_sink e n sel ans (sel ! length ans) # fs", rotated 2]) (use Suc(3) in simp_all)
qed

lemma entering_pops:
  assumes "stacks s t = Entering e n sel # fs" and "free_for ser t s"
  shows "pops accepts ser t fs s"
proof (cases ser)
  case True
  then obtain h where h: "acquire t (callback_holder s) = Some h" using assms(2) by (auto simp: free_for_def)
  show ?thesis
  proof (rule pops_after [OF enters_serialized [OF assms(1) True h], where gs = "Calling e n sel [] # fs"])
    show "pops accepts ser t fs (with_stack t (Calling e n sel [] # fs) (s\<lparr>callback_holder := h\<rparr>))"
      by (rule calling_pops) (use assms(2) acquire_again [OF h] in \<open>auto simp: free_for_def\<close>)
  qed (use assms(1) in simp_all)
next
  case False
  show ?thesis
  proof (rule pops_after [OF enters_parallel [OF assms(1) False], where gs = "Calling e n sel [] # fs"])
    show "pops accepts ser t fs (with_stack t (Calling e n sel [] # fs) s)"
      by (rule calling_pops) (use assms(2) in \<open>auto simp: free_for_def\<close>)
  qed (use assms(1) in simp_all)
qed

lemma locating_pops:
  assumes "stacks s t = Locating e n # fs" and "free_for ser t s"
  shows "pops accepts ser t fs s"
proof -
  have free: "registry_holder s = None" using assms(2) by (simp add: free_for_def)
  show ?thesis
  proof (cases "sinks (registry s) = []")
    case True
    show ?thesis
      by (rule pops_last [OF finds_none [OF assms(1) free True]]) (use assms in \<open>auto simp: free_for_def\<close>)
  next
    case False
    show ?thesis
    proof (rule pops_after [OF selects [OF assms(1) free False],
          where gs = "Entering e n (attached (registry s)) # fs"])
      show "pops accepts ser t fs (with_stack t (Entering e n (attached (registry s)) # fs)
          (s\<lparr>commits := commits s @ [(Select_sinks, Selected (attached (registry s)))]\<rparr>))"
        by (rule entering_pops) (use assms(2) in \<open>auto simp: free_for_def\<close>)
    qed (use assms(1) in simp_all)
  qed
qed

lemma probing_pops:
  assumes "stacks s t = Probing e n # fs" and "free_for ser t s"
  shows "pops accepts ser t fs s"
proof (cases "single_non_owning_sink (registry s)")
  case None
  show ?thesis
  proof (rule pops_after [OF misses [OF assms(1) None], where gs = "Locating e n # fs"])
    show "pops accepts ser t fs (with_stack t (Locating e n # fs) s)"
      by (rule locating_pops) (use assms(2) in \<open>auto simp: free_for_def\<close>)
  qed (use assms(1) in simp_all)
next
  case (Some x)
  show ?thesis
  proof (rule pops_after [OF probes [OF assms(1) Some], where gs = "Entering e n [x] # fs"])
    show "pops accepts ser t fs (with_stack t (Entering e n [x] # fs)
        (s\<lparr>commits := commits s @ [(Select_sinks, Selected [x])]\<rparr>))"
      by (rule entering_pops) (use assms(2) in \<open>auto simp: free_for_def\<close>)
  qed (use assms(1) in simp_all)
qed

lemma in_sink_pops:
  assumes "stacks s t = In_sink e n sel ans x # fs" and "length ans < length sel" and "free_for ser t s"
  shows "pops accepts ser t fs s"
proof (rule pops_after [OF sink_answers [OF assms(1)], where gs = "Calling e n sel (ans @ [(x, True)]) # fs"])
  show "pops accepts ser t fs (with_stack t (Calling e n sel (ans @ [(x, True)]) # fs) s)"
    by (rule calling_pops) (use assms(2,3) in \<open>auto simp: free_for_def\<close>)
qed (use assms(1) in simp_all)

lemma frame_pops:
  assumes "logging_reach accepts ser ss s" and "stacks s t = f # fs" and "free_for ser t s"
  shows "pops accepts ser t fs s"
proof -
  have fine: "frame_ok (commits s) f" and inv: "registry_inv s"
    using logging_reach_inv [OF assms(1)] writes_invD(1) [OF _ assms(2)] by simp_all
  show ?thesis
  proof (cases f)
    case (Refreshing c)
    then have "Refreshing c \<in> set (stacks s t)" using assms(2) by simp
    then have "registry_holder s = Some t" using inv unfolding registry_inv_def by blast
    then show ?thesis using assms(3) by (simp add: free_for_def)
  qed (use fine assms(2,3) probing_pops locating_pops entering_pops calling_pops in_sink_pops in \<open>auto\<close>)
qed

lemma thread_returns:
  assumes "logging_reach accepts ser ss s" and "free_for ser t s"
  shows "pops accepts ser t [] s"
  using assms
proof (induction "stacks s t" arbitrary: s)
  case Nil
  then show ?case using settles_refl by (fastforce simp: pops_def)
next
  case (Cons f fs)
  obtain s1 where s1: "settles accepts ser s s1" "stacks s1 = (stacks s)(t := fs)" "free_for ser t s1"
    using frame_pops [OF Cons(3) Cons(2) [symmetric] Cons(4)] by (auto simp: pops_def)
  have "pops accepts ser t [] s1"
    by (rule Cons(1)) (use s1 settles_reach [OF s1(1) Cons(3)] in simp_all)
  then show ?case using s1 settles_trans by (fastforce simp: pops_def)
qed


text \<open>Nobody holds a mutex.\<close>

definition unlocked :: "bool \<Rightarrow> logging \<Rightarrow> bool" where
  "unlocked ser s \<longleftrightarrow> registry_holder s = None \<and> (ser \<longrightarrow> callback_holder s = None)"

lemma thread_unlocks:
  assumes "logging_reach accepts ser ss s" and "free_for ser t s"
  shows "\<exists>s'. settles accepts ser s s' \<and> stacks s' = (stacks s)(t := []) \<and> unlocked ser s'"
proof -
  obtain s' where s': "settles accepts ser s s'" "stacks s' = (stacks s)(t := [])" "free_for ser t s'"
    using thread_returns [OF assms] by (auto simp: pops_def)
  have "callback_holder s' = None" if "ser"
  proof -
    have inv: "callback_inv s'"
      using logging_reach_callbacks [of accepts ss] settles_reach [OF s'(1) assms(1)] that by simp
    moreover have "held t (callback_holder s') = 0" using inv s'(2) by (metis callback_inv_def depth_simps(1) fun_upd_same)
    ultimately show ?thesis
      using s'(3) that by (cases "callback_holder s'") (auto simp: free_for_def callback_inv_def lock_ok_def split: if_splits)
  qed
  then show ?thesis using s' by (auto simp: unlocked_def free_for_def)
qed

lemma unlocked_free: "unlocked ser s \<Longrightarrow> free_for ser t s"
  by (auto simp: unlocked_def free_for_def)

lemma threads_return:
  assumes "finite A" and "logging_reach accepts ser ss s" and "unlocked ser s"
  shows "\<exists>s'. settles accepts ser s s' \<and> (\<forall>t. stacks s' t = (if t \<in> A then [] else stacks s t)) \<and>
           unlocked ser s'"
  using assms
proof (induction A arbitrary: s)
  case empty
  then show ?case using settles_refl by fastforce
next
  case (insert a A)
  obtain s1 where s1: "settles accepts ser s s1" "stacks s1 = (stacks s)(a := [])" "unlocked ser s1"
    using thread_unlocks [OF insert(4) unlocked_free [OF insert(5)], of a] by blast
  obtain s2 where s2: "settles accepts ser s1 s2" "unlocked ser s2"
      "\<forall>t. stacks s2 t = (if t \<in> A then [] else stacks s1 t)"
    using insert(3) [OF settles_reach [OF s1(1) insert(4)] s1(3)] by blast
  have "\<forall>t. stacks s2 t = (if t \<in> insert a A then [] else stacks s t)"
    by (simp add: s2(3) s1(2))
  then show ?case using settles_trans [OF s1(1) s2(1)] s2(2) by blast
qed

text \<open>Whoever holds a mutex can give it back.\<close>

lemma registry_unlocks:
  assumes "logging_reach accepts ser ss s"
  shows "\<exists>s'. settles accepts ser s s' \<and> registry_holder s' = None"
proof (cases "registry_holder s")
  case None
  then show ?thesis using settles_refl by blast
next
  case (Some t)
  then obtain c fs where top: "stacks s t = Refreshing c # fs"
    using logging_reach_inv [OF assms] unfolding registry_inv_def by blast
  show ?thesis
    by (intro exI conjI, rule settles_step [OF refreshes [OF top]]) (use top in simp_all)
qed

lemma mutexes_unlock:
  assumes "logging_reach accepts ser ss s"
  shows "\<exists>s'. settles accepts ser s s' \<and> unlocked ser s'"
proof -
  obtain s1 where s1: "settles accepts ser s s1" "registry_holder s1 = None"
    using registry_unlocks [OF assms] by blast
  obtain t where "free_for ser t s1"
    using s1(2) by (cases "callback_holder s1") (fastforce simp: free_for_def)+
  then obtain s2 where "settles accepts ser s1 s2" "unlocked ser s2"
    using thread_unlocks [OF settles_reach [OF s1(1) assms]] by blast
  then show ?thesis using settles_trans [OF s1(1)] by blast
qed

lemma logging_step_stacks: "logging_step accepts ser t s s' \<Longrightarrow> \<exists>fs. stacks s' = (stacks s)(t := fs)"
proof (induction rule: logging_step.induct)
  case (registers_in_vain s c)
  show ?case by (rule exI [of _ "stacks s t"]) simp
qed auto

lemma finitely_many_active: "logging_reach accepts ser ss s \<Longrightarrow> finite {t. stacks s t \<noteq> []}"
proof (induction rule: logging_reach.induct)
  case fresh_logger
  then show ?case by (simp add: logging_start_def)
next
  case (logs s t s')
  then obtain fs where "stacks s' = (stacks s)(t := fs)" using logging_step_stacks by blast
  then have "{u. stacks s' u \<noteq> []} \<subseteq> insert t {u. stacks s u \<noteq> []}" by auto
  then show ?case using logs(3) by (meson finite_insert finite_subset)
qed

lemma calls_return:
  assumes "logging_reach accepts ser ss s"
  shows "\<exists>s'. settles accepts ser s s' \<and> (\<forall>t. stacks s' t = [])"
proof -
  obtain s1 where s1: "settles accepts ser s s1" "unlocked ser s1" using mutexes_unlock [OF assms] by blast
  have reach: "logging_reach accepts ser ss s1" by (rule settles_reach [OF s1(1) assms])
  obtain s2 where "settles accepts ser s1 s2"
      "\<forall>t. stacks s2 t = (if t \<in> {u. stacks s1 u \<noteq> []} then [] else stacks s1 t)"
    using threads_return [OF finitely_many_active [OF reach] reach s1(2)] by blast
  then have "settles accepts ser s1 s2" "stacks s2 t = []" for t by (simp_all split: if_splits)
  then show ?thesis using settles_trans [OF s1(1)] by blast
qed


section \<open>Schedules\<close>

text \<open>Moves name the choices that \<open>logging_step\<close> leaves open; \<open>fire\<close> computes the step.\<close>

datatype move = Call_write LogEntry | Call_register registration | Advance | Answer bool

fun advance :: "bool \<Rightarrow> nat \<Rightarrow> frame list \<Rightarrow> logging \<Rightarrow> logging option" where
  "advance ser t (Probing e n # fs) s =
     (case single_non_owning_sink (registry s) of
        Some x \<Rightarrow> Some (with_stack t (Entering e n [x] # fs)
          (s\<lparr>commits := commits s @ [(Select_sinks, Selected [x])]\<rparr>))
      | None \<Rightarrow> Some (with_stack t (Locating e n # fs) s))"
| "advance ser t (Locating e n # fs) s =
     (if registry_holder s \<noteq> None then None
      else if sinks (registry s) = [] then
        Some (with_stack t fs (s\<lparr>commits := commits s @ [(Select_sinks, Selected [])],
          ended := ended s @ [Write_end e n (Suc (length (commits s))) [] [] (Returned False)]\<rparr>))
      else Some (with_stack t (Entering e n (attached (registry s)) # fs)
        (s\<lparr>commits := commits s @ [(Select_sinks, Selected (attached (registry s)))]\<rparr>)))"
| "advance ser t (Entering e n sel # fs) s =
     (if ser then map_option (\<lambda>h. with_stack t (Calling e n sel [] # fs) (s\<lparr>callback_holder := h\<rparr>))
        (acquire t (callback_holder s))
      else Some (with_stack t (Calling e n sel [] # fs) s))"
| "advance ser t (Calling e n sel ans # fs) s =
     (if length ans < length sel then Some (with_stack t (In_sink e n sel ans (sel ! length ans) # fs) s)
      else if length ans = length sel then Some (with_stack t fs (leave_callbacks ser
        (s\<lparr>ended := ended s @ [Write_end e n (length (commits s)) sel ans (Returned (\<forall>a \<in> set ans. snd a))]\<rparr>)))
      else None)"
| "advance ser t (Refreshing c # fs) s =
     Some (with_stack t fs (s\<lparr>registry := refresh_single_sink_fast_path (registry s), registry_holder := None,
        published := attached (registry s), commits := commits s @ [(Register_sink c, Registered True)]\<rparr>))"
| "advance ser t _ s = None"

fun fire :: "policy \<Rightarrow> bool \<Rightarrow> nat \<Rightarrow> move \<Rightarrow> logging \<Rightarrow> logging option" where
  "fire accepts ser t (Call_write e) s =
     (if may_call (stacks s t) \<and> accepts (level e)
      then Some (with_stack t (Probing e (length (commits s)) # stacks s t) s) else None)"
| "fire accepts ser t (Call_register c) s =
     (if may_call (stacks s t) \<and> registry_holder s = None then
        (case change_slots c (sinks (registry s)) of (changed, slots) \<Rightarrow>
           if changed then Some (with_stack t (Refreshing c # stacks s t)
             (s\<lparr>registry := (registry s)\<lparr>sinks := slots\<rparr>, registry_holder := Some t\<rparr>))
           else Some (s\<lparr>commits := commits s @ [(Register_sink c, Registered False)]\<rparr>))
      else None)"
| "fire accepts ser t Advance s = advance ser t (stacks s t) s"
| "fire accepts ser t (Answer b) s =
     (case stacks s t of
        In_sink e n sel ans x # fs \<Rightarrow> Some (with_stack t (Calling e n sel (ans @ [(x, b)]) # fs) s)
      | _ \<Rightarrow> None)"

lemma advance_step:
  "advance ser t gs s = Some s' \<Longrightarrow> stacks s t = gs \<Longrightarrow> logging_step accepts ser t s s'"
proof (induction ser t gs s rule: advance.induct)
  case (1 ser t e n fs s)
  then show ?case
    by (cases "single_non_owning_sink (registry s)")
      (auto intro: probes [simplified] misses [simplified])
next
  case (2 ser t e n fs s)
  then show ?case by (auto intro: finds_none [simplified] selects [simplified] split: if_splits)
next
  case (3 ser t e n sel fs s)
  then show ?case
    by (auto intro: enters_serialized [simplified] enters_parallel [simplified] split: if_splits)
next
  case (4 ser t e n sel ans fs s)
  then show ?case by (auto intro: calls_sink [simplified] write_returns [simplified] split: if_splits)
next
  case (5 ser t c fs s)
  then show ?case by (auto intro: refreshes [simplified])
qed simp_all

lemma fire_step: "fire accepts ser t m s = Some s' \<Longrightarrow> logging_step accepts ser t s s'"
proof (cases m)
  case (Call_register c)
  assume "fire accepts ser t m s = Some s'"
  with Call_register show ?thesis
    by (cases "change_slots c (sinks (registry s))")
      (auto intro: changes_slots [simplified] registers_in_vain [simplified] split: if_splits)
qed (auto intro: writes [simplified] sink_answers [simplified] advance_step
      split: if_splits list.splits frame.splits)

fun schedule :: "policy \<Rightarrow> bool \<Rightarrow> (nat \<times> move) list \<Rightarrow> logging \<Rightarrow> logging option" where
  "schedule accepts ser [] s = Some s"
| "schedule accepts ser ((t, m) # ms) s =
     (case fire accepts ser t m s of Some s' \<Rightarrow> schedule accepts ser ms s' | None \<Rightarrow> None)"

lemma schedule_reach:
  "schedule accepts ser ms s = Some s' \<Longrightarrow> logging_reach accepts ser ss s \<Longrightarrow> logging_reach accepts ser ss s'"
proof (induction accepts ser ms s rule: schedule.induct)
  case (2 accepts ser t m ms s)
  then show ?case using fire_step logging_reach.logs by (fastforce split: option.splits)
qed simp

lemma logging_schedule:
  assumes "case schedule accepts ser ms (logging_start ss) of Some s \<Rightarrow> P s | None \<Rightarrow> False"
  shows "\<exists>s. logging_reach accepts ser ss s \<and> P s"
  using assms schedule_reach logging_reach.fresh_logger by (fastforce split: option.splits)


section \<open>Properties\<close>

text \<open>The witnesses run this schedule: the sink of thread 0's write attaches a second sink from within
  its callback, and thread 1 writes to both of them.\<close>

definition network_entry :: LogEntry where
  "network_entry = \<lparr>timestamp = 0, thread_id = 0, level = ERROR, error = make_Error NETWORK 7 ''io''\<rparr>"

definition reentrant_schedule :: "(nat \<times> move) list" where
  "reentrant_schedule = [(0, Call_write network_entry), (0, Advance), (0, Advance), (0, Advance),
     (0, Call_register (Attach 2)), (1, Call_write network_entry), (0, Advance), (0, Answer True),
     (0, Advance), (1, Advance), (1, Advance), (1, Advance), (1, Advance)]"

lemma reentrant_run:
  "\<exists>s. logging_reach AcceptAllPolicy True [1] s \<and> ended s = [Write_end network_entry 0 2 [1] [(1, True)] (Returned True)] \<and>
     hd (stacks s 1) = In_sink network_entry 1 [1, 2] [] 1"
  by (rule logging_schedule [where ms = reentrant_schedule]) code_simp

text \<open>
  C11. The synchronous logger linearises: in every reachable state of its concurrent use, with either
  dispatch and with callbacks that call the logger again, the registrations and the selections of the
  writes, taken in the order of their commits, are a sequential run on a list of distinct sinks; every
  ended write selected its sinks by a commit between its call and its return, called them once each in
  their order, and when no callback threw answered with the conjunction of their answers, or with
  false when there was no sink. When no call is in progress the logger holds the published list.
\<close>

theorem concurrent_logger_linearizes:
  assumes "logging_reach accepts ser ss s"
  shows "run_calls commit_step (map fst (commits s)) (fold (\<lambda>x xs. snd (insert_last x xs)) ss []) =
      (map snd (commits s), published s) \<and> distinct (published s) \<and>
    (\<forall>e n m sel ans r. Write_end e n m sel ans r \<in> set (ended s) \<longrightarrow>
      (\<exists>k. n \<le> k \<and> k < m \<and> m \<le> length (commits s) \<and> commits s ! k = (Select_sinks, Selected sel)) \<and>
      map fst ans = take (length ans) sel \<and>
      (\<forall>b. r = Returned b \<longrightarrow> map fst ans = sel \<and> b = (sel \<noteq> [] \<and> (\<forall>a \<in> set ans. snd a)))) \<and>
    ((\<forall>t. stacks s t = []) \<longrightarrow> attached (registry s) = published s)"
proof (intro conjI allI impI)
  note inv = logging_reach_inv [OF assms]
  show "run_calls commit_step (map fst (commits s)) (fold (\<lambda>x xs. snd (insert_last x xs)) ss []) =
      (map snd (commits s), published s)"
    using inv by (simp add: commits_inv_def attached_new)
  show "distinct (published s)" using inv by (simp add: registry_inv_def)
  show "attached (registry s) = published s" if "\<forall>t. stacks s t = []"
    using inv that by (cases "registry_holder s") (auto simp: registry_inv_def)
  fix e n m sel ans r
  assume "Write_end e n m sel ans r \<in> set (ended s)"
  then have fine: "end_ok (commits s) (Write_end e n m sel ans r)" using inv unfolding writes_inv_def by blast
  show "\<exists>k. n \<le> k \<and> k < m \<and> m \<le> length (commits s) \<and> commits s ! k = (Select_sinks, Selected sel)"
    using fine by (simp add: selected_between_def)
  show "map fst ans = take (length ans) sel" using fine by simp
  fix b
  assume "r = Returned b"
  then show "map fst ans = sel" and "b = (sel \<noteq> [] \<and> (\<forall>a \<in> set ans. snd a))"
    using end_ok_returned fine by blast+
qed

theorem concurrent_logger_linearizes_witness:
  "\<exists>s. logging_reach AcceptAllPolicy True [1] s \<and>
     Write_end network_entry 0 2 [1] [(1, True)] (Returned True) \<in> set (ended s) \<and>
     run_calls commit_step (map fst (commits s)) [1] = (map snd (commits s), published s)"
proof -
  obtain s where s: "logging_reach AcceptAllPolicy True [1] s"
      "ended s = [Write_end network_entry 0 2 [1] [(1, True)] (Returned True)]"
    using reentrant_run by blast
  then show ?thesis using concurrent_logger_linearizes [OF s(1)] by (auto simp: insert_last_def)
qed

text \<open>
  C12. Serialized dispatch excludes and does not block for ever: at most one thread is in the sinks of
  the logger, however deep its callbacks nest, and from every reachable state, with either dispatch,
  all calls in progress can return without a further call being made: no state is a deadlock.
\<close>

theorem serialized_callbacks_exclude_and_return:
  assumes "logging_reach accepts ser ss s"
  shows "(ser \<and> In_sink e n sel ans x \<in> set (stacks s t) \<and> In_sink e' n' sel' ans' x' \<in> set (stacks s u) \<longrightarrow> t = u) \<and>
    (\<exists>s'. settles accepts ser s s' \<and> (\<forall>v. stacks s' v = []))"
proof (intro conjI impI)
  assume both: "ser \<and> In_sink e n sel ans x \<in> set (stacks s t) \<and> In_sink e' n' sel' ans' x' \<in> set (stacks s u)"
  then have "callback_inv s" using logging_reach_callbacks [of accepts ss s] assms by simp
  then have "0 < held t (callback_holder s)" "0 < held u (callback_holder s)"
    using both depth_pos [of _ "stacks s t"] depth_pos [of _ "stacks s u"]
    unfolding callback_inv_def by (metis holds_callbacks.simps(2))+
  then show "t = u" by (cases "callback_holder s") (auto split: if_splits)
qed (rule calls_return [OF assms])

theorem serialized_callbacks_exclude_and_return_witness:
  "\<exists>s. logging_reach AcceptAllPolicy True [1] s \<and> hd (stacks s 1) = In_sink network_entry 1 [1, 2] [] 1 \<and>
     (\<exists>s'. settles AcceptAllPolicy True s s' \<and> (\<forall>v. stacks s' v = []))"
  using reentrant_run serialized_callbacks_exclude_and_return by metis

end
