(* ===== verification/Async_System.thy ===== *)
theory Async_System
  imports Concurrent_Routing Pool_Theorems
begin

text \<open>
  The asynchronous \<open>ErrorSystem\<close> of \<open>include/vosp/error.hpp\<close>: every operation is a job submitted to
  a caller-provided executor, and the job routes the error through a \<open>ConcurrentHandler\<close>. The
  executor is an interface with the laws a caller relies on; \<open>IndustrialWorkerPool\<close> meets them. A
  job is not atomic: each thread of the executor walks through the handler by the steps of theory
  \<open>Concurrent_Routing\<close>, interleaved with the other threads, the submitters and the executor itself.
\<close>

section \<open>Submission\<close>

text \<open>What the submitted closure captures (the handler it captures is the system's).\<close>

record async_job =
  job_error :: Error
  job_remove :: bool

record AsyncErrorSystem =
  async_handler :: BasicHandler

definition AsyncErrorSystem_new :: "addr list \<Rightarrow> AsyncErrorSystem" where
  "AsyncErrorSystem_new as = \<lparr>async_handler = ConcurrentHandler as\<rparr>"

definition async_submit :: "(async_job \<Rightarrow> 'x \<Rightarrow> 'r) \<Rightarrow> Error \<Rightarrow> bool \<Rightarrow> 'x \<Rightarrow> 'r" where
  "async_submit executor_submit e remove_error x =
     executor_submit \<lparr>job_error = e, job_remove = remove_error\<rparr> x"

definition async_add :: "(async_job \<Rightarrow> 'x \<Rightarrow> 'r) \<Rightarrow> Error \<Rightarrow> 'x \<Rightarrow> 'r" where
  "async_add executor_submit e x = async_submit executor_submit e False x"

definition async_remove :: "(async_job \<Rightarrow> 'x \<Rightarrow> 'r) \<Rightarrow> Error \<Rightarrow> 'x \<Rightarrow> 'r" where
  "async_remove executor_submit e x = async_submit executor_submit e True x"

text \<open>Running the closure: a thread enters \<open>remove\<close> or \<open>add\<close> of the captured handler.\<close>

definition job_operation :: "async_job \<Rightarrow> Operation" where
  "job_operation job = (if job_remove job then Op_remove else Op_add)"

definition closure_begins :: "async_job \<Rightarrow> nat \<Rightarrow> 'r routing \<Rightarrow> 'r routing" where
  "closure_begins job w r = goto w (Scanning (job_operation job) (job_error job) 0) r"

text \<open>The calls that jobs and commits stand for.\<close>

definition job_call :: "async_job \<Rightarrow> system_call" where
  "job_call job = (if job_remove job then System_remove (job_error job) else System_add (job_error job))"

fun operation_call :: "Operation \<Rightarrow> Error \<Rightarrow> system_call" where
  "operation_call Op_add e = System_add e"
| "operation_call Op_remove e = System_remove e"

abbreviation commit_call :: "commit \<Rightarrow> system_call" where
  "commit_call c \<equiv> operation_call (operation c) (operand c)"

lemma job_call_operation: "operation_call (job_operation job) (job_error job) = job_call job"
  by (simp add: job_operation_def job_call_def)

lemma system_step_operation:
  "system_step vt (System_new p as) (operation_call op e) = dispatch vt op as e"
  by (cases op) (simp_all add: fun_eq_iff system_add_def handler_add_def system_remove_def handler_remove_def)

lemma run_calls_map: "run_calls step (map f cs) s = run_calls (\<lambda>c. step (f c)) cs s"
  by (induction cs arbitrary: s) (simp_all split: prod.splits)

section \<open>Threads of an executor inside the handler\<close>

text \<open>
  An executor is a transition system: \<open>current x w\<close> is the job that thread \<open>w\<close> has to run next,
  \<open>settles x w out y\<close> ends that job with outcome \<open>out\<close>, and \<open>quiet x y\<close> is any other step of the
  executor or of a submitter. The closure begins on the thread that has the job, the
  thread then takes its own steps in the handler, and its result is what settles the job.
\<close>

type_synonym 'j run_log = "('j \<times> nat option \<times> outcome) list"

inductive serves :: "('x \<Rightarrow> 'x \<Rightarrow> bool) \<Rightarrow> ('x \<Rightarrow> nat \<Rightarrow> async_job option) \<Rightarrow>
    ('x \<Rightarrow> nat \<Rightarrow> outcome \<Rightarrow> 'x \<Rightarrow> bool) \<Rightarrow> 'r IRegister \<Rightarrow> AsyncErrorSystem \<Rightarrow>
    'x \<Rightarrow> 'r heap \<Rightarrow> 'x \<Rightarrow> 'r routing \<Rightarrow> bool"
  for quiet current settles vt sys x0 h0 where
  begins: "serves quiet current settles vt sys x0 h0 x0 (routing_start h0)"
| proceeds: "serves quiet current settles vt sys x0 h0 x r \<Longrightarrow> quiet x y \<Longrightarrow>
     serves quiet current settles vt sys x0 h0 y r"
| enters: "serves quiet current settles vt sys x0 h0 x r \<Longrightarrow> current x w = Some job \<Longrightarrow>
     phases r w = Idle \<Longrightarrow> serves quiet current settles vt sys x0 h0 x (closure_begins job w r)"
| works_inside: "serves quiet current settles vt sys x0 h0 x r \<Longrightarrow>
     routing_step vt (async_handler sys) r r' \<Longrightarrow> {w. phases r' w = Idle} = {w. phases r w = Idle} \<Longrightarrow>
     serves quiet current settles vt sys x0 h0 x r'"
| leaves: "serves quiet current settles vt sys x0 h0 x r \<Longrightarrow> phases r w = Done result \<Longrightarrow>
     settles x w (Finished result) y \<Longrightarrow>
     serves quiet current settles vt sys x0 h0 y (goto w Idle r)"

lemma serves_routing:
  "serves quiet current settles vt sys x0 h0 x r \<Longrightarrow> routing_reach vt (async_handler sys) h0 r"
proof (induction rule: serves.induct)
  case (enters x r w job)
  then show ?case unfolding closure_begins_def by (blast intro: routing_reach.step routing_step.begin_call)
next
  case (leaves x r w result y)
  then show ?case by (blast intro: routing_reach.step routing_step.finish)
qed (auto intro: routing_reach.intros)

section \<open>Which commits belong to which jobs\<close>

fun answer_of :: "'r phase \<Rightarrow> OperationResult option" where
  "answer_of (Written i res) = Some res"
| "answer_of (Done res) = Some res"
| "answer_of ph = None"

fun phase_job :: "async_job option \<Rightarrow> 'r phase \<Rightarrow> bool" where
  "phase_job cur Idle \<longleftrightarrow> True"
| "phase_job cur (Scanning op e i) \<longleftrightarrow> map_option (\<lambda>j. (job_operation j, job_error j)) cur = Some (op, e)"
| "phase_job cur (Selected op e i) \<longleftrightarrow> map_option (\<lambda>j. (job_operation j, job_error j)) cur = Some (op, e)"
| "phase_job cur (Reading op e i r) \<longleftrightarrow> map_option (\<lambda>j. (job_operation j, job_error j)) cur = Some (op, e)"
| "phase_job cur ph \<longleftrightarrow> cur \<noteq> None"

text \<open>The operations that have taken effect but whose job is not settled yet.\<close>

definition unsettled :: "(nat \<Rightarrow> async_job option) \<Rightarrow> 'r routing \<Rightarrow> nat \<Rightarrow> (system_call \<times> outcome) multiset" where
  "unsettled cur r w = (case answer_of (phases r w) of None \<Rightarrow> {#}
     | Some res \<Rightarrow> {#(job_call (the (cur w)), Finished res)#})"

definition committed :: "'r routing \<Rightarrow> (system_call \<times> outcome) multiset" where
  "committed r = mset (map (\<lambda>c. (commit_call c, Finished (reply c))) (commits r))"

lemma sum_change:
  fixes f g :: "nat \<Rightarrow> 'a multiset"
  assumes "w < n" and "\<And>v. v \<noteq> w \<Longrightarrow> g v = f v"
  shows "(\<Sum>v < n. g v) + f w = (\<Sum>v < n. f v) + g w"
proof -
  have "sum g ({..<n} - {w}) = sum f ({..<n} - {w})" by (intro sum.cong) (auto simp: assms(2))
  then show ?thesis using assms(1) by (simp add: sum.remove [of "{..<n}" w] ac_simps)
qed

lemma committed_simps [simp]:
  "committed (goto t p r) = committed r" "committed (lock hdl t i r) = committed r"
  "committed (unlock hdl i r) = committed r" "committed (r\<lparr>objects := h\<rparr>) = committed r"
  "committed (log_commit t op e res r) = committed r + {#(operation_call op e, Finished res)#}"
  by (simp_all add: committed_def routing_updates)

lemma unsettled_cong:
  assumes "phases r' w = phases r w" and "cur' w = cur w"
  shows "unsettled cur' r' w = unsettled cur r w"
  unfolding unsettled_def assms ..

lemma books_balance:
  fixes c c' :: "'a multiset"
  assumes "c' + u = c + u'" and "v' + u = v + u'" and "c = l + v"
  shows "c' = l + v'"
proof -
  have "c' + u = l + v' + u" using assms by (simp add: union_assoc) 
  then show ?thesis by simp
qed

lemma unsettled_job: "(\<And>job. cur w = Some job \<Longrightarrow> cur' w = Some job) \<Longrightarrow> phase_job (cur w) (phases r w) \<Longrightarrow>
    unsettled cur' r w = unsettled cur r w"
  by (cases "phases r w") (auto simp: unsettled_def)

lemma phase_job_mono:
  "(\<And>job. cur = Some job \<Longrightarrow> cur' = Some job) \<Longrightarrow> phase_job cur ph \<Longrightarrow> phase_job cur' ph"
  by (cases ph) auto

text \<open>A step inside the handler moves one thread, and commits at most the operation of its own job.\<close>

lemma inside_step:
  assumes "routing_step vt hdl r r'" and "{w. phases r' w = Idle} = {w. phases r w = Idle}"
    and "\<forall>w. phase_job (cur w) (phases r w)"
  shows "\<exists>w. phases r w \<noteq> Idle \<and> (\<forall>v. v \<noteq> w \<longrightarrow> phases r' v = phases r v) \<and> phase_job (cur w) (phases r' w) \<and>
    committed r' + unsettled cur r w = committed r + unsettled cur r' w"
  using assms(1)
proof cases
  case (begin_call t op e)
  then have "t \<in> {w. phases r w = Idle}" "t \<notin> {w. phases r' w = Idle}" by simp_all
  then show ?thesis unfolding assms(2) by blast
next
  case (finish t res)
  then have "t \<notin> {w. phases r w = Idle}" "t \<in> {w. phases r' w = Idle}" by simp_all
  then show ?thesis unfolding assms(2) by blast
next
  case (store t op e i r1 res r1')
  with assms(3) [rule_format, of t] obtain job where
    "cur t = Some job" "op = job_operation job" "e = job_error job" by auto
  with store show ?thesis by (intro exI [of _ t]) (simp add: unsettled_def job_call_operation)
next
  case (miss t op e i res)
  with assms(3) [rule_format, of t] obtain job where
    "cur t = Some job" "op = job_operation job" "e = job_error job" by auto
  with miss show ?thesis by (intro exI [of _ t]) (simp add: unsettled_def job_call_operation)
next
  case (skip t op e i)
  with assms(3) [rule_format, of t] show ?thesis by (intro exI [of _ t]) (simp add: unsettled_def)
next
  case (acquire t op e i)
  with assms(3) [rule_format, of t] show ?thesis by (intro exI [of _ t]) (simp add: unsettled_def)
next
  case (load t op e i)
  with assms(3) [rule_format, of t] show ?thesis by (intro exI [of _ t]) (simp add: unsettled_def)
next
  case (release t i res)
  with assms(3) [rule_format, of t] show ?thesis by (intro exI [of _ t]) (simp add: unsettled_def)
qed

section \<open>The executor interface\<close>

locale executor =
  fixes reached :: "'x \<Rightarrow> bool"
    and quiet :: "'x \<Rightarrow> 'x \<Rightarrow> bool"
    and current :: "'x \<Rightarrow> nat \<Rightarrow> async_job option"
    and settles :: "'x \<Rightarrow> nat \<Rightarrow> outcome \<Rightarrow> 'x \<Rightarrow> bool"
    and log :: "'x \<Rightarrow> async_job run_log"
    and future :: "'x \<Rightarrow> nat \<Rightarrow> future_state option"
    and threads :: nat
  assumes reached_quiet: "reached x \<Longrightarrow> quiet x y \<Longrightarrow> reached y"
    and reached_settles: "reached x \<Longrightarrow> settles x w out y \<Longrightarrow> reached y"
    and current_bound: "reached x \<Longrightarrow> current x w = Some job \<Longrightarrow> w < threads"
    and quiet_keeps: "quiet x y \<Longrightarrow> current x w = Some job \<Longrightarrow> current y w = Some job"
    and quiet_log: "quiet x y \<Longrightarrow> log y = log x"
    and settles_others: "settles x w out y \<Longrightarrow> v \<noteq> w \<Longrightarrow> current y v = current x v"
    and settles_log: "settles x w out y \<Longrightarrow>
      \<exists>job i. current x w = Some job \<and> log y = log x @ [(job, i, out)]"
    and future_log: "reached x \<Longrightarrow> (job, Some i, out) \<in> set (log x) \<Longrightarrow> future x i = Some (settled out)"
begin

definition books_agree :: "'x \<Rightarrow> 'r routing \<Rightarrow> bool" where
  "books_agree x r \<longleftrightarrow> reached x \<and> (\<forall>w. phase_job (current x w) (phases r w)) \<and>
     committed r = mset (map (\<lambda>(job, i, out). (job_call job, out)) (log x)) +
       (\<Sum>w < threads. unsettled (current x) r w)"

lemma books_agree_busy:
  "books_agree x r \<Longrightarrow> phases r w \<noteq> Idle \<Longrightarrow> w < threads \<and> current x w \<noteq> None"
proof -
  assume "books_agree x r" and busy: "phases r w \<noteq> Idle"
  then have "phase_job (current x w) (phases r w)" and r: "reached x" by (simp_all add: books_agree_def)
  with busy have "current x w \<noteq> None" by (cases "phases r w") auto
  with current_bound [OF r] show ?thesis by blast
qed

lemma serves_books:
  assumes "serves quiet current settles vt sys x0 h0 x r" and "reached x0" and "log x0 = []"
  shows "books_agree x r"
  using assms(1)
proof (induction rule: serves.induct)
  case begins
  then show ?case using assms(2,3)
    by (simp add: books_agree_def committed_def unsettled_def routing_start_def)
next
  case (proceeds x r y)
  have "phase_job (current x w) (phases r w)" for w using proceeds(3) by (simp add: books_agree_def)
  then have "phase_job (current y w) (phases r w)" and "unsettled (current y) r w = unsettled (current x) r w" for w
    using phase_job_mono [of "current x w" "current y w"] unsettled_job [of "current x" w "current y" r]
      quiet_keeps [OF proceeds(2)] by blast+
  then show ?case
    using proceeds(3) quiet_log [OF proceeds(2)] reached_quiet [OF _ proceeds(2)] by (simp add: books_agree_def)
next
  case (enters x r w job)
  have "unsettled (current x) (closure_begins job w r) v = unsettled (current x) r v" for v
    using enters(3) by (cases "v = w") (simp_all add: unsettled_def closure_begins_def)
  moreover have "phase_job (current x v) (phases (closure_begins job w r) v)" for v
    using enters by (simp add: books_agree_def closure_begins_def)
  moreover have "committed (closure_begins job w r) = committed r"
    by (simp add: closure_begins_def)
  ultimately show ?case using enters(4) by (simp add: books_agree_def)
next
  case (works_inside x r r')
  have jobs: "\<forall>w. phase_job (current x w) (phases r w)" using works_inside(4) by (simp add: books_agree_def)
  from inside_step [OF works_inside(2,3) jobs] obtain w where w: "phases r w \<noteq> Idle"
    "\<And>v. v \<noteq> w \<Longrightarrow> phases r' v = phases r v" "phase_job (current x w) (phases r' w)"
    "committed r' + unsettled (current x) r w = committed r + unsettled (current x) r' w"
    by blast
  have "w < threads" using books_agree_busy [OF works_inside(4) w(1)] by simp
  from sum_change [of w threads "unsettled (current x) r'" "unsettled (current x) r", OF this] w(2)
  have "(\<Sum>v < threads. unsettled (current x) r' v) + unsettled (current x) r w =
      (\<Sum>v < threads. unsettled (current x) r v) + unsettled (current x) r' w"
    by (simp add: unsettled_def)
  moreover have "phase_job (current x v) (phases r' v)" for v using jobs w(2,3) by (cases "v = w") simp_all
  ultimately show ?case
    using books_balance [OF w(4)] works_inside(4) by (simp add: books_agree_def)
next
  case (leaves x r w result y)
  obtain job i where job: "current x w = Some job" "log y = log x @ [(job, i, Finished result)]"
    using settles_log [OF leaves(3)] by blast
  note others = settles_others [OF leaves(3)]
  have "w < threads" using books_agree_busy [OF leaves(4)] leaves(2) by simp
  have "unsettled (current y) (goto w Idle r) v = unsettled (current x) r v" if "v \<noteq> w" for v
    by (rule unsettled_cong) (simp_all add: that others)
  from sum_change [of w threads "unsettled (current y) (goto w Idle r)" "unsettled (current x) r",
      OF \<open>w < threads\<close> this]
  have "(\<Sum>v < threads. unsettled (current y) (goto w Idle r) v) + unsettled (current x) r w =
      (\<Sum>v < threads. unsettled (current x) r v) + unsettled (current y) (goto w Idle r) w" by simp
  moreover have "unsettled (current y) (goto w Idle r) w = {#}"
    and "unsettled (current x) r w = {#(job_call job, Finished result)#}"
    by (simp_all add: unsettled_def leaves(2) job(1))
  ultimately have sum: "(\<Sum>v < threads. unsettled (current x) r v) =
      (\<Sum>v < threads. unsettled (current y) (goto w Idle r) v) + {#(job_call job, Finished result)#}" by simp
  have "phase_job (current y v) (phases (goto w Idle r) v)" for v
    using leaves(4) others [of v] by (cases "v = w") (simp_all add: books_agree_def)
  then show ?case
    using leaves(4) reached_settles [OF _ leaves(3)]
    by (simp add: books_agree_def job(2) sum)
qed

lemma served_futures:
  assumes "serves quiet current settles vt sys x0 h0 x r" and "reached x0" and "log x0 = []"
    and "(job, Some i, out) \<in> set (log x)"
  shows "\<exists>c \<in> set (commits r). commit_call c = job_call job \<and> future x i = Some (Ready (reply c))"
proof -
  note books = serves_books [OF assms(1-3), unfolded books_agree_def]
  have "(job_call job, out) \<in># mset (map (\<lambda>(job, i, out). (job_call job, out)) (log x))"
    using assms(4) by force
  then have "(job_call job, out) \<in># committed r" using books by simp
  then obtain c where "c \<in> set (commits r)" "commit_call c = job_call job" "out = Finished (reply c)"
    by (auto simp: committed_def)
  moreover have "future x i = Some (settled out)" using future_log books assms(4) by blast
  ultimately show ?thesis by (auto simp: settled_def)
qed

end

section \<open>The worker pool is an executor\<close>

fun job_of :: "'c callback \<Rightarrow> 'c" where
  "job_of (Task c) = c"
| "job_of (CancellableTask c) = c"

definition pool_log :: "'c system \<Rightarrow> 'c run_log" where
  "pool_log s = map (\<lambda>t. (job_of (callback (fst t)), completion (fst t), snd t)) (executed s)"

text \<open>The first task of a worker's claimed batch is the one it runs; every pool step but the end of
  a task is quiet.\<close>

definition pool_current :: "'c system \<Rightarrow> nat \<Rightarrow> 'c option" where
  "pool_current s w = (if w < worker_count (pool s)
     then (case phase s w of Running (x # xs) k \<Rightarrow> Some (job_of (callback x)) | _ \<Rightarrow> None) else None)"

definition pool_quiet :: "'c system \<Rightarrow> 'c system \<Rightarrow> bool" where
  "pool_quiet s s' \<longleftrightarrow> pool_step s s' \<and> executed s' = executed s"

inductive pool_settles :: "'c system \<Rightarrow> nat \<Rightarrow> outcome \<Rightarrow> 'c system \<Rightarrow> bool" where
  "w < worker_count (pool s) \<Longrightarrow> phase s w = Running (x # xs) k \<Longrightarrow> account x out (pool s) = Some p \<Longrightarrow>
     pool_settles s w out (s\<lparr>pool := p, phase := (phase s)(w := Running xs k),
       executed := executed s @ [(x, out)]\<rparr>)"

lemma pool_settles_step: "pool_settles s w out s' \<Longrightarrow> pool_step s s'"
  by (induction rule: pool_settles.induct) (blast intro: pool_step.works worker_step.executes)

lemma account_frame: "account x out p = Some p' \<Longrightarrow> worker_count p' = worker_count p"
  by (auto simp: account_def Let_def split: option.splits if_splits outcome.splits)

lemma quiet_current:
  assumes "pool_quiet s s'" and "pool_current s w = Some job"
  shows "pool_current s' w = Some job"
proof -
  have "pool_step s s'" and same: "executed s' = executed s" using assms(1) by (simp_all add: pool_quiet_def)
  from this(1) show ?thesis
  proof cases
    case works
    then show ?thesis
      using assms(2) same
    proof (induction rule: worker_step.induct)
      case (claims v s items p)
      then show ?case using claim_frame [OF claims(3)]
        by (auto simp: pool_current_def split: if_splits)
    next
      case (finishes v s k notify p)
      then show ?case using finish_frame_pair [OF finishes(3)]
        by (auto simp: pool_current_def split: if_splits)
    qed (auto simp: pool_current_def split: if_splits)
  next
    case calls
    moreover from calls have "phase s' = phase s"
      by (induction rule: client_step.induct) (simp_all add: accept_def cancel_all_def)
    ultimately show ?thesis using assms(2) client_step_frame [of s s']
      by (simp add: pool_current_def split: if_splits)
  qed
qed

interpretation pool_executor: executor
  "\<lambda>s. (\<exists>hw n cap. Pool_new hw n cap = Inr p0) \<and> pool_reach p0 s"
  pool_quiet pool_current pool_settles pool_log "\<lambda>s. promises (pool s)" "worker_count p0"
  for p0 :: "async_job Pool"
proof unfold_locales
  fix x y :: "async_job system" and job i out w v
  let ?reached = "\<lambda>s. (\<exists>hw n cap. Pool_new hw n cap = Inr p0) \<and> pool_reach p0 s"
  show "?reached y" if "?reached x" and "pool_quiet x y"
    using that pool_reach.step by (auto simp: pool_quiet_def)
  show "?reached y" if "?reached x" and "pool_settles x w out y"
    using that pool_reach.step pool_settles_step by blast
  show "w < worker_count p0" if "?reached x" and "pool_current x w = Some job"
    using that pool_reach_limits [of p0 x] by (simp add: pool_current_def split: if_splits)
  show "pool_current y w = Some job" if "pool_quiet x y" and "pool_current x w = Some job"
    using that by (rule quiet_current)
  show "pool_log y = pool_log x" if "pool_quiet x y" using that by (simp add: pool_quiet_def pool_log_def)
  show "pool_current y v = pool_current x v" if "pool_settles x w out y" and "v \<noteq> w"
    using that by (cases rule: pool_settles.cases) (auto simp: pool_current_def dest: account_frame)
  show "\<exists>job i. pool_current x w = Some job \<and> pool_log y = pool_log x @ [(job, i, out)]"
    if "pool_settles x w out y"
    using that by cases (simp add: pool_current_def pool_log_def)
  show "promises (pool x) i = Some (settled out)" if reached: "?reached x" and log: "(job, Some i, out) \<in> set (pool_log x)"
  proof -
    obtain hw n cap where new: "Pool_new hw n cap = Inr p0" and reach: "pool_reach p0 x" using reached by auto
    from outcomes_invD(3) [OF pool_reach_outcomes [OF new reach]] log show ?thesis by (auto simp: pool_log_def)
  qed
qed

text \<open>\<open>add\<close> and \<open>remove\<close> of the system reach the pool as tracked tasks.\<close>

lemma async_calls_are_quiet:
  "async_add submit e (pool s) = Accepted (i, p) \<Longrightarrow>
     pool_quiet s (accept p [tracked (Task \<lparr>job_error = e, job_remove = False\<rparr>) (pool s)] s)"
  "async_remove submit e (pool s) = Accepted (i, p) \<Longrightarrow>
     pool_quiet s (accept p [tracked (Task \<lparr>job_error = e, job_remove = True\<rparr>) (pool s)] s)"
  by (auto simp: async_add_def async_remove_def async_submit_def submit_def pool_quiet_def accept_def
      intro: pool_step.calls client_step.submits [unfolded accept_def])

section \<open>Schedules\<close>

text \<open>Turns of threads that are inside the handler and do not leave it yet.\<close>

fun closure_turns :: "'r IRegister \<Rightarrow> BasicHandler \<Rightarrow> nat list \<Rightarrow> 'r routing \<Rightarrow> 'r routing option" where
  "closure_turns vt hdl [] r = Some r"
| "closure_turns vt hdl (t # ts) r =
     (case phases r t of Done res \<Rightarrow> None
      | _ \<Rightarrow> (case advance vt hdl (Move t) r of None \<Rightarrow> None | Some r' \<Rightarrow> closure_turns vt hdl ts r'))"

lemma move_stays_inside:
  "advance vt hdl (Move t) r = Some r' \<Longrightarrow> (\<And>res. phases r t \<noteq> Done res) \<Longrightarrow>
     {w. phases r' w = Idle} = {w. phases r w = Idle}"
  by (auto split: phase.splits if_splits prod.splits)

lemma closure_turns_served:
  "serves quiet current settles vt sys x0 h0 x r \<Longrightarrow> closure_turns vt (async_handler sys) ts r = Some r' \<Longrightarrow>
     serves quiet current settles vt sys x0 h0 x r'"
proof (induction ts arbitrary: r)
  case (Cons t ts)
  obtain r1 where r1: "advance vt (async_handler sys) (Move t) r = Some r1" "\<And>res. phases r t \<noteq> Done res"
    "closure_turns vt (async_handler sys) ts r1 = Some r'"
    using Cons.prems(2) by (simp del: advance.simps split: phase.splits option.splits)
  then have "serves quiet current settles vt sys x0 h0 x r1"
    using works_inside [OF Cons.prems(1)] advance_sound move_stays_inside by metis
  then show ?case using Cons.IH r1(3) by blast
qed simp

section \<open>Properties\<close>

text \<open>
  C7. An asynchronous system on the worker pool behaves as one bounded map per category, however the
  workers interleave inside the handler: the operations that took effect, in that order, got the
  replies of the specification and left the registers at its state. They are exactly the operations of
  the jobs the pool has run, each once and with the outcome the pool recorded, and those of jobs
  still between their effect and the end of their closure; and the future of every job that
  ran holds the reply of its operation.
\<close>

theorem async_system_refines_category_maps:
  assumes "Pool_new hardware requested capacity = Inr p0"
    and "serves pool_quiet pool_current pool_settles Register_vtable (AsyncErrorSystem_new as)
      (system_start p0) h0 s r"
    and "\<forall>a \<in> set as. reg_inv (h0 a)"
  shows "run_calls (spec_system (system_limits Register_vtable capacity_limit as h0))
      (map commit_call (commits r)) (system_view Register_vtable reg_view as h0) =
        (map reply (commits r), system_view Register_vtable reg_view as (objects r)) \<and>
    mset (map (\<lambda>c. (commit_call c, Finished (reply c))) (commits r)) =
      mset (map (\<lambda>(x, out). (job_call (job_of (callback x)), out)) (executed s)) +
      (\<Sum>w < worker_count p0. unsettled (pool_current s) r w) \<and>
    (\<forall>(x, out) \<in> set (executed s). \<forall>i. completion x = Some i \<longrightarrow>
      (\<exists>c \<in> set (commits r). commit_call c = job_call (job_of (callback x)) \<and>
        promises (pool s) i = Some (Ready (reply c))))"
proof (intro conjI ballI)
  let ?step = "system_step Register_vtable (System_new MultiThreaded as)"
  have start: "(\<exists>hw n cap. Pool_new hw n cap = Inr p0) \<and> pool_reach p0 (system_start p0)"
    using assms(1) pool_reach.start by blast
  have log0: "pool_log (system_start p0) = []" by (simp add: pool_log_def system_start_def)
  have reach: "routing_reach Register_vtable (ConcurrentHandler as) h0 r"
    using serves_routing [OF assms(2)] by (simp add: AsyncErrorSystem_new_def)
  have "run_calls (\<lambda>c. dispatch Register_vtable (operation c) as (operand c)) (commits r) h0 =
      (map reply (commits r), objects r)"
    using concurrent_inv [OF reach] by (simp add: routing_inv_def replay_def ConcurrentHandler_def)
  then have "run_calls ?step (map commit_call (commits r)) h0 = (map reply (commits r), objects r)"
    by (simp only: run_calls_map system_step_operation)
  then show "run_calls (spec_system (system_limits Register_vtable capacity_limit as h0))
      (map commit_call (commits r)) (system_view Register_vtable reg_view as h0) =
        (map reply (commits r), system_view Register_vtable reg_view as (objects r))"
    using sys.run_refines [of as h0 "system_limits Register_vtable capacity_limit as h0" MultiThreaded
        "map commit_call (commits r)"] assms(3) by simp
  show "mset (map (\<lambda>c. (commit_call c, Finished (reply c))) (commits r)) =
      mset (map (\<lambda>(x, out). (job_call (job_of (callback x)), out)) (executed s)) +
      (\<Sum>w < worker_count p0. unsettled (pool_current s) r w)"
    using pool_executor.serves_books [OF assms(2) start log0]
    by (simp add: pool_executor.books_agree_def committed_def pool_log_def comp_def case_prod_unfold)
  fix t
  assume "t \<in> set (executed s)"
  then have "(job_of (callback (fst t)), completion (fst t), snd t) \<in> set (pool_log s)"
    by (auto simp: pool_log_def)
  then show "case t of (x, out) \<Rightarrow> \<forall>i. completion x = Some i \<longrightarrow>
      (\<exists>c \<in> set (commits r). commit_call c = job_call (job_of (callback x)) \<and>
        promises (pool s) i = Some (Ready (reply c)))"
    using pool_executor.served_futures [OF assms(2) start log0] by (auto simp: case_prod_unfold)
qed

text \<open>Two workers run two jobs that add the same code. Both are inside the handler at the same time; the
  second one waits for the mutex of the register and is told of the duplicate.\<close>

definition racing_jobs :: "async_job list" where
  "racing_jobs = [\<lparr>job_error = make_Error NETWORK 7 ''x'', job_remove = False\<rparr>,
     \<lparr>job_error = make_Error NETWORK 7 ''y'', job_remove = False\<rparr>]"

definition racing_commits :: "(system_call \<times> OperationResult) list" where
  "racing_commits = [(System_add (make_Error NETWORK 7 ''y''), ok),
     (System_add (make_Error NETWORK 7 ''x''), Inl (already_registered NETWORK))]"

lemma racing_turns:
  "case closure_turns Register_vtable (async_handler (AsyncErrorSystem_new [0])) [1, 1, 1, 1, 0, 0, 0, 0]
      (closure_begins (racing_jobs ! 1) 1 (closure_begins (racing_jobs ! 0) 0 (routing_start one_register))) of
     None \<Rightarrow> False
   | Some r \<Rightarrow> phases r 0 = Done (Inl (already_registered NETWORK)) \<and> phases r 1 = Done ok \<and>
       map (\<lambda>c. (commit_call c, reply c)) (commits r) = racing_commits"
  by code_simp

lemma racing_pool:
  "\<exists>(p0 :: async_job Pool) s x y. Pool_new 0 2 4 = Inr p0 \<and> pool_reach p0 s \<and> pool_quiet\<^sup>*\<^sup>* (system_start p0) s \<and>
     phase s 0 = Running [x] 1 \<and> phase s 1 = Running [y] 1 \<and> worker_count (pool s) = 2 \<and> executed s = [] \<and>
     callback x = Task (racing_jobs ! 0) \<and> callback y = Task (racing_jobs ! 1) \<and>
     completion x \<noteq> None \<and> completion y \<noteq> None"
proof -
  obtain p0 :: "async_job Pool" where p0: "Pool_new 0 2 4 = Inr p0"
    by (simp add: Pool_new_def validate_queue_capacity_def max_queue_capacity_def max_worker_count_def)
  let ?s0 = "system_start p0" and ?x = "tracked (Task (racing_jobs ! 0)) p0"
  have s0: "\<not> is_stopping (pool ?s0)" "length (queued (pool ?s0)) < 4" "queued (pool ?s0) = []"
    "phase ?s0 = (\<lambda>_. Looping)" "executed ?s0 = []" "pool ?s0 = p0"
    using Pool_new_inv [OF p0] by (simp_all add: system_start_def)
  obtain s1 where s1: "pool_step ?s0 s1" "pool_reach p0 s1" "queued (pool s1) = [?x]"
    "phase s1 = (\<lambda>_. Looping)" "executed s1 = []" "\<not> is_stopping (pool s1)"
    using fresh_step [OF p0 pool_reach.start s0(1,2), of "Task (racing_jobs ! 0)"] s0 by auto
  let ?y = "tracked (Task (racing_jobs ! 1)) (pool s1)"
  obtain s2 where s2: "pool_step s1 s2" "pool_reach p0 s2" "queued (pool s2) = [?x, ?y]"
    "phase s2 = (\<lambda>_. Looping)" "executed s2 = []"
    using fresh_step [OF p0 s1(2,6), of "Task (racing_jobs ! 1)"] s1 by auto
  have "claimed (queued (pool s2)) = [?x]" by (simp add: s2(3) claimed_def) (simp add: tracked_def)
  then obtain s3 where s3: "pool_step s2 s3" "pool_reach p0 s3" "queued (pool s3) = [?y]"
    "phase s3 = (\<lambda>_. Looping)(0 := Running [?x] 1)" "executed s3 = []"
    using claim_step [OF p0 s2(2), of 0] s2(3-5) by auto
  have "claimed (queued (pool s3)) = [?y]" by (simp add: s3(3) claimed_def) (simp add: tracked_def)
  then obtain s4 where s4: "pool_step s3 s4" "pool_reach p0 s4"
    "phase s4 = (\<lambda>_. Looping)(0 := Running [?x] 1, 1 := Running [?y] 1)" "executed s4 = []"
    using claim_step [OF p0 s3(2), of 1] s3(3-5) by auto
  have q: "pool_quiet ?s0 s1" "pool_quiet s1 s2" "pool_quiet s2 s3" "pool_quiet s3 s4"
    using s0(5) s1(1,5) s2(1,5) s3(1,5) s4(1,4) by (simp_all add: pool_quiet_def)
  from q(1) have "pool_quiet\<^sup>*\<^sup>* ?s0 s1" by (rule r_into_rtranclp)
  from rtranclp.rtrancl_into_rtrancl [OF this q(2)] have "pool_quiet\<^sup>*\<^sup>* ?s0 s2" .
  from rtranclp.rtrancl_into_rtrancl [OF this q(3)] have "pool_quiet\<^sup>*\<^sup>* ?s0 s3" .
  from rtranclp.rtrancl_into_rtrancl [OF this q(4)] have "pool_quiet\<^sup>*\<^sup>* ?s0 s4" .
  moreover have "worker_count (pool s4) = 2"
    using pool_reach_limits [OF s4(2)] p0 by (auto simp: Pool_new_def Let_def split: sum.splits if_splits)
  ultimately show ?thesis using p0 s4
    by (intro exI [of _ p0] exI [of _ s4] exI [of _ ?x] exI [of _ ?y]) (simp add: tracked_def)
qed

lemma serves_quietly:
  "pool_quiet\<^sup>*\<^sup>* x0 x \<Longrightarrow> serves pool_quiet current settles vt sys x0 h0 x (routing_start h0)"
  by (induction rule: rtranclp_induct) (auto intro: begins proceeds)

lemma settles_exists:
  assumes "system_inv s" and "w < worker_count (pool s)" and "phase s w = Running [x] 1"
  shows "\<exists>s'. pool_settles s w out s' \<and> executed s' = executed s @ [(x, out)] \<and> phase s' = (phase s)(w := Running [] 1) \<and>
    worker_count (pool s') = worker_count (pool s)"
proof -
  obtain before after where "live s = before @ x # after"
    using gather_split [OF assms(2)] assms(3) by (metis append_Cons append_Nil remaining.simps(1))
  then have acc: "account x out (pool s) = Some (account_effect x out (pool s))"
    using account_item(1) [of "active s" before x after] system_invD(1) [OF assms(1)] by simp
  from pool_settles.intros [OF assms(2,3) acc] account_frame [OF acc] show ?thesis
    by (intro exI [of _ "s\<lparr>pool := account_effect x out (pool s), phase := (phase s)(w := Running [] 1),
        executed := executed s @ [(x, out)]\<rparr>"]) simp
qed

lemma racing_served:
  "\<exists>(p0 :: async_job Pool) s r x y. Pool_new 0 2 4 = Inr p0 \<and>
     serves pool_quiet pool_current pool_settles Register_vtable (AsyncErrorSystem_new [0])
       (system_start p0) one_register s r \<and>
     executed s = [(y, Finished ok), (x, Finished (Inl (already_registered NETWORK)))] \<and>
     map (\<lambda>c. (commit_call c, reply c)) (commits r) = racing_commits \<and> callback y = Task (racing_jobs ! 1) \<and>
     completion x \<noteq> None \<and> completion y \<noteq> None"
proof -
  let ?serves = "\<lambda>p0. serves pool_quiet pool_current pool_settles Register_vtable (AsyncErrorSystem_new [0])
    (system_start (p0 :: async_job Pool)) one_register"
  obtain p0 :: "async_job Pool" and s x y where p0: "Pool_new 0 2 4 = Inr p0"
    and s: "pool_reach p0 s" "pool_quiet\<^sup>*\<^sup>* (system_start p0) s" "phase s 0 = Running [x] 1"
      "phase s 1 = Running [y] 1" "worker_count (pool s) = 2" "executed s = []"
    and xy: "callback x = Task (racing_jobs ! 0)" "callback y = Task (racing_jobs ! 1)"
      "completion x \<noteq> None" "completion y \<noteq> None"
    using racing_pool by blast
  let ?r0 = "routing_start one_register"
  let ?r1 = "closure_begins (racing_jobs ! 0) 0 ?r0" and ?r2 = "closure_begins (racing_jobs ! 1) 1
    (closure_begins (racing_jobs ! 0) 0 ?r0)"
  have "?serves p0 s ?r0" by (rule serves_quietly [OF s(2)])
  then have "?serves p0 s ?r1"
    by (rule enters) (simp_all add: pool_current_def s xy routing_start_def)
  then have s2: "?serves p0 s ?r2"
    by (rule enters) (simp_all add: pool_current_def s [simplified] xy [simplified] routing_start_def closure_begins_def)
  obtain r where "closure_turns Register_vtable (async_handler (AsyncErrorSystem_new [0]))
      [1, 1, 1, 1, 0, 0, 0, 0] ?r2 = Some r"
    and r: "phases r 0 = Done (Inl (already_registered NETWORK))" "phases r 1 = Done ok"
      "map (\<lambda>c. (commit_call c, reply c)) (commits r) = racing_commits"
    using racing_turns by (auto split: option.splits)
  then have s3: "?serves p0 s r" using closure_turns_served [OF s2] by blast
  note inv = pool_reach_inv [OF p0 s(1)]
  obtain s4 where s4: "pool_settles s 1 (Finished ok) s4" "executed s4 = [(y, Finished ok)]"
    "phase s4 0 = Running [x] 1" "worker_count (pool s4) = 2"
    using settles_exists [OF inv, of 1 y "Finished ok"] s by auto
  have "?serves p0 s4 (goto 1 Idle r)" by (rule leaves [OF s3 r(2) s4(1)])
  moreover have "system_inv s4" using pool_step_inv [OF pool_settles_step [OF s4(1)] inv] .
  then obtain s5 where s5: "pool_settles s4 0 (Finished (Inl (already_registered NETWORK))) s5"
    "executed s5 = [(y, Finished ok), (x, Finished (Inl (already_registered NETWORK)))]"
    using settles_exists [of s4 0 x "Finished (Inl (already_registered NETWORK))"] s4 by auto
  ultimately have "?serves p0 s5 (goto 0 Idle (goto 1 Idle r))"
    using r(1) by (elim leaves [where settles = pool_settles, OF _ _ s5(1)]) simp
  moreover have "map (\<lambda>c. (commit_call c, reply c)) (commits (goto 0 Idle (goto 1 Idle r))) = racing_commits"
    using r(3) by (simp add: goto_def)
  ultimately show ?thesis using p0 s5(2) xy by blast
qed

theorem async_system_refines_category_maps_witness:
  "\<exists>(p0 :: async_job Pool) s r x y i. Pool_new 0 2 4 = Inr p0 \<and>
     serves pool_quiet pool_current pool_settles Register_vtable (AsyncErrorSystem_new [0])
       (system_start p0) one_register s r \<and>
     executed s = [y, x] \<and> completion (fst y) = Some i \<and> promises (pool s) i = Some (Ready ok) \<and>
     fst (run_calls (spec_system (system_limits Register_vtable capacity_limit [0] one_register))
       (map commit_call (commits r)) (system_view Register_vtable reg_view [0] one_register)) =
       [ok, Inl (already_registered NETWORK)]"
proof -
  obtain p0 :: "async_job Pool" and s r x y where p0: "Pool_new 0 2 4 = Inr p0"
    and served: "serves pool_quiet pool_current pool_settles Register_vtable (AsyncErrorSystem_new [0])
       (system_start p0) one_register s r"
    and ran: "executed s = [(y, Finished ok), (x, Finished (Inl (already_registered NETWORK)))]"
    and log: "map (\<lambda>c. (commit_call c, reply c)) (commits r) = racing_commits"
    and y: "callback y = Task (racing_jobs ! 1)" "completion y \<noteq> None"
    using racing_served by (elim exE conjE) (rule that)
  obtain i where i: "completion y = Some i" using y(2) by blast
  have "\<forall>a \<in> set [0]. reg_inv (one_register a)"
    by (simp add: one_register_def reg_inv_def max_register_capacity_def umap_ok_def umap_size_def umap_find_def)
  note spec = async_system_refines_category_maps [OF p0 served this]
  have "map reply (commits r) = map snd racing_commits" by (simp flip: log)
  then have "fst (run_calls (spec_system (system_limits Register_vtable capacity_limit [0] one_register))
      (map commit_call (commits r)) (system_view Register_vtable reg_view [0] one_register)) =
      [ok, Inl (already_registered NETWORK)]"
    using spec by (simp add: racing_commits_def)
  moreover have "promises (pool s) i = Some (Ready ok)"
  proof -
    obtain c where c: "c \<in> set (commits r)" "commit_call c = job_call (racing_jobs ! 1)"
      "promises (pool s) i = Some (Ready (reply c))"
      using spec ran i y(1) by (auto simp: case_prod_unfold)
    have "(commit_call c, reply c) \<in> set (map (\<lambda>c. (commit_call c, reply c)) (commits r))"
      using c(1) by auto
    then have "(commit_call c, reply c) \<in> set racing_commits" by (simp only: log)
    with c(2,3) show ?thesis
      by (auto simp: racing_commits_def racing_jobs_def job_call_def make_Error_def)
  qed
  ultimately show ?thesis using p0 served ran i by force
qed

end
