(* ===== verification/Async_Logger.thy ===== *)
theory Async_Logger
  imports Logger_Sync
begin

text \<open>
  The asynchronous specialization of \<open>Logger\<close> in \<open>include/vosp/logger.hpp\<close>: producers append records
  to a bounded queue, one background thread swaps the queue for its empty batch and hands the batch
  to a parallel-dispatch backend. Every definition is one critical section of \<open>mutex_\<close> or one
  iteration of the delivery loop; waiting on a condition variable is a section that does not apply.
  Any number of producers, owners and the background thread interleave.
\<close>

section \<open>State and sections\<close>

record PendingRecord =
  record_level :: Level
  record_error :: Error

record async_logger =
  queue :: "PendingRecord list"
  failed_records :: u64
  stopping :: bool
  batch_active :: bool

definition async_new :: async_logger where
  "async_new = \<lparr>queue = [], failed_records = 0, stopping = False, batch_active = False\<rparr>"

datatype 'a section_result = Waits | Continues 'a | Leaves bool 'a

text \<open>\<open>enqueue\<close>, which is both \<open>write\<close> and \<open>write_owned\<close>.\<close>

definition async_enqueue :: "policy \<Rightarrow> Level \<Rightarrow> Error \<Rightarrow> async_logger \<Rightarrow> async_logger section_result" where
  "async_enqueue accepts l e a =
     (if \<not> accepts l then Leaves True a
      else if \<not> (stopping a \<or> length (queue a) < async_queue_capacity) then Waits
      else if stopping a then Leaves False a
      else Leaves True (a\<lparr>queue := queue a @ [\<lparr>record_level = l, record_error = e\<rparr>]\<rparr>))"

text \<open>The first section of \<open>run\<close>: it leaves the loop, or swaps the empty batch with the queue.\<close>

definition async_take :: "PendingRecord list \<Rightarrow> async_logger \<Rightarrow>
    (PendingRecord list \<times> async_logger) section_result" where
  "async_take batch a =
     (if \<not> (stopping a \<or> queue a \<noteq> []) then Waits
      else if queue a = [] \<and> stopping a then Leaves True (batch, a)
      else Continues (queue a, a\<lparr>queue := batch, batch_active := True\<rparr>))"

text \<open>One iteration over the batch: exceptions of the backend are caught and counted.\<close>

definition async_deliver :: "(Level \<Rightarrow> Error \<Rightarrow> ('s, bool) callable) \<Rightarrow> PendingRecord \<Rightarrow>
    async_logger \<Rightarrow> 's \<Rightarrow> bool completion \<times> async_logger \<times> 's" where
  "async_deliver backend r a s =
     (case backend (record_level r) (record_error r) s of (answer, s') \<Rightarrow>
        (answer,
         (if answer = Returned True then a else a\<lparr>failed_records := failed_records a + 1\<rparr>), s'))"

definition async_finish :: "async_logger \<Rightarrow> async_logger" where
  "async_finish a = a\<lparr>batch_active := False\<rparr>"

definition async_shutdown :: "async_logger \<Rightarrow> async_logger" where
  "async_shutdown a = a\<lparr>stopping := True\<rparr>"

text \<open>The condition under which \<open>flush\<close> returns.\<close>

definition async_drained :: "async_logger \<Rightarrow> bool" where
  "async_drained a \<longleftrightarrow> queue a = [] \<and> \<not> batch_active a"

section \<open>The protocol\<close>

text \<open>
  The backend is a synchronous logger in the state of the program; \<open>attach\<close> and \<open>detach\<close> of the
  asynchronous logger are forwarded to it.
\<close>

datatype backend_call = Backend_write PendingRecord | Backend_register registration

fun backend_step :: "(Level \<Rightarrow> Error \<Rightarrow> ('s, bool) callable) \<Rightarrow> ('s \<Rightarrow> Logger) \<Rightarrow> (Logger \<Rightarrow> 's \<Rightarrow> 's) \<Rightarrow>
    backend_call \<Rightarrow> ('s, bool) callable" where
  "backend_step backend get put (Backend_write r) s = backend (record_level r) (record_error r) s"
| "backend_step backend get put (Backend_register c) s =
     (case register_sink c (get s) of (answer, lg) \<Rightarrow> (Returned answer, put lg s))"

datatype delivery = Waiting | Delivering "PendingRecord list" | Returned_from_run

text \<open>Ghost fields: the records accepted so far and the calls the backend has got, with its answers.\<close>

record 's async_run =
  logger :: async_logger
  worker :: delivery
  program :: 's
  accepted_records :: "PendingRecord list"
  backend_log :: "(backend_call \<times> bool completion) list"

definition async_start :: "'s \<Rightarrow> 's async_run" where
  "async_start s = \<lparr>logger = async_new, worker = Waiting, program = s, accepted_records = [], backend_log = []\<rparr>"

inductive async_step :: "policy \<Rightarrow> (Level \<Rightarrow> Error \<Rightarrow> ('s, bool) callable) \<Rightarrow> ('s \<Rightarrow> Logger) \<Rightarrow>
    (Logger \<Rightarrow> 's \<Rightarrow> 's) \<Rightarrow> bool \<Rightarrow> 's async_run \<Rightarrow> 's async_run \<Rightarrow> bool"
  for accepts backend get put where
  accepted: "async_enqueue accepts l e (logger x) = Leaves True a \<Longrightarrow> accepts l \<Longrightarrow>
     async_step accepts backend get put False x
       (x\<lparr>logger := a, accepted_records := accepted_records x @ [\<lparr>record_level = l, record_error = e\<rparr>]\<rparr>)"
| shuts_down: "async_step accepts backend get put False x (x\<lparr>logger := async_shutdown (logger x)\<rparr>)"
| registers: "backend_step backend get put (Backend_register c) (program x) = (answer, s') \<Longrightarrow>
     async_step accepts backend get put False x
       (x\<lparr>program := s', backend_log := backend_log x @ [(Backend_register c, answer)]\<rparr>)"
| takes: "worker x = Waiting \<Longrightarrow> async_take [] (logger x) = Continues (batch, a) \<Longrightarrow>
     async_step accepts backend get put True x (x\<lparr>logger := a, worker := Delivering batch\<rparr>)"
| leaves: "worker x = Waiting \<Longrightarrow> async_take [] (logger x) = Leaves b (batch, a) \<Longrightarrow>
     async_step accepts backend get put True x (x\<lparr>logger := a, worker := Returned_from_run\<rparr>)"
| delivers: "worker x = Delivering (r # rs) \<Longrightarrow>
     async_deliver backend r (logger x) (program x) = (answer, a, s') \<Longrightarrow>
     async_step accepts backend get put True x
       (x\<lparr>logger := a, worker := Delivering rs, program := s',
          backend_log := backend_log x @ [(Backend_write r, answer)]\<rparr>)"
| ends_batch: "worker x = Delivering [] \<Longrightarrow>
     async_step accepts backend get put True x
       (x\<lparr>logger := async_finish (logger x), worker := Waiting\<rparr>)"

inductive async_reach :: "policy \<Rightarrow> (Level \<Rightarrow> Error \<Rightarrow> ('s, bool) callable) \<Rightarrow> ('s \<Rightarrow> Logger) \<Rightarrow>
    (Logger \<Rightarrow> 's \<Rightarrow> 's) \<Rightarrow> 's \<Rightarrow> 's async_run \<Rightarrow> bool"
  for accepts backend get put s0 where
  start: "async_reach accepts backend get put s0 (async_start s0)"
| step: "async_reach accepts backend get put s0 x \<Longrightarrow> async_step accepts backend get put background x y \<Longrightarrow>
     async_reach accepts backend get put s0 y"

section \<open>The invariant\<close>

fun undelivered :: "delivery \<Rightarrow> PendingRecord list" where
  "undelivered (Delivering rs) = rs"
| "undelivered d = []"

fun written :: "(backend_call \<times> bool completion) list \<Rightarrow> PendingRecord list" where
  "written [] = []"
| "written ((Backend_write r, answer) # cs) = r # written cs"
| "written ((Backend_register c, answer) # cs) = written cs"

fun failed_writes :: "(backend_call \<times> bool completion) list \<Rightarrow> nat" where
  "failed_writes [] = 0"
| "failed_writes ((Backend_write r, answer) # cs) =
     (if answer = Returned True then 0 else 1) + failed_writes cs"
| "failed_writes ((Backend_register c, answer) # cs) = failed_writes cs"

lemma written_append [simp]: "written (cs @ ds) = written cs @ written ds"
  by (induction cs rule: written.induct) simp_all

lemma failed_writes_append [simp]: "failed_writes (cs @ ds) = failed_writes cs + failed_writes ds"
  by (induction cs rule: failed_writes.induct) simp_all

definition async_inv :: "policy \<Rightarrow> (backend_call \<Rightarrow> ('s, bool) callable) \<Rightarrow> 's \<Rightarrow> 's async_run \<Rightarrow> bool" where
  "async_inv accepts step s0 x \<longleftrightarrow>
     accepted_records x = written (backend_log x) @ undelivered (worker x) @ queue (logger x) \<and>
     (\<forall>r \<in> set (accepted_records x). accepts (record_level r)) \<and>
     length (queue (logger x)) \<le> async_queue_capacity \<and>
     length (undelivered (worker x)) \<le> async_queue_capacity \<and>
     (batch_active (logger x) \<longleftrightarrow> (\<exists>rs. worker x = Delivering rs)) \<and>
     (worker x = Returned_from_run \<longrightarrow> stopping (logger x) \<and> queue (logger x) = []) \<and>
     failed_records (logger x) = of_nat (failed_writes (backend_log x)) \<and>
     run_calls step (map fst (backend_log x)) s0 = (map snd (backend_log x), program x)"

lemma async_step_inv:
  "async_step accepts backend get put background x y \<Longrightarrow>
     async_inv accepts (backend_step backend get put) s0 x \<Longrightarrow>
     async_inv accepts (backend_step backend get put) s0 y"
proof (induction rule: async_step.induct)
  case (accepted l e x a)
  then show ?case
    by (auto simp: async_inv_def async_enqueue_def split: if_splits)
next
  case (shuts_down x)
  then show ?case by (simp add: async_inv_def async_shutdown_def)
next
  case (registers c x answer s')
  then show ?case by (simp add: async_inv_def run_calls_snoc del: backend_step.simps)
next
  case (takes x batch a)
  then show ?case by (auto simp: async_inv_def async_take_def split: if_splits)
next
  case (leaves x b batch a)
  then show ?case by (auto simp: async_inv_def async_take_def split: if_splits)
next
  case (delivers x r rs answer a s')
  then have "backend (record_level r) (record_error r) (program x) = (answer, s')"
    "a = (if answer = Returned True then logger x
      else (logger x)\<lparr>failed_records := failed_records (logger x) + 1\<rparr>)"
    by (auto simp: async_deliver_def split: prod.splits)
  with delivers show ?case by (auto simp: async_inv_def run_calls_snoc)
next
  case (ends_batch x)
  then show ?case by (simp add: async_inv_def async_finish_def)
qed

lemma async_reach_inv:
  "async_reach accepts backend get put s0 x \<Longrightarrow> async_inv accepts (backend_step backend get put) s0 x"
proof (induction rule: async_reach.induct)
  case start
  then show ?case by (simp add: async_inv_def async_start_def async_new_def)
next
  case (step x background y)
  then show ?case by (blast intro: async_step_inv)
qed

section \<open>Progress of the background thread\<close>

fun delivery_work :: "delivery \<Rightarrow> nat" where
  "delivery_work Waiting = 1"
| "delivery_work (Delivering rs) = 2 + length rs"
| "delivery_work Returned_from_run = 0"

definition async_work :: "'s async_run \<Rightarrow> nat" where
  "async_work x = 3 * length (queue (logger x)) + delivery_work (worker x)"

lemma background_step_work:
  "async_step accepts backend get put background x y \<Longrightarrow> background \<Longrightarrow>
     async_work y < async_work x \<and> accepted_records y = accepted_records x \<and>
     stopping (logger y) = stopping (logger x)"
proof (induction rule: async_step.induct)
  case (takes x batch a)
  then obtain n where "length (queue (logger x)) = Suc n"
    by (cases "queue (logger x)") (auto simp: async_take_def split: if_splits)
  with takes show ?case by (auto simp: async_take_def async_work_def split: if_splits)
next
  case (delivers x r rs answer a s')
  then have "queue a = queue (logger x)" and "stopping a = stopping (logger x)"
    by (auto simp: async_deliver_def split: prod.splits if_splits)
  with delivers show ?case by (simp add: async_work_def)
qed (auto simp: async_take_def async_work_def async_finish_def split: if_splits)

definition background_stuck :: "policy \<Rightarrow> (Level \<Rightarrow> Error \<Rightarrow> ('s, bool) callable) \<Rightarrow> ('s \<Rightarrow> Logger) \<Rightarrow>
    (Logger \<Rightarrow> 's \<Rightarrow> 's) \<Rightarrow> 's async_run \<Rightarrow> bool" where
  "background_stuck accepts backend get put x \<longleftrightarrow> \<not> (\<exists>y. async_step accepts backend get put True x y)"

lemma stuck_worker:
  assumes "background_stuck accepts backend get put x"
  shows "(worker x = Waiting \<and> queue (logger x) = [] \<and> \<not> stopping (logger x)) \<or> worker x = Returned_from_run"
proof (cases "worker x")
  case Returned_from_run
  then show ?thesis by simp
next
  case (Delivering rs)
  have "\<exists>y. async_step accepts backend get put True x y"
  proof (cases rs)
    case Nil
    with Delivering ends_batch show ?thesis by blast
  next
    case (Cons r rs')
    obtain answer a s' where d: "async_deliver backend r (logger x) (program x) = (answer, a, s')"
      by (metis surj_pair)
    have "worker x = Delivering (r # rs')" using Delivering Cons by simp
    from async_step.delivers [OF this d] show ?thesis by blast
  qed
  with assms show ?thesis by (simp add: background_stuck_def)
next
  case Waiting
  show ?thesis
  proof (cases "async_take [] (logger x)")
    case Waits
    with Waiting show ?thesis by (auto simp: async_take_def split: if_splits)
  next
    case (Continues r)
    with Waiting takes assms show ?thesis unfolding background_stuck_def by (metis surj_pair)
  next
    case (Leaves b r)
    with Waiting leaves assms show ?thesis unfolding background_stuck_def by (metis surj_pair)
  qed
qed

lemma background_settles:
  "async_reach accepts backend get put s0 x \<Longrightarrow>
     \<exists>y. (async_step accepts backend get put True)\<^sup>*\<^sup>* x y \<and> async_reach accepts backend get put s0 y \<and>
       background_stuck accepts backend get put y \<and> accepted_records y = accepted_records x \<and>
       stopping (logger y) = stopping (logger x)"
proof (induction "async_work x" arbitrary: x rule: less_induct)
  case less
  show ?case
  proof (cases "background_stuck accepts backend get put x")
    case True
    with less.prems show ?thesis by blast
  next
    case False
    then obtain y where y: "async_step accepts backend get put True x y" by (auto simp: background_stuck_def)
    note decr = background_step_work [OF y]
    from less.hyps [OF _ async_reach.step [OF less.prems y]] decr obtain z where
      "(async_step accepts backend get put True)\<^sup>*\<^sup>* y z" "async_reach accepts backend get put s0 z"
      "background_stuck accepts backend get put z" "accepted_records z = accepted_records y"
      "stopping (logger z) = stopping (logger y)"
      by blast
    with y decr show ?thesis by (metis converse_rtranclp_into_rtranclp)
  qed
qed

section \<open>Properties\<close>

text \<open>
  C5. The asynchronous logger is the synchronous one, delayed: in every reachable state the sinks have
  seen exactly what a sequential run of the backend's calls produces, the backend got the accepted
  records in the order of acceptance, each once, and the others wait in the batch and the queue;
  \<open>failed_records()\<close> counts the writes that were refused or threw.
\<close>

theorem async_logger_is_delayed_synchronous:
  assumes "async_reach accepts (virtual_write_owned (Logger_vtable accepts md wr get put)) get put s0 x"
  shows "run_calls (backend_step (virtual_write_owned (Logger_vtable accepts md wr get put)) get put)
      (map fst (backend_log x)) s0 = (map snd (backend_log x), program x) \<and>
    accepted_records x = written (backend_log x) @ undelivered (worker x) @ queue (logger x) \<and>
    failed_records (logger x) = of_nat (failed_writes (backend_log x))"
  using async_reach_inv [OF assms] by (simp add: async_inv_def)

text \<open>A run: one record is accepted and delivered to a sink that refuses it.\<close>

abbreviation refusing :: "unit sink_write" where
  "refusing \<equiv> \<lambda>target entry s. (Returned False, s)"

abbreviation one_sink :: "unit \<Rightarrow> Logger" where
  "one_sink \<equiv> \<lambda>s. Logger_new [1]"

lemma async_example:
  "\<exists>x. async_reach AcceptAllPolicy
     (virtual_write_owned (Logger_vtable AcceptAllPolicy MinimalMetadataPolicy refusing one_sink (\<lambda>lg s. s)))
     one_sink (\<lambda>lg s. s) () x \<and> accepted_records x = [\<lparr>record_level = INFO, record_error = e\<rparr>] \<and>
     worker x = Delivering [] \<and> queue (logger x) = []"
  (is "\<exists>x. ?reach x \<and> _")
proof -
  let ?r = "\<lparr>record_level = INFO, record_error = e\<rparr>"
  let ?x0 = "async_start ()"
  have acc: "async_enqueue AcceptAllPolicy INFO e (logger ?x0) = Leaves True (async_new\<lparr>queue := [?r]\<rparr>)"
    by (simp add: async_enqueue_def AcceptAllPolicy_def async_start_def async_new_def async_queue_capacity_def)
  let ?x1 = "?x0\<lparr>logger := async_new\<lparr>queue := [?r]\<rparr>, accepted_records := accepted_records ?x0 @ [?r]\<rparr>"
  have x1: "?reach ?x1"
    by (rule async_reach.step [OF async_reach.start async_step.accepted [OF acc]]) (simp add: AcceptAllPolicy_def)
  let ?a2 = "async_new\<lparr>queue := [], batch_active := True\<rparr>"
  let ?x2 = "?x1\<lparr>logger := ?a2, worker := Delivering [?r]\<rparr>"
  have x2: "?reach ?x2"
    by (rule async_reach.step [OF x1 async_step.takes])
      (simp_all add: async_start_def async_take_def async_new_def)
  obtain c a s' where d: "async_deliver (virtual_write_owned (Logger_vtable AcceptAllPolicy MinimalMetadataPolicy
      refusing one_sink (\<lambda>lg s. s))) ?r (logger ?x2) (program ?x2) = (c, a, s')"
    by (metis surj_pair)
  then have "queue a = []" by (auto simp: async_deliver_def async_new_def split: prod.splits if_splits)
  moreover have "?reach (?x2\<lparr>logger := a, worker := Delivering [], program := s',
      backend_log := backend_log ?x2 @ [(Backend_write ?r, c)]\<rparr>)"
    by (rule async_reach.step [OF x2 async_step.delivers [OF _ d]]) simp
  ultimately show ?thesis by (intro exI conjI) (assumption, simp_all add: async_start_def)
qed

theorem async_logger_is_delayed_synchronous_witness:
  "\<exists>x. async_reach AcceptAllPolicy
       (virtual_write_owned (Logger_vtable AcceptAllPolicy MinimalMetadataPolicy refusing one_sink (\<lambda>lg s. s)))
       one_sink (\<lambda>lg s. s) () x \<and>
     accepted_records x = [\<lparr>record_level = INFO, record_error = make_Error NETWORK 1000 ''down''\<rparr>] \<and>
     accepted_records x = written (backend_log (x :: unit async_run))"
proof -
  obtain x where x: "async_reach AcceptAllPolicy
     (virtual_write_owned (Logger_vtable AcceptAllPolicy MinimalMetadataPolicy refusing one_sink (\<lambda>lg s. s)))
     one_sink (\<lambda>lg s. s) () x"
    "accepted_records x = [\<lparr>record_level = INFO, record_error = make_Error NETWORK 1000 ''down''\<rparr>]"
    "worker x = Delivering []" "queue (logger x) = []"
    using async_example by blast
  from async_logger_is_delayed_synchronous [OF x(1)] x show ?thesis by (intro exI [of _ x]) simp
qed

text \<open>
  C35. \<open>flush()\<close> returns, and a background thread that left \<open>run\<close> stopped, only when every accepted
  record has been given to the sinks; after shutdown no write is accepted.
\<close>

theorem flush_and_shutdown_deliver_everything:
  assumes "async_reach accepts backend get put s0 x"
    and "async_drained (logger x) \<or> worker x = Returned_from_run"
  shows "accepted_records x = written (backend_log x) \<and>
    (worker x = Returned_from_run \<longrightarrow> stopping (logger x)) \<and>
    (stopping (logger x) \<and> accepts l \<longrightarrow> async_enqueue accepts l e (logger x) = Leaves False (logger x))"
proof -
  have inv: "async_inv accepts (backend_step backend get put) s0 x" by (rule async_reach_inv [OF assms(1)])
  from assms(2) have "undelivered (worker x) = [] \<and> queue (logger x) = []"
  proof
    assume "async_drained (logger x)"
    with inv show ?thesis by (cases "worker x") (simp_all add: async_inv_def async_drained_def)
  next
    assume "worker x = Returned_from_run"
    with inv show ?thesis by (simp add: async_inv_def)
  qed
  with inv show ?thesis by (simp add: async_inv_def async_enqueue_def)
qed

theorem flush_and_shutdown_deliver_everything_witness:
  "\<exists>y. async_reach AcceptAllPolicy
       (virtual_write_owned (Logger_vtable AcceptAllPolicy MinimalMetadataPolicy refusing one_sink (\<lambda>lg s. s)))
       one_sink (\<lambda>lg s. s) () y \<and>
     accepted_records y = [\<lparr>record_level = INFO, record_error = make_Error NETWORK 1000 ''down''\<rparr>] \<and>
     async_drained (logger y) \<and> accepted_records y = written (backend_log (y :: unit async_run))"
proof -
  obtain x where x: "async_reach AcceptAllPolicy
     (virtual_write_owned (Logger_vtable AcceptAllPolicy MinimalMetadataPolicy refusing one_sink (\<lambda>lg s. s)))
     one_sink (\<lambda>lg s. s) () x"
    "accepted_records x = [\<lparr>record_level = INFO, record_error = make_Error NETWORK 1000 ''down''\<rparr>]"
    "worker x = Delivering []" "queue (logger x) = []"
    using async_example by blast
  let ?y = "x\<lparr>logger := async_finish (logger x), worker := Waiting\<rparr>"
  note y = async_reach.step [OF x(1) async_step.ends_batch [OF x(3)]]
  have drained: "async_drained (logger ?y)" using x(4) by (simp add: async_drained_def async_finish_def)
  from flush_and_shutdown_deliver_everything [OF y disjI1 [OF drained]]
  have "accepted_records ?y = written (backend_log ?y)" by (rule conjunct1)
  with drained x(2) y show ?thesis by (intro exI [of _ ?y]) simp
qed

text \<open>
  Back pressure: the queue and the batch never hold more than 1024 records each; a write that the
  policy drops is reported as accepted without effect, one after shutdown is refused, and otherwise
  it waits exactly when the queue is full.
\<close>

lemma async_queue_is_bounded:
  assumes "async_reach accepts backend get put s0 x"
  shows "length (queue (logger x)) \<le> 1024 \<and> length (undelivered (worker x)) \<le> 1024 \<and>
    (async_enqueue accepts l e (logger x) = Waits \<longleftrightarrow>
       accepts l \<and> \<not> stopping (logger x) \<and> length (queue (logger x)) = 1024) \<and>
    (\<not> accepts l \<longrightarrow> async_enqueue accepts l e (logger x) = Leaves True (logger x)) \<and>
    (accepts l \<and> stopping (logger x) \<longrightarrow> async_enqueue accepts l e (logger x) = Leaves False (logger x))"
  using async_reach_inv [OF assms] by (auto simp: async_inv_def async_enqueue_def async_queue_capacity_def)

lemma async_queue_is_bounded_witness:
  "async_enqueue AcceptAllPolicy INFO (make_Error NETWORK 1000 ''down'') (logger (async_start ())) \<noteq> Waits"
  using async_queue_is_bounded [OF async_reach.start, where accepts = AcceptAllPolicy
      and ?s0.0 = "()" and l = INFO and e = "make_Error NETWORK 1000 ''down''"]
  by (simp add: async_start_def async_new_def)

text \<open>
  The background thread makes progress on its own: from every reachable state a run of its steps
  delivers every accepted record and leaves the logger drained, or, when it is stopping, leaves the
  thread returned from \<open>run\<close>; every one of its steps decreases the work left.
\<close>

lemma background_thread_delivers_everything:
  assumes "async_reach accepts backend get put s0 x"
  shows "(\<exists>y. (async_step accepts backend get put True)\<^sup>*\<^sup>* x y \<and>
      accepted_records x = written (backend_log y) \<and>
      (if stopping (logger x) then worker y = Returned_from_run else async_drained (logger y))) \<and>
    (\<forall>y. async_step accepts backend get put True x y \<longrightarrow> async_work y < async_work x)"
proof
  show "\<forall>y. async_step accepts backend get put True x y \<longrightarrow> async_work y < async_work x"
    using background_step_work by blast
  obtain y where y: "(async_step accepts backend get put True)\<^sup>*\<^sup>* x y" "async_reach accepts backend get put s0 y"
    "background_stuck accepts backend get put y" "accepted_records y = accepted_records x"
    "stopping (logger y) = stopping (logger x)"
    using background_settles [OF assms] by blast
  note inv = async_reach_inv [OF y(2)]
  have "accepted_records y = written (backend_log y) \<and>
      (if stopping (logger y) then worker y = Returned_from_run else async_drained (logger y))"
    using stuck_worker [OF y(3)] inv by (auto simp: async_inv_def async_drained_def)
  with y(1,4,5) show "\<exists>y. (async_step accepts backend get put True)\<^sup>*\<^sup>* x y \<and>
      accepted_records x = written (backend_log y) \<and>
      (if stopping (logger x) then worker y = Returned_from_run else async_drained (logger y))"
    by (intro exI [of _ y]) simp
qed

lemma background_thread_delivers_everything_witness:
  "\<exists>x y. accepted_records (x :: unit async_run) = [\<lparr>record_level = INFO, record_error = make_Error NETWORK 1000 ''down''\<rparr>] \<and>
     accepted_records x = written (backend_log (y :: unit async_run))"
proof -
  obtain x where x: "async_reach AcceptAllPolicy
     (virtual_write_owned (Logger_vtable AcceptAllPolicy MinimalMetadataPolicy refusing one_sink (\<lambda>lg s. s)))
     one_sink (\<lambda>lg s. s) () x"
    "accepted_records x = [\<lparr>record_level = INFO, record_error = make_Error NETWORK 1000 ''down''\<rparr>]"
    using async_example by blast
  from background_thread_delivers_everything [OF x(1), THEN conjunct1]
  obtain y :: "unit async_run" where "accepted_records x = written (backend_log y)" by blast
  with x(2) show ?thesis by (intro exI [of _ x] exI [of _ y]) simp
qed

end
