(* ===== verification/Async_Waiting.thy ===== *)
theory Async_Waiting
  imports Async_Logger
begin

text \<open>
  Waiting in the asynchronous \<open>Logger\<close> of \<open>include/vosp/logger.hpp\<close>: its three condition variables,
  \<open>shutdown_mutex_\<close>, the join, and the calls that a sink makes from within a callback on the
  background thread. A critical section of \<open>mutex_\<close> is one turn of a thread; a thread that waits on
  a condition variable takes no turn until it is notified (or woken without a reason, which may
  happen at any time). Every turn refines a step of the protocol of \<open>Async_Logger\<close>.
\<close>

section \<open>Threads and calls\<close>

datatype thread = Background | Client nat

text \<open>\<open>Publishing\<close> and \<open>Flushing\<close> are about to enter the mutex and evaluate their wait predicates; the
  two \<open>Awaiting\<close> points are blocked on \<open>space_available_\<close> and \<open>drained_\<close>; \<open>Announcing\<close> and \<open>Joining\<close>
  hold \<open>shutdown_mutex_\<close>.\<close>

datatype caller =
    Away
  | Publishing Level Error
  | Awaiting_space Level Error
  | Flushing
  | Awaiting_drain
  | Asking_shutdown
  | Announcing
  | Joining

record 's waiting =
  run :: "'s async_run"
  worker_asleep :: bool
  callers :: "thread \<Rightarrow> caller"
  shutdown_holder :: "thread option"
  worker_joined :: bool

definition waiting_start :: "'s \<Rightarrow> 's waiting" where
  "waiting_start s = \<lparr>run = async_start s, worker_asleep = False, callers = (\<lambda>_. Away),
     shutdown_holder = None, worker_joined = False\<rparr>"

definition at :: "thread \<Rightarrow> caller \<Rightarrow> 's waiting \<Rightarrow> 's waiting" where
  "at th c m = m\<lparr>callers := (callers m)(th := c)\<rparr>"

text \<open>\<open>space_available_.notify_all()\<close> and \<open>drained_.notify_all()\<close>.\<close>

fun space_notified :: "caller \<Rightarrow> caller" where
  "space_notified (Awaiting_space l e) = Publishing l e"
| "space_notified c = c"

fun drain_notified :: "caller \<Rightarrow> caller" where
  "drain_notified Awaiting_drain = Flushing"
| "drain_notified c = c"

definition notify_space :: "'s waiting \<Rightarrow> 's waiting" where
  "notify_space m = m\<lparr>callers := \<lambda>th. space_notified (callers m th)\<rparr>"

definition notify_drained :: "'s waiting \<Rightarrow> 's waiting" where
  "notify_drained m = m\<lparr>callers := \<lambda>th. drain_notified (callers m th)\<rparr>"

section \<open>Turns of callers\<close>

text \<open>Only the background thread waits on \<open>records_available_\<close>, so \<open>notify_one\<close> wakes it.\<close>

definition publish_turn :: "policy \<Rightarrow> thread \<Rightarrow> Level \<Rightarrow> Error \<Rightarrow> 's waiting \<Rightarrow> 's waiting option" where
  "publish_turn accepts th l e m =
     (case async_enqueue accepts l e (logger (run m)) of
        Waits \<Rightarrow> Some (at th (Awaiting_space l e) m)
      | Leaves answer a \<Rightarrow>
          Some (at th Away
            (if answer \<and> accepts l
             then m\<lparr>run := (run m)\<lparr>logger := a,
                      accepted_records := accepted_records (run m) @ [\<lparr>record_level = l, record_error = e\<rparr>]\<rparr>,
                    worker_asleep := False\<rparr>
             else m))
      | Continues a \<Rightarrow> None)"

definition flush_turn :: "thread \<Rightarrow> 's waiting \<Rightarrow> 's waiting" where
  "flush_turn th m = at th (if async_drained (logger (run m)) then Away else Awaiting_drain) m"

definition announce_stop :: "thread \<Rightarrow> 's waiting \<Rightarrow> 's waiting" where
  "announce_stop th m =
     at th Joining (notify_space (m\<lparr>run := (run m)\<lparr>logger := async_shutdown (logger (run m))\<rparr>,
       worker_asleep := False\<rparr>))"

definition join_worker :: "thread \<Rightarrow> 's waiting \<Rightarrow> 's waiting option" where
  "join_worker th m =
     (if worker_joined m \<or> th = Background then Some (at th Away (m\<lparr>shutdown_holder := None\<rparr>))
      else if worker (run m) = Returned_from_run
      then Some (at th Away (m\<lparr>shutdown_holder := None, worker_joined := True\<rparr>))
      else None)"

definition caller_turn :: "policy \<Rightarrow> thread \<Rightarrow> 's waiting \<Rightarrow> 's waiting option" where
  "caller_turn accepts th m =
     (case callers m th of
        Publishing l e \<Rightarrow> publish_turn accepts th l e m
      | Flushing \<Rightarrow> Some (flush_turn th m)
      | Asking_shutdown \<Rightarrow>
          if shutdown_holder m = None then Some (at th Announcing (m\<lparr>shutdown_holder := Some th\<rparr>)) else None
      | Announcing \<Rightarrow> Some (announce_stop th m)
      | Joining \<Rightarrow> join_worker th m
      | _ \<Rightarrow> None)"

section \<open>Turns of the background thread\<close>

definition take_turn :: "'s waiting \<Rightarrow> 's waiting option" where
  "take_turn m =
     (case async_take [] (logger (run m)) of
        Waits \<Rightarrow> Some (m\<lparr>worker_asleep := True\<rparr>)
      | Continues (batch, a) \<Rightarrow>
          Some (notify_space (m\<lparr>run := (run m)\<lparr>logger := a, worker := Delivering batch\<rparr>\<rparr>))
      | Leaves b (batch, a) \<Rightarrow>
          Some (notify_drained (m\<lparr>run := (run m)\<lparr>logger := a, worker := Returned_from_run\<rparr>\<rparr>)))"

definition deliver_turn :: "(Level \<Rightarrow> Error \<Rightarrow> ('s, bool) callable) \<Rightarrow> PendingRecord \<Rightarrow> PendingRecord list \<Rightarrow>
    's waiting \<Rightarrow> 's waiting" where
  "deliver_turn backend r rs m =
     (case async_deliver backend r (logger (run m)) (program (run m)) of (answer, a, s') \<Rightarrow>
        m\<lparr>run := (run m)\<lparr>logger := a, worker := Delivering rs, program := s',
            backend_log := backend_log (run m) @ [(Backend_write r, answer)]\<rparr>\<rparr>)"

definition finish_turn :: "'s waiting \<Rightarrow> 's waiting" where
  "finish_turn m =
     (let m' = m\<lparr>run := (run m)\<lparr>logger := async_finish (logger (run m)), worker := Waiting\<rparr>\<rparr> in
      if queue (logger (run m)) = [] then notify_drained m' else m')"

text \<open>A sink's own calls come before the callback returns, so the loop goes on only when they have.\<close>

definition background_turn :: "(Level \<Rightarrow> Error \<Rightarrow> ('s, bool) callable) \<Rightarrow> 's waiting \<Rightarrow> 's waiting option" where
  "background_turn backend m =
     (if callers m Background \<noteq> Away then None
      else case worker (run m) of
        Waiting \<Rightarrow> if worker_asleep m then None else take_turn m
      | Delivering [] \<Rightarrow> Some (finish_turn m)
      | Delivering (r # rs) \<Rightarrow> Some (deliver_turn backend r rs m)
      | Returned_from_run \<Rightarrow> None)"

definition thread_turn :: "policy \<Rightarrow> (Level \<Rightarrow> Error \<Rightarrow> ('s, bool) callable) \<Rightarrow> 's waiting \<Rightarrow> 's waiting \<Rightarrow> bool" where
  "thread_turn accepts backend m m' \<longleftrightarrow>
     (\<exists>th. caller_turn accepts th m = Some m') \<or> background_turn backend m = Some m'"

section \<open>The machine\<close>

text \<open>Calls may begin on any client thread, and on the background thread inside a callback.\<close>

definition may_begin :: "thread \<Rightarrow> 's waiting \<Rightarrow> bool" where
  "may_begin th m \<longleftrightarrow> callers m th = Away \<and>
     (th = Background \<longrightarrow> (case worker (run m) of Delivering (r # rs) \<Rightarrow> True | _ \<Rightarrow> False))"

fun async_entry :: "caller \<Rightarrow> bool" where
  "async_entry (Publishing l e) = True"
| "async_entry Flushing = True"
| "async_entry Asking_shutdown = True"
| "async_entry _ = False"

inductive waiting_step :: "policy \<Rightarrow> (Level \<Rightarrow> Error \<Rightarrow> ('s, bool) callable) \<Rightarrow> ('s \<Rightarrow> Logger) \<Rightarrow>
    (Logger \<Rightarrow> 's \<Rightarrow> 's) \<Rightarrow> 's waiting \<Rightarrow> 's waiting \<Rightarrow> bool"
  for accepts backend get put where
  turns: "thread_turn accepts backend m m' \<Longrightarrow> waiting_step accepts backend get put m m'"
| begins: "may_begin th m \<Longrightarrow> async_entry c \<Longrightarrow> waiting_step accepts backend get put m (at th c m)"
| wakes: "callers m th = Awaiting_space l e \<or> callers m th = Awaiting_drain \<Longrightarrow>
     waiting_step accepts backend get put m
       (at th (drain_notified (space_notified (callers m th))) m)"
| wakes_worker: "waiting_step accepts backend get put m (m\<lparr>worker_asleep := False\<rparr>)"
| registers: "backend_step backend get put (Backend_register c) (program (run m)) = (answer, s') \<Longrightarrow>
     waiting_step accepts backend get put m
       (m\<lparr>run := (run m)\<lparr>program := s', backend_log := backend_log (run m) @ [(Backend_register c, answer)]\<rparr>\<rparr>)"

inductive waiting_reach :: "policy \<Rightarrow> (Level \<Rightarrow> Error \<Rightarrow> ('s, bool) callable) \<Rightarrow> ('s \<Rightarrow> Logger) \<Rightarrow>
    (Logger \<Rightarrow> 's \<Rightarrow> 's) \<Rightarrow> 's \<Rightarrow> 's waiting \<Rightarrow> bool"
  for accepts backend get put s0 where
  constructed: "waiting_reach accepts backend get put s0 (waiting_start s0)"
| continued: "waiting_reach accepts backend get put s0 m \<Longrightarrow> waiting_step accepts backend get put m m' \<Longrightarrow>
     waiting_reach accepts backend get put s0 m'"

section \<open>Refinement of the protocol\<close>

lemma at_simps [simp]:
  "run (at th c m) = run m" "worker_asleep (at th c m) = worker_asleep m"
  "callers (at th c m) = (callers m)(th := c)" "shutdown_holder (at th c m) = shutdown_holder m"
  "worker_joined (at th c m) = worker_joined m"
  by (simp_all add: at_def)

lemma notify_simps [simp]:
  "run (notify_space m) = run m" "worker_asleep (notify_space m) = worker_asleep m"
  "callers (notify_space m) th = space_notified (callers m th)"
  "shutdown_holder (notify_space m) = shutdown_holder m" "worker_joined (notify_space m) = worker_joined m"
  "run (notify_drained m) = run m" "worker_asleep (notify_drained m) = worker_asleep m"
  "callers (notify_drained m) th = drain_notified (callers m th)"
  "shutdown_holder (notify_drained m) = shutdown_holder m" "worker_joined (notify_drained m) = worker_joined m"
  by (simp_all add: notify_space_def notify_drained_def)


lemma publish_turn_run:
  assumes "publish_turn accepts th l e m = Some m'"
  shows "run m' = run m \<or> async_step accepts backend get put False (run m) (run m')"
proof (cases "async_enqueue accepts l e (logger (run m))")
  case Waits
  with assms show ?thesis by (auto simp: publish_turn_def)
next
  case (Continues a)
  with assms show ?thesis by (simp add: publish_turn_def)
next
  case (Leaves answer a)
  show ?thesis
  proof (cases "answer \<and> accepts l")
    case True
    with Leaves have "async_enqueue accepts l e (logger (run m)) = Leaves True a" by simp
    from async_step.accepted [OF this] True assms Leaves show ?thesis by (auto simp: publish_turn_def)
  next
    case False
    with assms Leaves show ?thesis by (auto simp: publish_turn_def)
  qed
qed

lemma caller_turn_run:
  assumes "caller_turn accepts th m = Some m'"
  shows "run m' = run m \<or> async_step accepts backend get put False (run m) (run m')"
proof (cases "callers m th")
  case (Publishing l e)
  with assms have "publish_turn accepts th l e m = Some m'" by (simp add: caller_turn_def)
  then show ?thesis by (rule publish_turn_run)
next
  case Announcing
  with assms have "run m' = (run m)\<lparr>logger := async_shutdown (logger (run m))\<rparr>"
    by (auto simp: caller_turn_def announce_stop_def)
  then show ?thesis by (simp add: async_step.shuts_down)
qed (use assms in \<open>auto simp: caller_turn_def flush_turn_def join_worker_def split: if_splits\<close>)

lemma background_turn_moves:
  assumes "background_turn backend m = Some m'"
  shows "(m' = m\<lparr>worker_asleep := True\<rparr> \<and> worker (run m) = Waiting \<and> \<not> worker_asleep m) \<or>
    async_step accepts backend get put True (run m) (run m')"
proof (cases "worker (run m)")
  case Waiting
  with assms have turn: "take_turn m = Some m'" and awake: "\<not> worker_asleep m"
    by (auto simp: background_turn_def split: if_splits)
  show ?thesis
  proof (cases "async_take [] (logger (run m))")
    case Waits
    with turn awake Waiting show ?thesis by (auto simp: take_turn_def)
  next
    case (Continues r)
    with turn async_step.takes [OF Waiting] show ?thesis by (cases r) (auto simp: take_turn_def)
  next
    case (Leaves b r)
    with turn async_step.leaves [OF Waiting] show ?thesis by (cases r) (auto simp: take_turn_def)
  qed
next
  case (Delivering rs)
  show ?thesis
  proof (cases rs)
    case Nil
    with Delivering async_step.ends_batch [of "run m"] assms show ?thesis
      by (auto simp: background_turn_def finish_turn_def Let_def split: if_splits)
  next
    case (Cons r rs')
    obtain answer a s' where d: "async_deliver backend r (logger (run m)) (program (run m)) = (answer, a, s')"
      by (metis surj_pair)
    from Delivering Cons have "worker (run m) = Delivering (r # rs')" by simp
    from async_step.delivers [OF this d] this d assms show ?thesis
      by (auto simp: background_turn_def deliver_turn_def split: if_splits)
  qed
next
  case Returned_from_run
  with assms show ?thesis by (simp add: background_turn_def split: if_splits)
qed

lemma background_turn_run:
  assumes "background_turn backend m = Some m'"
  shows "run m' = run m \<or> async_step accepts backend get put True (run m) (run m')"
  using background_turn_moves [OF assms, of accepts get put] by auto

lemma waiting_step_run:
  assumes "waiting_step accepts backend get put m m'"
  shows "run m' = run m \<or> (\<exists>background. async_step accepts backend get put background (run m) (run m'))"
  using assms
proof cases
  case turns
  then show ?thesis using caller_turn_run background_turn_run unfolding thread_turn_def by blast
next
  case (registers c answer s')
  then show ?thesis using async_step.registers [OF registers(2)] by auto
qed auto

lemma waiting_reach_run:
  "waiting_reach accepts backend get put s0 m \<Longrightarrow> async_reach accepts backend get put s0 (run m)"
proof (induction rule: waiting_reach.induct)
  case constructed
  then show ?case by (simp add: waiting_start_def async_reach.start)
next
  case (continued m m')
  then show ?case using waiting_step_run async_reach.step by metis
qed

section \<open>What a blocked thread waits for\<close>

definition announced :: "'s waiting \<Rightarrow> bool" where
  "announced m \<longleftrightarrow>
     (worker_asleep m \<longrightarrow> worker (run m) = Waiting \<and> queue (logger (run m)) = [] \<and> \<not> stopping (logger (run m))) \<and>
     (\<forall>th l e. callers m th = Awaiting_space l e \<longrightarrow>
        \<not> stopping (logger (run m)) \<and> async_queue_capacity \<le> length (queue (logger (run m)))) \<and>
     (\<forall>th. callers m th = Awaiting_drain \<longrightarrow> \<not> async_drained (logger (run m)))"

definition shutdown_ok :: "'s waiting \<Rightarrow> bool" where
  "shutdown_ok m \<longleftrightarrow>
     (\<forall>th. callers m th = Announcing \<or> callers m th = Joining \<longleftrightarrow> shutdown_holder m = Some th) \<and>
     (\<forall>th. callers m th = Joining \<longrightarrow> stopping (logger (run m))) \<and>
     (worker_joined m \<longrightarrow> worker (run m) = Returned_from_run) \<and>
     (callers m Background \<noteq> Away \<longrightarrow> (\<exists>r rs. worker (run m) = Delivering (r # rs)))"

lemma space_notified_iff [simp]:
  "space_notified c \<noteq> Awaiting_space l e" "Awaiting_space l e \<noteq> space_notified c"
  "space_notified c = Awaiting_drain \<longleftrightarrow> c = Awaiting_drain" "space_notified c = Announcing \<longleftrightarrow> c = Announcing"
  "space_notified c = Joining \<longleftrightarrow> c = Joining" "space_notified c = Away \<longleftrightarrow> c = Away"
  by (cases c; simp)+

lemma drain_notified_iff [simp]:
  "drain_notified c \<noteq> Awaiting_drain" "drain_notified c = Awaiting_space l e \<longleftrightarrow> c = Awaiting_space l e"
  "drain_notified c = Announcing \<longleftrightarrow> c = Announcing" "drain_notified c = Joining \<longleftrightarrow> c = Joining"
  "drain_notified c = Away \<longleftrightarrow> c = Away"
  by (cases c; simp)+

lemma announcedI:
  assumes "worker_asleep m \<Longrightarrow> worker (run m) = Waiting \<and> queue (logger (run m)) = [] \<and> \<not> stopping (logger (run m))"
    and "\<And>th l e. callers m th = Awaiting_space l e \<Longrightarrow>
      \<not> stopping (logger (run m)) \<and> async_queue_capacity \<le> length (queue (logger (run m)))"
    and "\<And>th. callers m th = Awaiting_drain \<Longrightarrow> \<not> async_drained (logger (run m))"
  shows "announced m"
  using assms unfolding announced_def by blast

lemma announcedD:
  assumes "announced m"
  shows "worker_asleep m \<Longrightarrow> worker (run m) = Waiting \<and> queue (logger (run m)) = [] \<and> \<not> stopping (logger (run m))"
    and "callers m th = Awaiting_space l e \<Longrightarrow>
      \<not> stopping (logger (run m)) \<and> async_queue_capacity \<le> length (queue (logger (run m)))"
    and "callers m th = Awaiting_drain \<Longrightarrow> \<not> async_drained (logger (run m))"
  using assms unfolding announced_def by blast+

text \<open>Only its own turns, and the wake-ups, move a caller.\<close>

lemma shutdown_ok_same:
  assumes "shutdown_ok m" and "shutdown_holder m' = shutdown_holder m" and "worker_joined m' = worker_joined m"
    and "\<And>th c. c \<in> {Announcing, Joining, Away} \<Longrightarrow> callers m' th = c \<longleftrightarrow> callers m th = c"
    and "stopping (logger (run m')) = stopping (logger (run m))"
    and "worker_joined m \<Longrightarrow> worker (run m') = Returned_from_run"
    and "callers m Background \<noteq> Away \<Longrightarrow> worker (run m') = worker (run m)"
  shows "shutdown_ok m'"
  using assms(1) assms(4) [of Announcing] assms(4) [of Joining] assms(4) [of Away] assms(6,7)
  by (simp add: shutdown_ok_def assms(2,3,5))

lemma shutdown_ok_mover:
  assumes "shutdown_ok m" and "callers m' = (callers m)(th := c)"
    and "shutdown_holder m' = shutdown_holder m" and "worker_joined m' = worker_joined m"
    and "stopping (logger (run m')) = stopping (logger (run m))" and "worker (run m') = worker (run m)"
    and "c \<notin> {Announcing, Joining}" and "callers m th \<notin> {Announcing, Joining, Away}"
  shows "shutdown_ok m'"
  using assms(1,7,8) by (auto simp: shutdown_ok_def assms(2-6))

lemma publish_turn_ok:
  assumes "publish_turn accepts th l e m = Some m'" and "callers m th = Publishing l e"
    and "announced m" and "shutdown_ok m"
  shows "announced m' \<and> shutdown_ok m'"
proof (cases "async_enqueue accepts l e (logger (run m))")
  case Waits
  with assms(1) have m': "m' = at th (Awaiting_space l e) m" by (simp add: publish_turn_def)
  have full: "\<not> stopping (logger (run m))" "async_queue_capacity \<le> length (queue (logger (run m)))"
    using Waits by (auto simp: async_enqueue_def split: if_splits)
  have "announced m'"
    by (rule announcedI) (use full announcedD [OF assms(3)] in \<open>auto simp: m' split: if_splits\<close>)
  moreover have "shutdown_ok m'"
    by (rule shutdown_ok_mover [OF assms(4), where th = th and c = "Awaiting_space l e"])
      (simp_all add: m' assms(2))
  ultimately show ?thesis ..
next
  case (Continues a)
  with assms show ?thesis by (simp add: publish_turn_def)
next
  case (Leaves answer a)
  then have a: "queue a = queue (logger (run m)) @ [\<lparr>record_level = l, record_error = e\<rparr>]"
      "stopping a = stopping (logger (run m))" "batch_active a = batch_active (logger (run m))"
    if "answer" "accepts l" using that by (auto simp: async_enqueue_def split: if_splits)
  note old = announcedD [OF assms(3)]
  have "announced m'"
  proof (cases "answer \<and> accepts l")
    case True
    then have m': "m' = at th Away (m\<lparr>run := (run m)\<lparr>logger := a,
          accepted_records := accepted_records (run m) @ [\<lparr>record_level = l, record_error = e\<rparr>]\<rparr>,
        worker_asleep := False\<rparr>)"
      using assms(1) Leaves by (simp add: publish_turn_def)
    have "\<And>u k f. callers m u = Awaiting_space k f \<Longrightarrow> async_queue_capacity \<le> length (queue a)"
      using old(2) a(1) True by (metis le_SucI length_append_singleton)
    then show ?thesis
      by (intro announcedI) (use a old(2) True in \<open>auto simp: m' async_drained_def split: if_splits\<close>)
  next
    case False
    then have m': "m' = at th Away m" using assms(1) Leaves by (auto simp: publish_turn_def)
    show ?thesis by (rule announcedI) (use old in \<open>auto simp: m' split: if_splits\<close>)
  qed
  moreover have "shutdown_ok m'"
    by (rule shutdown_ok_mover [OF assms(4), where th = th and c = Away])
      (use assms(1,2) Leaves a in \<open>auto simp: publish_turn_def split: if_splits\<close>)
  ultimately show ?thesis ..
qed

lemma caller_turn_ok:
  assumes "caller_turn accepts th m = Some m'" and "announced m" and "shutdown_ok m"
  shows "announced m' \<and> shutdown_ok m'"
proof (cases "callers m th")
  case (Publishing l e)
  with assms have "publish_turn accepts th l e m = Some m'" by (simp add: caller_turn_def)
  from publish_turn_ok [OF this Publishing assms(2,3)] show ?thesis .
next
  case Flushing
  with assms(1) have m': "m' = flush_turn th m" by (simp add: caller_turn_def)
  have "announced m'"
    by (rule announcedI) (use announcedD [OF assms(2)] in \<open>auto simp: m' flush_turn_def split: if_splits\<close>)
  moreover have "shutdown_ok m'"
    by (rule shutdown_ok_mover [OF assms(3), where th = th
          and c = "if async_drained (logger (run m)) then Away else Awaiting_drain"])
      (simp_all add: m' flush_turn_def Flushing)
  ultimately show ?thesis ..
next
  case Asking_shutdown
  with assms(1) have m': "m' = at th Announcing (m\<lparr>shutdown_holder := Some th\<rparr>)" and free: "shutdown_holder m = None"
    by (auto simp: caller_turn_def split: if_splits)
  have "announced m'"
    by (rule announcedI) (use announcedD [OF assms(2)] in \<open>auto simp: m' split: if_splits\<close>)
  moreover have "callers m u \<noteq> Announcing \<and> callers m u \<noteq> Joining" for u
    using assms(3) free by (auto simp: shutdown_ok_def)
  then have "shutdown_ok m'" using assms(3) Asking_shutdown by (auto simp: m' shutdown_ok_def)
  ultimately show ?thesis ..
next
  case Announcing
  with assms(1) have m': "m' = announce_stop th m" by (simp add: caller_turn_def)
  have "announced m'"
    by (rule announcedI)
      (use announcedD [OF assms(2)] in \<open>auto simp: m' announce_stop_def async_shutdown_def async_drained_def split: if_splits\<close>)
  moreover have "shutdown_ok m'"
    using assms(3) Announcing by (auto simp: m' announce_stop_def async_shutdown_def shutdown_ok_def)
  ultimately show ?thesis ..
next
  case Joining
  then have holder: "shutdown_holder m = Some th" using assms(3) unfolding shutdown_ok_def by blast
  have turn: "join_worker th m = Some m'" using assms(1) Joining by (simp add: caller_turn_def)
  have "announced m'"
    by (rule announcedI)
      (use turn announcedD [OF assms(2)] in \<open>auto simp: join_worker_def split: if_splits\<close>)
  moreover have "\<forall>u. callers m u = Announcing \<or> callers m u = Joining \<longrightarrow> u = th"
    using assms(3) holder unfolding shutdown_ok_def by (metis option.inject)
  then have "shutdown_ok m'"
    using turn assms(3) by (auto simp: join_worker_def shutdown_ok_def split: if_splits)
  ultimately show ?thesis ..
qed (use assms in \<open>auto simp: caller_turn_def\<close>)

lemma take_turn_ok:
  assumes "take_turn m = Some m'" and "worker (run m) = Waiting" and "announced m" and "shutdown_ok m"
  shows "announced m' \<and> shutdown_ok m'"
proof (cases "async_take [] (logger (run m))")
  case Waits
  then have "queue (logger (run m)) = []" "\<not> stopping (logger (run m))" by (auto simp: async_take_def split: if_splits)
  moreover from Waits assms(1) have m': "m' = m\<lparr>worker_asleep := True\<rparr>" by (simp add: take_turn_def)
  moreover have "shutdown_ok m'"
    by (rule shutdown_ok_same [OF assms(4)]) (use assms(2,4) in \<open>auto simp: m' shutdown_ok_def\<close>)
  ultimately show ?thesis using assms(2,3) by (simp add: announced_def)
next
  case (Continues r)
  obtain batch a where r: "r = (batch, a)" by (cases r)
  then have a: "stopping a = stopping (logger (run m))" "batch_active a"
    and more: "stopping (logger (run m)) \<or> queue (logger (run m)) \<noteq> []"
    using Continues by (auto simp: async_take_def split: if_splits)
  have m': "m' = notify_space (m\<lparr>run := (run m)\<lparr>logger := a, worker := Delivering batch\<rparr>\<rparr>)"
    using Continues r assms(1) by (simp add: take_turn_def)
  have "\<not> worker_asleep m" using more announcedD(1) [OF assms(3)] by blast
  then have "announced m'"
    by (intro announcedI) (use a in \<open>auto simp: m' async_drained_def\<close>)
  moreover have "shutdown_ok m'"
    by (rule shutdown_ok_same [OF assms(4)])
      (use a assms(2,4) in \<open>auto simp: m' shutdown_ok_def\<close>)
  ultimately show ?thesis ..
next
  case (Leaves b r)
  obtain batch a where r: "r = (batch, a)" by (cases r)
  then have a: "a = logger (run m)" "stopping a"
    using Leaves by (auto simp: async_take_def split: if_splits)
  have m': "m' = notify_drained (m\<lparr>run := (run m)\<lparr>worker := Returned_from_run\<rparr>\<rparr>)"
    using Leaves r a assms(1) by (simp add: take_turn_def)
  have "\<not> worker_asleep m" using a announcedD(1) [OF assms(3)] by blast
  then have "announced m'"
    by (intro announcedI) (use announcedD(2) [OF assms(3)] in \<open>auto simp: m'\<close>)
  moreover have "shutdown_ok m'"
    by (rule shutdown_ok_same [OF assms(4)])
      (use assms(2,4) in \<open>auto simp: m' shutdown_ok_def\<close>)
  ultimately show ?thesis ..
qed

lemma background_turn_ok:
  assumes "background_turn backend m = Some m'" and "announced m" and "shutdown_ok m"
  shows "announced m' \<and> shutdown_ok m'"
proof -
  have away: "callers m Background = Away" using assms(1) by (simp add: background_turn_def split: if_splits)
  show ?thesis
  proof (cases "worker (run m)")
    case Waiting
    with assms away have "take_turn m = Some m'" by (auto simp: background_turn_def split: if_splits)
    then show ?thesis using take_turn_ok Waiting assms(2,3) by blast
  next
    case (Delivering rs)
    have awake: "\<not> worker_asleep m" using Delivering announcedD(1) [OF assms(2)] by auto
    have unjoined: "\<not> worker_joined m" using Delivering assms(3) by (auto simp: shutdown_ok_def)
    show ?thesis
    proof (cases rs)
      case Nil
      with Delivering assms away have m': "m' = finish_turn m" by (simp add: background_turn_def)
      have "announced m'"
        by (rule announcedI)
          (use awake announcedD(2,3) [OF assms(2)] in
            \<open>auto simp: m' finish_turn_def Let_def async_finish_def async_drained_def split: if_splits\<close>)
      moreover have "shutdown_ok m'"
        by (rule shutdown_ok_same [OF assms(3)])
          (use away unjoined in \<open>auto simp: m' finish_turn_def Let_def async_finish_def\<close>)
      ultimately show ?thesis ..
    next
      case (Cons r rs')
      obtain answer a s' where d: "async_deliver backend r (logger (run m)) (program (run m)) = (answer, a, s')"
        by (metis surj_pair)
      then have a: "queue a = queue (logger (run m))" "stopping a = stopping (logger (run m))"
          "batch_active a = batch_active (logger (run m))"
        by (auto simp: async_deliver_def split: prod.splits if_splits)
      have m': "m' = deliver_turn backend r rs' m" using Delivering Cons assms(1) away by (simp add: background_turn_def)
      have "announced m'"
        by (rule announcedI)
          (use awake a d announcedD(2,3) [OF assms(2)] in \<open>auto simp: m' deliver_turn_def async_drained_def\<close>)
      moreover have "shutdown_ok m'"
        by (rule shutdown_ok_same [OF assms(3)])
          (use away unjoined a d in \<open>auto simp: m' deliver_turn_def\<close>)
      ultimately show ?thesis ..
    qed
  next
    case Returned_from_run
    with assms(1) show ?thesis by (simp add: background_turn_def split: if_splits)
  qed
qed

lemma thread_turn_ok:
  "thread_turn accepts backend m m' \<Longrightarrow> announced m \<Longrightarrow> shutdown_ok m \<Longrightarrow> announced m' \<and> shutdown_ok m'"
  unfolding thread_turn_def using caller_turn_ok background_turn_ok by blast

lemma begin_ok:
  assumes "may_begin th m" and "async_entry c" and "announced m" and "shutdown_ok m"
  shows "announced (at th c m) \<and> shutdown_ok (at th c m)"
proof
  have c: "c \<noteq> Awaiting_space l e" "c \<noteq> Awaiting_drain" "c \<noteq> Announcing" "c \<noteq> Joining" for l e
    using assms(2) by (cases c; simp)+
  show "announced (at th c m)"
    by (rule announcedI) (use c announcedD [OF assms(3)] in \<open>auto split: if_splits\<close>)
  have "callers m th = Away" and "th = Background \<Longrightarrow> \<exists>r rs. worker (run m) = Delivering (r # rs)"
    using assms(1) by (auto simp: may_begin_def split: delivery.splits list.splits)
  moreover from this(1) have "shutdown_holder m \<noteq> Some th"
    using assms(4) unfolding shutdown_ok_def by (metis caller.distinct(11,13))
  ultimately show "shutdown_ok (at th c m)" using assms(4) c by (auto simp: shutdown_ok_def)
qed

lemma waiting_step_ok:
  assumes "waiting_step accepts backend get put m m'" and "announced m" and "shutdown_ok m"
  shows "announced m' \<and> shutdown_ok m'"
  using assms(1)
proof cases
  case turns
  then show ?thesis using thread_turn_ok assms(2,3) by blast
next
  case (begins th c)
  then show ?thesis using begin_ok assms(2,3) by blast
next
  case (wakes th l e)
  then have moved: "drain_notified (space_notified (callers m th)) \<in> {Publishing l e, Flushing}" by auto
  have "announced m'"
    by (rule announcedI) (use moved announcedD [OF assms(2)] in \<open>auto simp: wakes(1) split: if_splits\<close>)
  moreover have "shutdown_ok m'"
    by (rule shutdown_ok_mover [OF assms(3), where th = th and c = "drain_notified (space_notified (callers m th))"])
      (use moved wakes in auto)
  ultimately show ?thesis ..
next
  case wakes_worker
  then show ?thesis using assms(2,3) by (simp add: announced_def shutdown_ok_def)
next
  case (registers c answer s')
  then show ?thesis using assms(2,3) by (simp add: announced_def shutdown_ok_def)
qed

lemma waiting_reach_ok: "waiting_reach accepts backend get put s0 m \<Longrightarrow> announced m \<and> shutdown_ok m"
proof (induction rule: waiting_reach.induct)
  case constructed
  then show ?case by (simp add: announced_def shutdown_ok_def waiting_start_def)
next
  case (continued m m')
  then show ?case using waiting_step_ok by blast
qed

section \<open>A machine at rest\<close>

definition at_rest :: "policy \<Rightarrow> (Level \<Rightarrow> Error \<Rightarrow> ('s, bool) callable) \<Rightarrow> 's waiting \<Rightarrow> bool" where
  "at_rest accepts backend m \<longleftrightarrow> (\<forall>m'. \<not> thread_turn accepts backend m m')"

lemma take_turn_total: "\<exists>m'. take_turn m = Some m'"
  by (auto simp: take_turn_def split: section_result.split)

lemma resting_background:
  assumes "at_rest accepts backend m" and "callers m Background = Away"
  shows "(worker (run m) = Waiting \<and> worker_asleep m) \<or> worker (run m) = Returned_from_run"
proof -
  have none: "background_turn backend m = None"
    using assms(1) unfolding at_rest_def thread_turn_def by (cases "background_turn backend m") auto
  show ?thesis
  proof (cases "worker (run m)")
    case Waiting
    then show ?thesis using none assms(2) take_turn_total [of m] by (auto simp: background_turn_def split: if_splits)
  next
    case (Delivering rs)
    then show ?thesis using none assms(2) by (cases rs) (simp_all add: background_turn_def)
  qed simp
qed

lemma publish_turn_total: "publish_turn accepts th l e m \<noteq> None"
proof (cases "async_enqueue accepts l e (logger (run m))")
  case (Continues a)
  then show ?thesis by (simp add: async_enqueue_def split: if_splits)
qed (simp_all add: publish_turn_def)

lemma resting_caller:
  assumes "at_rest accepts backend m"
  shows "callers m th \<in> {Away, Awaiting_drain, Asking_shutdown, Joining} \<or> (\<exists>l e. callers m th = Awaiting_space l e)"
    and "callers m th = Asking_shutdown \<Longrightarrow> shutdown_holder m \<noteq> None"
    and "callers m th = Joining \<Longrightarrow> \<not> worker_joined m \<and> th \<noteq> Background \<and> worker (run m) \<noteq> Returned_from_run"
proof -
  have none: "caller_turn accepts th m = None"
    using assms unfolding at_rest_def thread_turn_def by (cases "caller_turn accepts th m") auto
  show "callers m th \<in> {Away, Awaiting_drain, Asking_shutdown, Joining} \<or> (\<exists>l e. callers m th = Awaiting_space l e)"
    using none publish_turn_total [of accepts th _ _ m] by (cases "callers m th") (auto simp: caller_turn_def)
  show "callers m th = Asking_shutdown \<Longrightarrow> shutdown_holder m \<noteq> None"
    using none by (auto simp: caller_turn_def split: if_splits)
  show "callers m th = Joining \<Longrightarrow> \<not> worker_joined m \<and> th \<noteq> Background \<and> worker (run m) \<noteq> Returned_from_run"
    using none by (auto simp: caller_turn_def join_worker_def split: if_splits)
qed

lemma async_rest_is_complete:
  assumes "waiting_reach accepts backend get put s0 m" and "at_rest accepts backend m"
    and "callers m Background = Away"
  shows "callers m th = Away" and "accepted_records (run m) = written (backend_log (run m))"
    and "if stopping (logger (run m)) then worker (run m) = Returned_from_run
         else worker (run m) = Waiting \<and> worker_asleep m"
proof -
  have ok: "announced m" "shutdown_ok m" using waiting_reach_ok [OF assms(1)] by simp_all
  have inv: "async_inv accepts (backend_step backend get put) s0 (run m)"
    by (rule async_reach_inv [OF waiting_reach_run [OF assms(1)]])
  note worker = resting_background [OF assms(2,3)]
  have empty: "queue (logger (run m)) = []" "undelivered (worker (run m)) = []"
      "\<not> batch_active (logger (run m))"
    using worker announcedD(1) [OF ok(1)] inv by (auto simp: async_inv_def)
  have stop: "stopping (logger (run m)) \<longleftrightarrow> worker (run m) = Returned_from_run"
    using worker announcedD(1) [OF ok(1)] inv by (auto simp: async_inv_def)
  show "accepted_records (run m) = written (backend_log (run m))" using inv empty by (simp add: async_inv_def)
  show "if stopping (logger (run m)) then worker (run m) = Returned_from_run
      else worker (run m) = Waiting \<and> worker_asleep m" using worker stop by auto
  have no_join: "callers m u \<noteq> Joining" for u
    using resting_caller(3) [OF assms(2), of u] ok(2) stop unfolding shutdown_ok_def by blast
  have "callers m u \<noteq> Announcing" for u using resting_caller(1) [OF assms(2), of u] by auto
  with no_join have "shutdown_holder m = None"
    using ok(2) unfolding shutdown_ok_def by (metis option.exhaust)
  then have "callers m th \<noteq> Asking_shutdown" using resting_caller(2) [OF assms(2)] by blast
  moreover have "callers m th \<noteq> Awaiting_drain"
    using announcedD(3) [OF ok(1)] empty by (auto simp: async_drained_def)
  moreover have "callers m th \<noteq> Awaiting_space l e" for l e
    using announcedD(2) [OF ok(1)] empty by (auto simp: async_queue_capacity_def)
  ultimately show "callers m th = Away" using resting_caller(1) [OF assms(2), of th] no_join [of th] by auto
qed


section \<open>Turns come to an end\<close>

text \<open>What is left to do: the work of the background thread, and the turns that the calls in progress
  have before them; a publication may still add three turns of the background thread.\<close>

fun units :: "caller \<Rightarrow> nat" where
  "units Away = 0"
| "units (Publishing l e) = 4"
| "units (Awaiting_space l e) = 4"
| "units Flushing = 1"
| "units Awaiting_drain = 1"
| "units Asking_shutdown = 3"
| "units Announcing = 2"
| "units Joining = 1"

fun restless :: "caller \<Rightarrow> nat" where
  "restless (Publishing l e) = 1"
| "restless Flushing = 1"
| "restless c = 0"

definition total :: "(caller \<Rightarrow> nat) \<Rightarrow> (thread \<Rightarrow> caller) \<Rightarrow> nat" where
  "total f g = (\<Sum>th \<in> {th. g th \<noteq> Away}. f (g th))"

definition budget :: "'s waiting \<Rightarrow> nat" where
  "budget m = async_work (run m) + total units (callers m)"

definition unrest :: "'s waiting \<Rightarrow> nat" where
  "unrest m = (if worker (run m) = Waiting \<and> \<not> worker_asleep m then 1 else 0) + total restless (callers m)"

abbreviation finitely_many :: "'s waiting \<Rightarrow> bool" where
  "finitely_many m \<equiv> finite {th. callers m th \<noteq> Away}"

lemma total_over:
  assumes "finite A" and "{th. g th \<noteq> Away} \<subseteq> A" and "f Away = 0"
  shows "total f g = (\<Sum>th \<in> A. f (g th))"
  unfolding total_def by (rule sum.mono_neutral_left) (use assms in auto)

lemma total_upd:
  assumes "finite {th. g th \<noteq> Away}" and "f Away = 0"
  shows "total f (g(th := c)) + f (g th) = total f g + f c"
proof -
  let ?A = "insert th {u. g u \<noteq> Away}"
  have fin: "finite ?A" using assms(1) by simp
  have "total f (g(th := c)) = (\<Sum>u \<in> ?A. f ((g(th := c)) u))"
    by (rule total_over) (use fin assms(2) in auto)
  also have "\<dots> = f c + (\<Sum>u \<in> ?A - {th}. f ((g(th := c)) u))" using fin by (subst sum.remove [of _ th]) auto
  also have "(\<Sum>u \<in> ?A - {th}. f ((g(th := c)) u)) = (\<Sum>u \<in> ?A - {th}. f (g u))" by (rule sum.cong) auto
  finally have new: "total f (g(th := c)) = f c + (\<Sum>u \<in> ?A - {th}. f (g u))" .
  have "total f g = (\<Sum>u \<in> ?A. f (g u))" by (rule total_over) (use fin assms(2) in auto)
  also have "\<dots> = f (g th) + (\<Sum>u \<in> ?A - {th}. f (g u))" using fin by (subst sum.remove [of _ th]) auto
  finally show ?thesis using new by simp
qed

lemma units_notified [simp]: "units (space_notified c) = units c" "units (drain_notified c) = units c"
  by (cases c; simp)+

lemma total_notified [simp]:
  "total units (callers (notify_space m)) = total units (callers m)"
  "total units (callers (notify_drained m)) = total units (callers m)"
  by (simp_all add: total_def)

lemma finite_notified [simp]:
  "finitely_many (notify_space m) \<longleftrightarrow> finitely_many m" "finitely_many (notify_drained m) \<longleftrightarrow> finitely_many m"
  by simp_all

lemma budget_drop:
  assumes "finitely_many m" and "callers m' = (callers m)(th := c)"
    and "async_work (run m') + units c < async_work (run m) + units (callers m th)"
  shows "budget m' < budget m"
  using total_upd [OF assms(1), of units th c] assms(3) by (simp add: budget_def assms(2))

lemma unrest_drop:
  assumes "finitely_many m" and "callers m' = (callers m)(th := c)" and "run m' = run m"
    and "worker_asleep m' = worker_asleep m" and "units c = units (callers m th)"
    and "restless c < restless (callers m th)"
  shows "budget m' = budget m \<and> unrest m' < unrest m"
  using total_upd [OF assms(1), of units th c] total_upd [OF assms(1), of restless th c] assms(5,6)
  by (simp add: budget_def unrest_def assms(2-4))

lemma publish_turn_progress:
  assumes "publish_turn accepts th l e m = Some m'" and "callers m th = Publishing l e" and "finitely_many m"
  shows "budget m' < budget m \<or> budget m' = budget m \<and> unrest m' < unrest m"
proof (cases "async_enqueue accepts l e (logger (run m))")
  case Waits
  with assms(1) have m': "m' = at th (Awaiting_space l e) m" by (simp add: publish_turn_def)
  have "budget m' = budget m \<and> unrest m' < unrest m"
    by (rule unrest_drop [OF assms(3), where th = th and c = "Awaiting_space l e"]) (simp_all add: m' assms(2))
  then show ?thesis ..
next
  case (Continues a)
  with assms show ?thesis by (simp add: publish_turn_def)
next
  case (Leaves answer a)
  then have "length (queue a) \<le> Suc (length (queue (logger (run m))))"
    by (auto simp: async_enqueue_def split: if_splits)
  then have "budget m' < budget m"
    by (intro budget_drop [OF assms(3), where th = th and c = Away])
      (use assms(1,2) Leaves in \<open>auto simp: publish_turn_def async_work_def split: if_splits\<close>)
  then show ?thesis ..
qed

lemma caller_turn_progress:
  assumes "caller_turn accepts th m = Some m'" and "finitely_many m"
  shows "budget m' < budget m \<or> budget m' = budget m \<and> unrest m' < unrest m"
proof (cases "callers m th")
  case (Publishing l e)
  with assms have "publish_turn accepts th l e m = Some m'" by (simp add: caller_turn_def)
  from publish_turn_progress [OF this Publishing assms(2)] show ?thesis .
next
  case Flushing
  with assms(1) have m': "m' = flush_turn th m" by (simp add: caller_turn_def)
  show ?thesis
  proof (cases "async_drained (logger (run m))")
    case True
    have "budget m' < budget m"
      by (rule budget_drop [OF assms(2), where th = th and c = Away]) (simp_all add: m' flush_turn_def True Flushing)
    then show ?thesis ..
  next
    case False
    have "budget m' = budget m \<and> unrest m' < unrest m"
      by (rule unrest_drop [OF assms(2), where th = th and c = Awaiting_drain])
        (simp_all add: m' flush_turn_def False Flushing)
    then show ?thesis ..
  qed
next
  case Asking_shutdown
  with assms(1) have m': "m' = at th Announcing (m\<lparr>shutdown_holder := Some th\<rparr>)"
    by (auto simp: caller_turn_def split: if_splits)
  have "budget m' < budget m"
    by (rule budget_drop [OF assms(2), where th = th and c = Announcing]) (simp_all add: m' Asking_shutdown)
  then show ?thesis ..
next
  case Announcing
  with assms(1) have m': "m' = announce_stop th m" by (simp add: caller_turn_def)
  let ?m = "notify_space (m\<lparr>run := (run m)\<lparr>logger := async_shutdown (logger (run m))\<rparr>, worker_asleep := False\<rparr>)"
  have "budget m' < budget ?m"
    by (rule budget_drop [where th = th and c = Joining])
      (use assms(2) in \<open>simp_all add: m' announce_stop_def Announcing\<close>)
  moreover have "budget ?m = budget m" by (simp add: budget_def async_work_def async_shutdown_def)
  ultimately show ?thesis by simp
next
  case Joining
  have "budget m' < budget m"
    by (rule budget_drop [OF assms(2), where th = th and c = Away])
      (use assms(1) Joining in \<open>auto simp: caller_turn_def join_worker_def split: if_splits\<close>)
  then show ?thesis ..
qed (use assms in \<open>simp_all add: caller_turn_def\<close>)


lemma budget_protocol:
  assumes "async_step accepts backend get put True (run m) (run m')"
    and "\<And>th. units (callers m' th) = units (callers m th)" and "\<And>th. callers m' th = Away \<longleftrightarrow> callers m th = Away"
  shows "budget m' < budget m"
  using background_step_work [OF assms(1)] by (simp add: budget_def total_def assms(2,3))

lemma background_turn_progress:
  assumes "background_turn backend m = Some m'"
  shows "budget m' < budget m \<or> budget m' = budget m \<and> unrest m' < unrest m"
proof (cases "m' = m\<lparr>worker_asleep := True\<rparr> \<and> worker (run m) = Waiting \<and> \<not> worker_asleep m")
  case True
  then show ?thesis by (simp add: budget_def unrest_def)
next
  case False
  have "units (callers m' th) = units (callers m th)" "callers m' th = Away \<longleftrightarrow> callers m th = Away" for th
    using assms by (auto simp: background_turn_def take_turn_def deliver_turn_def finish_turn_def Let_def
        split: if_splits delivery.splits list.splits section_result.splits prod.splits)
  moreover have "async_step AcceptAllPolicy backend (\<lambda>_. Logger_default) (\<lambda>_ s. s) True (run m) (run m')"
    using background_turn_moves [OF assms] False by blast
  ultimately show ?thesis using budget_protocol by blast
qed

lemma caller_turn_stays:
  "caller_turn accepts th m = Some m' \<Longrightarrow> callers m' u \<noteq> Away \<Longrightarrow> callers m u \<noteq> Away"
  by (auto simp: caller_turn_def publish_turn_def flush_turn_def announce_stop_def join_worker_def
      split: caller.splits section_result.splits if_splits)

lemma background_turn_stays:
  "background_turn backend m = Some m' \<Longrightarrow> callers m' u \<noteq> Away \<Longrightarrow> callers m u \<noteq> Away"
  by (auto simp: background_turn_def take_turn_def deliver_turn_def finish_turn_def Let_def
      split: if_splits delivery.splits list.splits section_result.splits prod.splits)

lemma thread_turn_finite: "thread_turn accepts backend m m' \<Longrightarrow> finitely_many m \<Longrightarrow> finitely_many m'"
  unfolding thread_turn_def
  by (elim disjE exE; erule rev_finite_subset) (use caller_turn_stays background_turn_stays in blast)+

lemma thread_turn_progress:
  "thread_turn accepts backend m m' \<Longrightarrow> finitely_many m \<Longrightarrow>
     budget m' < budget m \<or> budget m' = budget m \<and> unrest m' < unrest m"
  unfolding thread_turn_def using caller_turn_progress background_turn_progress by blast

lemma waiting_turns_well_founded: "wf {(m', m). thread_turn accepts backend m m' \<and> finitely_many m}"
proof (rule wf_subset)
  show "wf (inv_image (less_than <*lex*> less_than) (\<lambda>m :: 'a waiting. (budget m, unrest m)))" by blast
  show "{(m', m). thread_turn accepts backend m m' \<and> finitely_many m}
      \<subseteq> inv_image (less_than <*lex*> less_than) (\<lambda>m. (budget m, unrest m))"
    using thread_turn_progress by fastforce
qed

lemma waiting_step_finite:
  assumes "waiting_step accepts backend get put m m'" and "finitely_many m"
  shows "finitely_many m'"
  using assms(1)
proof cases
  case turns
  then show ?thesis using thread_turn_finite assms(2) by blast
next
  case (begins th c)
  then have "{u. callers m' u \<noteq> Away} \<subseteq> insert th {u. callers m u \<noteq> Away}" by auto
  then show ?thesis using assms(2) by (meson finite_insert finite_subset)
next
  case (wakes th l e)
  then have "{u. callers m' u \<noteq> Away} \<subseteq> insert th {u. callers m u \<noteq> Away}" by auto
  then show ?thesis using assms(2) by (meson finite_insert finite_subset)
qed (use assms(2) in simp_all)

lemma waiting_reach_finite: "waiting_reach accepts backend get put s0 m \<Longrightarrow> finitely_many m"
proof (induction rule: waiting_reach.induct)
  case constructed
  then show ?case by (simp add: waiting_start_def)
next
  case (continued m m')
  then show ?case using waiting_step_finite by blast
qed

lemma waiting_comes_to_rest:
  assumes "finitely_many m"
  shows "\<exists>m'. (thread_turn accepts backend)\<^sup>*\<^sup>* m m' \<and> at_rest accepts backend m'"
  using waiting_turns_well_founded [of accepts backend] assms
proof (induction m rule: wf_induct_rule)
  case (less m)
  show ?case
  proof (cases "at_rest accepts backend m")
    case True
    then show ?thesis by blast
  next
    case False
    then obtain m' where m': "thread_turn accepts backend m m'" by (auto simp: at_rest_def)
    with less have "\<exists>n. (thread_turn accepts backend)\<^sup>*\<^sup>* m' n \<and> at_rest accepts backend n"
      using thread_turn_finite by blast
    with m' show ?thesis by (meson converse_rtranclp_into_rtranclp)
  qed
qed


section \<open>Schedules\<close>

lemmas [run_simps] = waiting_start_def at_def may_begin_def caller_turn_def publish_turn_def async_enqueue_def
  async_start_def async_new_def AcceptAllPolicy_def async_queue_capacity_def background_turn_def take_turn_def
  async_take_def notify_space_def notify_drained_def announce_stop_def async_shutdown_def flush_turn_def
  async_drained_def deliver_turn_def async_deliver_def finish_turn_def async_finish_def join_worker_def

datatype move = Begin thread caller | Turn thread | Work

fun play :: "policy \<Rightarrow> (Level \<Rightarrow> Error \<Rightarrow> ('s, bool) callable) \<Rightarrow> move list \<Rightarrow> 's waiting \<Rightarrow> 's waiting option" where
  "play accepts backend [] m = Some m"
| "play accepts backend (Begin th c # ms) m =
     (if may_begin th m \<and> async_entry c then play accepts backend ms (at th c m) else None)"
| "play accepts backend (Turn th # ms) m =
     (case caller_turn accepts th m of Some m' \<Rightarrow> play accepts backend ms m' | None \<Rightarrow> None)"
| "play accepts backend (Work # ms) m =
     (case background_turn backend m of Some m' \<Rightarrow> play accepts backend ms m' | None \<Rightarrow> None)"

lemma play_reach:
  "play accepts backend ms m = Some m' \<Longrightarrow> waiting_reach accepts backend get put s0 m \<Longrightarrow>
     waiting_reach accepts backend get put s0 m'"
proof (induction accepts backend ms m rule: play.induct)
  case (2 accepts backend th c ms m)
  then have c: "may_begin th m" "async_entry c" "play accepts backend ms (at th c m) = Some m'"
    by (simp_all split: if_splits)
  show ?case by (rule 2(1) [OF conjI [OF c(1,2)] c(3) waiting_reach.continued [OF 2(3) waiting_step.begins [OF c(1,2)]]])
next
  case (3 accepts backend th ms m)
  then obtain m1 where m1: "caller_turn accepts th m = Some m1" "play accepts backend ms m1 = Some m'"
    by (auto split: option.splits)
  have "thread_turn accepts backend m m1" using m1(1) by (auto simp: thread_turn_def)
  from 3(1) [OF m1 waiting_reach.continued [OF 3(3) waiting_step.turns [OF this]]] show ?case .
next
  case (4 accepts backend ms m)
  then obtain m1 where m1: "background_turn backend m = Some m1" "play accepts backend ms m1 = Some m'"
    by (auto split: option.splits)
  have "thread_turn accepts backend m m1" using m1(1) by (simp add: thread_turn_def)
  from 4(1) [OF m1 waiting_reach.continued [OF 4(3) waiting_step.turns [OF this]]] show ?case .
qed simp

section \<open>A shutdown that never returns\<close>

text \<open>An owner joins the background thread, whose sink asks for a shutdown of its own.\<close>

definition jammed :: "PendingRecord \<Rightarrow> 's waiting \<Rightarrow> bool" where
  "jammed r m \<longleftrightarrow> callers m (Client 0) = Joining \<and> callers m Background = Asking_shutdown \<and>
     shutdown_holder m = Some (Client 0) \<and> \<not> worker_joined m \<and> worker (run m) = Delivering [r]"

lemma jammed_caller:
  assumes "caller_turn accepts th m = Some m'" and "jammed r m"
  shows "jammed r m'"
proof (cases "callers m th")
  case (Publishing l e)
  then have "th \<noteq> Client 0" "th \<noteq> Background" using assms(2) by (auto simp: jammed_def)
  then show ?thesis using assms Publishing
    by (auto simp: caller_turn_def jammed_def publish_turn_def split: section_result.splits if_splits)
next
  case Flushing
  then have "th \<noteq> Client 0" "th \<noteq> Background" using assms(2) by (auto simp: jammed_def)
  then show ?thesis using assms Flushing by (auto simp: caller_turn_def jammed_def flush_turn_def)
next
  case Announcing
  then have "th \<noteq> Client 0" "th \<noteq> Background" using assms(2) by (auto simp: jammed_def)
  then show ?thesis using assms Announcing by (auto simp: caller_turn_def jammed_def announce_stop_def)
qed (use assms in \<open>auto simp: caller_turn_def jammed_def join_worker_def split: if_splits\<close>)

lemma jammed_step: "waiting_step accepts backend get put m m' \<Longrightarrow> jammed r m \<Longrightarrow> jammed r m'"
proof (induction rule: waiting_step.induct)
  case (turns m m')
  then have "background_turn backend m = None" by (simp add: background_turn_def jammed_def)
  with turns(1) obtain th where "caller_turn accepts th m = Some m'" by (auto simp: thread_turn_def)
  then show ?case using turns(2) by (rule jammed_caller)
next
  case (begins th m c)
  then show ?case by (auto simp: jammed_def may_begin_def)
next
  case (wakes m th l e)
  then show ?case by (auto simp: jammed_def)
qed (auto simp: jammed_def)

lemma jammed_for_ever:
  "(waiting_step accepts backend get put)\<^sup>*\<^sup>* m m' \<Longrightarrow> jammed r m \<Longrightarrow> jammed r m'"
  by (induction rule: rtranclp_induct) (auto intro: jammed_step)

definition jam :: "PendingRecord \<Rightarrow> move list" where
  "jam r = [Begin (Client 0) (Publishing (record_level r) (record_error r)), Turn (Client 0), Work,
     Begin Background Asking_shutdown, Begin (Client 0) Asking_shutdown, Turn (Client 0), Turn (Client 0)]"

lemma jam_reach:
  "\<exists>m. waiting_reach AcceptAllPolicy backend get put s0 m \<and> jammed r m"
proof -
  obtain m where m: "play AcceptAllPolicy backend (jam r) (waiting_start s0) = Some m" "jammed r m"
    by (simp add: jam_def jammed_def run_simps)
  from play_reach [OF m(1) waiting_reach.constructed] m(2) show ?thesis by blast
qed

section \<open>Properties\<close>

text \<open>
  C15. Calls on an asynchronous logger return and no record is left behind. Whatever the order of
  turns, there is no infinite run of them; and when the machine is at rest while no sink is inside a
  call of its own, every write, \<open>flush()\<close> and \<open>shutdown()\<close> has returned, every accepted record was
  given to the sinks, and the background thread sleeps for want of records or, after a shutdown, has
  returned from \<open>run\<close>.
\<close>

theorem async_calls_return:
  fixes m :: "'s waiting"
  assumes "waiting_reach accepts backend get put s0 m"
  shows "\<not> (\<exists>f. f 0 = m \<and> (\<forall>i. thread_turn accepts backend (f i) (f (Suc i)))) \<and>
    (at_rest accepts backend m \<and> callers m Background = Away \<longrightarrow>
      (\<forall>th. callers m th = Away) \<and> accepted_records (run m) = written (backend_log (run m)) \<and>
      (if stopping (logger (run m)) then worker (run m) = Returned_from_run
       else worker (run m) = Waiting \<and> worker_asleep m))"
proof (intro conjI impI)
  show "\<not> (\<exists>f. f 0 = m \<and> (\<forall>i. thread_turn accepts backend (f i) (f (Suc i))))"
  proof
    assume "\<exists>f. f 0 = m \<and> (\<forall>i. thread_turn accepts backend (f i) (f (Suc i)))"
    then obtain f where f: "f 0 = m" "\<And>i. thread_turn accepts backend (f i) (f (Suc i))" by blast
    have "finitely_many (f i)" for i
    proof (induction i)
      case 0
      show ?case using waiting_reach_finite [OF assms] by (simp only: f(1))
    next
      case (Suc i)
      then show ?case by (rule thread_turn_finite [OF f(2)])
    qed
    with f(2) have "\<forall>i. (f (Suc i), f i) \<in> {(m', m). thread_turn accepts backend m m' \<and> finitely_many m}" by simp
    then have "\<exists>g :: nat \<Rightarrow> 's waiting. \<forall>i. (g (Suc i), g i) \<in>
        {(m', m). thread_turn accepts backend m m' \<and> finitely_many m}"
      by (rule exI [of _ f])
    with waiting_turns_well_founded [of accepts backend] show False
      unfolding wf_iff_no_infinite_down_chain by blast
  qed
qed (use async_rest_is_complete [OF assms] in blast)+

text \<open>A reachable state at rest: a record is published and delivered, and the logger is shut down.\<close>

definition shutdown_schedule :: "move list" where
  "shutdown_schedule = [Begin (Client 0) (Publishing INFO (make_Error NETWORK 1000 ''down'')), Turn (Client 0),
     Begin (Client 1) Flushing, Turn (Client 1), Work, Work, Work, Turn (Client 1),
     Begin (Client 0) Asking_shutdown, Turn (Client 0), Turn (Client 0), Work, Turn (Client 0)]"

lemma shutdown_run:
  "\<exists>m :: nat waiting. play AcceptAllPolicy (\<lambda>l e n. (Returned True, Suc n)) shutdown_schedule (waiting_start 0) = Some m \<and>
     worker (run m) = Returned_from_run \<and> stopping (logger (run m)) \<and> length (accepted_records (run m)) = 1 \<and>
     (\<forall>th. callers m th = Away)"
  by (simp add: shutdown_schedule_def run_simps)

theorem async_calls_return_witness:
  "\<exists>m :: nat waiting. waiting_reach AcceptAllPolicy (\<lambda>l e n. (Returned True, Suc n)) (\<lambda>_. Logger_default) (\<lambda>_ n. n) 0 m \<and>
     at_rest AcceptAllPolicy (\<lambda>l e n. (Returned True, Suc n)) m \<and> length (accepted_records (run m)) = 1 \<and>
     accepted_records (run m) = written (backend_log (run m))"
proof -
  obtain m :: "nat waiting" where m: "play AcceptAllPolicy (\<lambda>l e n. (Returned True, Suc n)) shutdown_schedule (waiting_start 0) = Some m"
    "worker (run m) = Returned_from_run" "length (accepted_records (run m)) = 1" "\<forall>th. callers m th = Away"
    using shutdown_run by blast
  have reach: "waiting_reach AcceptAllPolicy (\<lambda>l e n. (Returned True, Suc n)) (\<lambda>_. Logger_default) (\<lambda>_ n. n) 0 m"
    by (rule play_reach [OF m(1) waiting_reach.constructed])
  moreover have "at_rest AcceptAllPolicy (\<lambda>l e n. (Returned True, Suc n)) m"
    by (simp add: at_rest_def thread_turn_def caller_turn_def background_turn_def m(2,4))
  ultimately show ?thesis using async_calls_return [OF reach] m(3,4) by blast
qed

text \<open>
  C16. A sink that calls \<open>shutdown()\<close> of its own asynchronous logger can block it for ever: the call
  waits for the shutdown mutex, which an owner holds while it joins the background thread that makes
  the call. The state is reachable with any backend and no further step of any thread leaves it.
\<close>

theorem shutdown_in_a_callback_deadlocks:
  "\<exists>m. waiting_reach AcceptAllPolicy backend get put s0 m \<and>
     {m'. (waiting_step AcceptAllPolicy backend get put)\<^sup>*\<^sup>* m m'} \<subseteq>
       {m'. callers m' (Client 0) = Joining \<and> callers m' Background = Asking_shutdown \<and>
            worker (run m') = Delivering [r]}"
proof -
  obtain m where "waiting_reach AcceptAllPolicy backend get put s0 m" "jammed r m"
    using jam_reach [of backend get put s0 r] by blast
  then show ?thesis using jammed_for_ever [of AcceptAllPolicy backend get put m _ r] unfolding jammed_def by blast
qed

end
