(* ===== verification/Text_Record.thy ===== *)
theory Text_Record
  imports Log_Model "HOL-Library.Monad_Syntax"
begin

text \<open>
  \<open>detail::prepare_text_record\<close> of \<open>include/vosp/logger.hpp\<close>: a record is formatted into a fixed
  array of 512 characters through a raw cursor, and only a message that does not fit is left to be
  written separately. Copying past the end of the array is undefined behaviour and the value
  \<open>None\<close> here, as is a \<open>std::to_chars\<close> that runs out of space, whose error the code ignores.
\<close>

section \<open>Writing through the cursor\<close>

record PreparedTextRecord =
  prefix :: string
  prefix_size :: nat
  message :: string
  message_is_buffered :: bool

type_synonym cursor = "string \<times> nat"

definition append_text :: "string \<Rightarrow> cursor \<Rightarrow> cursor option" where
  "append_text text c =
     (if snd c + length text \<le> length (fst c)
      then Some (take (snd c) (fst c) @ text @ drop (snd c + length text) (fst c), snd c + length text)
      else None)"

definition to_chars :: "u32 \<Rightarrow> cursor \<Rightarrow> cursor option" where
  "to_chars n = append_text (dec (unat n))"

definition newline :: char where "newline = CHR 0x0A"

definition prepare_text_record :: "LogEntry \<Rightarrow> PreparedTextRecord option" where
  "prepare_text_record entry = do {
     c \<leftarrow> append_text ''['' (replicate 512 (CHR 0x00), 0);
     c \<leftarrow> append_text (level_name (level entry)) c;
     c \<leftarrow> append_text ''] ['' c;
     c \<leftarrow> append_text (log_category_name (err_category (error entry))) c;
     c \<leftarrow> append_text ''] code='' c;
     c \<leftarrow> to_chars (err_code (error entry)) c;
     c \<leftarrow> append_text '' message='' c;
     let message = err_message (error entry);
     let remaining = length (fst c) - snd c;
     if length message < remaining then do {
       c \<leftarrow> append_text message c;
       c \<leftarrow> append_text [newline] c;
       Some \<lparr>prefix = fst c, prefix_size = snd c, message = message, message_is_buffered = True\<rparr>
     } else Some \<lparr>prefix = fst c, prefix_size = snd c, message = message, message_is_buffered = False\<rparr>
   }"

section \<open>What has been written\<close>

definition holds :: "cursor \<Rightarrow> string \<Rightarrow> bool" where
  "holds c text \<longleftrightarrow> length (fst c) = 512 \<and> snd c = length text \<and> take (length text) (fst c) = text"

lemma append_holds:
  assumes "holds c text" and "length text + length added \<le> 512"
  shows "\<exists>c'. append_text added c = Some c' \<and> holds c' (text @ added)"
  using assms by (auto simp: append_text_def holds_def)

definition line_prefix :: "LogEntry \<Rightarrow> string" where
  "line_prefix entry = ''['' @ level_name (level entry) @ ''] ['' @
     category_name (err_category (error entry)) @ ''] code='' @ dec (unat (err_code (error entry))) @
     '' message=''"

definition log_line :: "LogEntry \<Rightarrow> string" where
  "log_line entry = line_prefix entry @ err_message (error entry) @ [newline]"

lemma length_line_prefix: "length (line_prefix entry) \<le> 48"
  using length_level_name [of "level entry"] length_category_name [of "err_category (error entry)"]
    length_dec_u32 [of "err_code (error entry)"]
  by (simp add: line_prefix_def)

lemma prefix_prepared:
  "\<exists>c. holds c (line_prefix entry) \<and> prepare_text_record entry =
     (let message = err_message (error entry) in
      if length message < length (fst c) - snd c then do {
        c \<leftarrow> append_text message c;
        c \<leftarrow> append_text [newline] c;
        Some \<lparr>prefix = fst c, prefix_size = snd c, message = message, message_is_buffered = True\<rparr>
      } else Some \<lparr>prefix = fst c, prefix_size = snd c, message = message, message_is_buffered = False\<rparr>)"
proof -
  let ?l = "level_name (level entry)" and ?c = "category_name (err_category (error entry))"
    and ?n = "dec (unat (err_code (error entry)))"
  have lens: "length ?l \<le> 8" "length ?c \<le> 10" "length ?n \<le> 10"
    by (rule length_level_name length_category_name length_dec_u32)+
  have "holds (replicate 512 (CHR 0x00), 0) ''''" by (simp add: holds_def)
  from append_holds [OF this, of "''[''"]
  obtain c1 where c1: "append_text ''['' (replicate 512 (CHR 0x00), 0) = Some c1" "holds c1 (''['')"
    by auto
  obtain c2 where c2: "append_text ?l c1 = Some c2" "holds c2 (''['' @ ?l)"
    using append_holds [OF c1(2), of ?l] lens by auto
  obtain c3 where c3: "append_text ''] ['' c2 = Some c3" "holds c3 ((''['' @ ?l) @ ''] ['')"
    using append_holds [OF c2(2), of "''] [''"] lens by auto
  obtain c4 where c4: "append_text ?c c3 = Some c4" "holds c4 (((''['' @ ?l) @ ''] ['') @ ?c)"
    using append_holds [OF c3(2), of ?c] lens by auto
  obtain c5 where c5: "append_text ''] code='' c4 = Some c5"
    "holds c5 ((((''['' @ ?l) @ ''] ['') @ ?c) @ ''] code='')"
    using append_holds [OF c4(2), of "''] code=''"] lens by auto
  obtain c6 where c6: "append_text ?n c5 = Some c6"
    "holds c6 (((((''['' @ ?l) @ ''] ['') @ ?c) @ ''] code='') @ ?n)"
    using append_holds [OF c5(2), of ?n] lens by auto
  obtain c7 where c7: "append_text '' message='' c6 = Some c7"
    "holds c7 ((((((''['' @ ?l) @ ''] ['') @ ?c) @ ''] code='') @ ?n) @ '' message='')"
    using append_holds [OF c6(2), of "'' message=''"] lens by auto
  have "prepare_text_record entry =
     (let message = err_message (error entry) in
      if length message < length (fst c7) - snd c7 then do {
        c \<leftarrow> append_text message c7;
        c \<leftarrow> append_text [newline] c;
        Some \<lparr>prefix = fst c, prefix_size = snd c, message = message, message_is_buffered = True\<rparr>
      } else Some \<lparr>prefix = fst c7, prefix_size = snd c7, message = message, message_is_buffered = False\<rparr>)"
    unfolding prepare_text_record_def to_chars_def log_category_name
    by (simp only: c1(1) c2(1) c3(1) c4(1) c5(1) c6(1) c7(1) bind.bind_lunit Let_def)
  with c7(2) show ?thesis by (intro exI [of _ c7]) (simp add: line_prefix_def)
qed

text \<open>The record that is prepared, in full.\<close>

lemma prepared_record:
  "\<exists>r. prepare_text_record entry = Some r \<and> message r = err_message (error entry) \<and>
     prefix_size r \<le> 512 \<and> length (prefix r) = 512 \<and>
     message_is_buffered r = (length (err_message (error entry)) < 512 - length (line_prefix entry)) \<and>
     take (prefix_size r) (prefix r) =
       (if message_is_buffered r then log_line entry else line_prefix entry)"
proof -
  let ?m = "err_message (error entry)"
  obtain c where c: "holds c (line_prefix entry)" "prepare_text_record entry =
     (let message = ?m in
      if length message < length (fst c) - snd c then do {
        c \<leftarrow> append_text message c;
        c \<leftarrow> append_text [newline] c;
        Some \<lparr>prefix = fst c, prefix_size = snd c, message = message, message_is_buffered = True\<rparr>
      } else Some \<lparr>prefix = fst c, prefix_size = snd c, message = message, message_is_buffered = False\<rparr>)"
    using prefix_prepared by blast
  have size: "length (fst c) - snd c = 512 - length (line_prefix entry)"
    using c(1) by (simp add: holds_def)
  show ?thesis
  proof (cases "length ?m < 512 - length (line_prefix entry)")
    case False
    then show ?thesis
      using c length_line_prefix [of entry] by (simp add: size holds_def)
  next
    case True
    then have "length (line_prefix entry) + length ?m \<le> 512" by simp
    from append_holds [OF c(1) this] obtain c1 where c1: "append_text ?m c = Some c1"
      "holds c1 (line_prefix entry @ ?m)" by blast
    have "length (line_prefix entry @ ?m) + length [newline] \<le> 512" using True by simp
    from append_holds [OF c1(2) this] obtain c2 where c2: "append_text [newline] c1 = Some c2"
      "holds c2 (log_line entry)" by (auto simp: log_line_def)
    from True c(2) c1(1) c2(1) have "prepare_text_record entry =
      Some \<lparr>prefix = fst c2, prefix_size = snd c2, message = ?m, message_is_buffered = True\<rparr>"
      by (simp add: size)
    moreover have "length (log_line entry) \<le> 512" using True by (simp add: log_line_def)
    ultimately show ?thesis using c2(2) True by (simp add: holds_def)
  qed
qed

section \<open>Reading a log back\<close>

text \<open>What a line says, when the level and the category have names.\<close>

definition named_level :: "Level \<Rightarrow> bool" where
  "named_level l \<longleftrightarrow> l = TRACE \<or> l = DEBUG \<or> l = INFO \<or> l = WARNING \<or> l = ERROR \<or> l = CRITICAL"

definition line_key :: "LogEntry \<Rightarrow> Level \<times> Error" where
  "line_key entry = (level entry, error entry)"

definition readable :: "LogEntry \<Rightarrow> bool" where
  "readable entry \<longleftrightarrow> named_level (level entry) \<and> named (err_category (error entry)) \<and>
     newline \<notin> set (err_message (error entry))"

lemma level_name_inject:
  "named_level l \<Longrightarrow> named_level k \<Longrightarrow> level_name l = level_name k \<Longrightarrow> l = k"
  by (auto simp: named_level_def level_name_def level_defs)

lemma no_bracket: "CHR '']'' \<notin> set (level_name l)" "CHR '']'' \<notin> set (category_name c)"
  by (simp_all add: level_name_def category_name_def)

lemma newline_nowhere: "newline \<notin> set (line_prefix entry)"
proof -
  have "newline \<notin> set (dec (unat (err_code (error entry))))"
    by (rule dec_no_char) (simp add: newline_def)
  then show ?thesis
    by (simp add: line_prefix_def level_name_def category_name_def newline_def)
qed

lemma log_line_inject:
  assumes "log_line a = log_line b" and "readable a" and "readable b"
  shows "line_key a = line_key b"
proof -
  let ?rest = "\<lambda>e. '' ['' @ category_name (err_category (error e)) @ ''] code='' @
    dec (unat (err_code (error e))) @ '' message='' @ err_message (error e) @ [newline]"
  let ?tail = "\<lambda>e. ''code='' @ dec (unat (err_code (error e))) @ '' message='' @ err_message (error e) @ [newline]"
  have line: "log_line e = ''['' @ level_name (level e) @ CHR '']'' # ?rest e" for e
    by (simp add: log_line_def line_prefix_def)
  have "level_name (level a) @ CHR '']'' # ?rest a = level_name (level b) @ CHR '']'' # ?rest b"
    using assms(1) unfolding line by simp
  from separated_eqD [OF this no_bracket(1) no_bracket(1)]
  have levels: "level_name (level a) = level_name (level b)" and "?rest a = ?rest b" by blast+
  then have "category_name (err_category (error a)) @ CHR '']'' # '' '' @ ?tail a =
      category_name (err_category (error b)) @ CHR '']'' # '' '' @ ?tail b" by simp
  from separated_eqD [OF this no_bracket(2) no_bracket(2)]
  have cats: "category_name (err_category (error a)) = category_name (err_category (error b))"
    and "?tail a = ?tail b" by simp_all
  then have "dec (unat (err_code (error a))) @ CHR '' '' # ''message='' @ err_message (error a) @ [newline] =
      dec (unat (err_code (error b))) @ CHR '' '' # ''message='' @ err_message (error b) @ [newline]" by simp
  from separated_eqD [OF this dec_no_char dec_no_char]
  have codes: "err_code (error a) = err_code (error b)"
    and "err_message (error a) = err_message (error b)" by (simp_all add: word_unat_eq_iff)
  moreover have "level a = level b" using levels level_name_inject assms(2,3) by (simp add: readable_def)
  moreover have "err_category (error a) = err_category (error b)"
    using cats category_name_inject assms(2,3) by (simp add: readable_def)
  ultimately show ?thesis by (simp add: line_key_def)
qed

lemma readable_line:
  "readable entry \<Longrightarrow> \<exists>body. log_line entry = body @ [newline] \<and> newline \<notin> set body"
  using newline_nowhere [of entry]
  by (intro exI [of _ "line_prefix entry @ err_message (error entry)"])
    (simp add: log_line_def readable_def)

lemma log_lines_inject:
  "concat (map log_line xs) = concat (map log_line ys) \<Longrightarrow> \<forall>e \<in> set (xs @ ys). readable e \<Longrightarrow>
     map line_key xs = map line_key ys"
proof (induction xs arbitrary: ys)
  case Nil
  then show ?case by (cases ys) (simp_all add: log_line_def)
next
  case (Cons x xs)
  then obtain y ys' where ys: "ys = y # ys'" by (cases ys) (simp_all add: log_line_def)
  obtain b where b: "log_line x = b @ [newline]" "newline \<notin> set b" using Cons.prems(2) readable_line by auto
  obtain d where d: "log_line y = d @ [newline]" "newline \<notin> set d"
    using Cons.prems(2) readable_line ys by auto
  have "b @ newline # concat (map log_line xs) = d @ newline # concat (map log_line ys')"
    using Cons.prems(1) by (simp add: ys b(1) d(1))
  from separated_eqD [OF this b(2) d(2)] have "log_line x = log_line y"
    and rest: "concat (map log_line xs) = concat (map log_line ys')" by (simp_all add: b(1) d(1))
  then have "line_key x = line_key y" using Cons.prems(2) ys by (intro log_line_inject) simp_all
  moreover have "map line_key xs = map line_key ys'"
    using Cons.prems(2) ys by (intro Cons.IH [OF rest]) simp
  ultimately show ?case by (simp add: ys)
qed

section \<open>Properties\<close>

text \<open>
  C13. Formatting never leaves the 512-character array, for any level, category, code and message:
  the cursor stays inside, the ignored \<open>to_chars\<close> error cannot occur, and the prefix followed by what
  is written separately is exactly the line of the record. The message is buffered exactly when it
  leaves room for the newline.
\<close>

theorem text_record_fits_the_buffer:
  "\<exists>r. prepare_text_record entry = Some r \<and> prefix_size r \<le> length (prefix r) \<and>
     take (prefix_size r) (prefix r) @
       (if message_is_buffered r then [] else message r @ [newline]) = log_line entry \<and>
     message_is_buffered r = (length (log_line entry) \<le> 512)"
proof -
  obtain r where r: "prepare_text_record entry = Some r" "message r = err_message (error entry)"
    "prefix_size r \<le> 512" "length (prefix r) = 512"
    "message_is_buffered r = (length (err_message (error entry)) < 512 - length (line_prefix entry))"
    "take (prefix_size r) (prefix r) =
       (if message_is_buffered r then log_line entry else line_prefix entry)"
    using prepared_record by blast
  moreover have "length (err_message (error entry)) < 512 - length (line_prefix entry) \<longleftrightarrow>
      length (log_line entry) \<le> 512"
    using length_line_prefix [of entry] by (auto simp: log_line_def)
  ultimately show ?thesis by (intro exI [of _ r]) (simp add: log_line_def)
qed

end
