(* ===== verification/Stream_Sinks.thy ===== *)
theory Stream_Sinks
  imports Text_Record Refinement
begin

text \<open>
  The two text sinks of \<open>include/vosp/logger.hpp\<close>. An output stream is modelled by what the sinks
  use of \<open>std::ostream\<close> without an exception mask: unformatted output goes to a destination that
  takes a limited number of further characters, a short write sets \<open>badbit\<close>, and a stream that is
  not good ignores output. Both sinks hold their mutexes for a whole record, so a call is a step.
\<close>

section \<open>Output streams\<close>

record ostream =
  writes :: "string list"
  room :: nat
  good :: bool
  sync_succeeds :: bool

definition ostream_write :: "string \<Rightarrow> ostream \<Rightarrow> ostream" where
  "ostream_write text os =
     (if \<not> good os then os
      else if length text \<le> room os
      then os\<lparr>writes := writes os @ [text], room := room os - length text\<rparr>
      else os\<lparr>writes := writes os @ [take (room os) text], room := 0, good := False\<rparr>)"

definition ostream_put :: "char \<Rightarrow> ostream \<Rightarrow> ostream" where
  "ostream_put c os = ostream_write [c] os"

definition ostream_flush :: "ostream \<Rightarrow> ostream" where
  "ostream_flush os = (if good os \<and> \<not> sync_succeeds os then os\<lparr>good := False\<rparr> else os)"

abbreviation stream_text :: "ostream \<Rightarrow> string" where
  "stream_text os \<equiv> concat (writes os)"

text \<open>What matters of a stream, and how output changes it.\<close>

type_synonym stream_view = "string \<times> nat \<times> bool"

definition stream_view :: "ostream \<Rightarrow> stream_view" where
  "stream_view os = (stream_text os, room os, good os)"

fun emit :: "string \<Rightarrow> stream_view \<Rightarrow> stream_view" where
  "emit text (out, n, healthy) =
     (if healthy then (out @ take n text, n - length text, length text \<le> n)
      else (out, n, healthy))"

lemma view_write: "stream_view (ostream_write text os) = emit text (stream_view os)"
  by (simp add: stream_view_def ostream_write_def)

lemma emit_append: "emit (a @ b) v = emit b (emit a v)"
  by (cases v) auto

lemma view_put: "stream_view (ostream_put c os) = emit [c] (stream_view os)"
  unfolding ostream_put_def by (rule view_write)

lemma emit_Nil [simp]: "emit [] v = v"
  by (cases v) auto

lemma good_view: "good os = snd (snd (stream_view os))"
  by (simp add: stream_view_def)

section \<open>The immediate sink\<close>

definition maximum_chunk :: nat where "maximum_chunk = 2 ^ 63 - 1"

lemma maximum_chunk_pos: "0 < maximum_chunk"
  by (simp add: maximum_chunk_def)

function write_view :: "string \<Rightarrow> ostream \<Rightarrow> ostream" where
  "write_view text os =
     (if text \<noteq> [] \<and> good os
      then (let chunk_size = min (length text) maximum_chunk in
            write_view (drop chunk_size text) (ostream_write (take chunk_size text) os))
      else os)"
  by pat_completeness auto

termination
  by (relation "measure (\<lambda>(text, os). length text)")
    (auto simp: min_def maximum_chunk_pos)

declare write_view.simps [simp del]

definition immediate_write :: "LogEntry \<Rightarrow> ostream \<Rightarrow> (bool \<times> ostream) option" where
  "immediate_write entry os =
     (case prepare_text_record entry of
        None \<Rightarrow> None
      | Some r \<Rightarrow>
          (let os1 = ostream_write (take (prefix_size r) (prefix r)) os;
               os2 = (if message_is_buffered r then os1
                      else ostream_put newline (write_view (message r) os1))
           in Some (good os2, os2)))"

lemma view_write_view: "stream_view (write_view t os) = emit t (stream_view os)"
proof (induction t os rule: write_view.induct)
  case (1 t os)
  show ?case
  proof (cases "t \<noteq> [] \<and> good os")
    case False
    then have "write_view t os = os" by (subst write_view.simps) auto
    with False show ?thesis by (cases "t = []") (simp_all add: stream_view_def)
  next
    case True
    with 1 show ?thesis
      by (simp add: write_view.simps [of t] Let_def view_write flip: emit_append)
  qed
qed

lemma immediate_write_line:
  "\<exists>os'. immediate_write entry os = Some (good os', os') \<and>
     stream_view os' = emit (log_line entry) (stream_view os)"
proof -
  obtain r where r: "prepare_text_record entry = Some r" "message r = err_message (error entry)"
    "take (prefix_size r) (prefix r) =
       (if message_is_buffered r then log_line entry else line_prefix entry)"
    using prepared_record by blast
  have "log_line entry = line_prefix entry @ message r @ [newline]" by (simp add: log_line_def r(2))
  then show ?thesis
    using r by (auto simp: immediate_write_def Let_def view_write view_put view_write_view emit_append)
qed

text \<open>A sink driven by a sequence of records.\<close>

definition immediate_step :: "LogEntry \<Rightarrow> ostream \<Rightarrow> bool \<times> ostream" where
  "immediate_step entry os = the (immediate_write entry os)"

definition line_step :: "LogEntry \<Rightarrow> stream_view \<Rightarrow> bool \<times> stream_view" where
  "line_step entry v = (snd (snd (emit (log_line entry) v)), emit (log_line entry) v)"

interpretation immediate: data_refinement immediate_step line_step stream_view "\<lambda>_. True"
proof unfold_locales
  fix entry os
  obtain os' where "immediate_write entry os = Some (good os', os')"
    "stream_view os' = emit (log_line entry) (stream_view os)"
    using immediate_write_line by blast
  then show "map_prod id stream_view (immediate_step entry os) = line_step entry (stream_view os)"
    by (simp add: immediate_step_def line_step_def good_view)
qed simp

lemma line_steps:
  "snd (run_calls line_step es v) = emit (concat (map log_line es)) v"
  by (induction es arbitrary: v) (simp_all add: line_step_def emit_append split: prod.splits)

lemma line_answers:
  "fst (run_calls line_step es (out, n, healthy)) =
     map (\<lambda>k. healthy \<and> length (concat (map log_line (take (Suc k) es))) \<le> n) [0..<length es]"
proof (induction es arbitrary: out n healthy)
  case Nil
  then show ?case by simp
next
  case (Cons e es)
  have range: "[0..<length (e # es)] = 0 # map Suc [0..<length es]"
    by (simp only: length_Cons map_Suc_upt upt_conv_Cons [OF zero_less_Suc])
  have "length (log_line e) + m \<le> n \<longleftrightarrow> length (log_line e) \<le> n \<and> m \<le> n - length (log_line e)" for m
    by auto
  with Cons show ?case
    unfolding range by (cases healthy) (auto simp: line_step_def comp_def split: prod.splits)
qed

lemma immediate_text:
  "stream_text (snd (run_calls immediate_step es os)) = stream_text os @
     (if good os then take (room os) (concat (map log_line es)) else [])"
proof -
  have "stream_view (snd (run_calls immediate_step es os)) = emit (concat (map log_line es)) (stream_view os)"
    by (simp only: immediate.run_view line_steps)
  then show ?thesis by (simp add: stream_view_def split: if_splits)
qed

lemma immediate_answers:
  "fst (run_calls immediate_step es os) =
     map (\<lambda>k. good os \<and> length (concat (map log_line (take (Suc k) es))) \<le> room os) [0..<length es]"
  by (simp only: immediate.run_replies) (simp only: stream_view_def line_answers)

text \<open>When every call answered true, nothing was cut off.\<close>

lemma all_written:
  assumes "set (fst (run_calls immediate_step es os)) \<subseteq> {True}"
  shows "stream_text (snd (run_calls immediate_step es os)) = stream_text os @ concat (map log_line es)"
proof (cases es rule: rev_cases)
  case Nil
  then show ?thesis by simp
next
  case (snoc es' e)
  have "good os \<and> length (concat (map log_line (take (Suc k) es))) \<le> room os" if "k < length es" for k
    using assms that unfolding immediate_answers by (auto simp: image_subset_iff)
  from this [of "length es - 1"] have "good os \<and> length (concat (map log_line es)) \<le> room os"
    by (simp add: snoc)
  then show ?thesis by (simp add: immediate_text)
qed

section \<open>Properties\<close>

text \<open>
  C36. The immediate sink writes every record as one contiguous line: whatever records it gets on
  whatever stream, the text of the stream grows by the concatenation of their lines, cut off where
  the destination is full and nowhere else, and a call answers true exactly when the stream was
  good and all lines up to its own fitted.
\<close>

theorem immediate_sink_writes_whole_lines:
  "immediate_write entry os \<noteq> None \<and>
   stream_text (snd (run_calls immediate_step es os)) = stream_text os @
     (if good os then take (room os) (concat (map log_line es)) else []) \<and>
   fst (run_calls immediate_step es os) =
     map (\<lambda>k. good os \<and> length (concat (map log_line (take (Suc k) es))) \<le> room os) [0..<length es]"
  using immediate_write_line [of entry os] immediate_text immediate_answers by auto

text \<open>
  C38. What the immediate sink wrote can be read back: two sequences of records with named levels and
  categories whose messages hold no newline, each written to a stream of the same text with every call
  answering true, left the same text only if they agree, record by record, in level, category,
  code and message.
\<close>

theorem log_text_determines_records:
  assumes "stream_text (snd (run_calls immediate_step xs os)) = stream_text (snd (run_calls immediate_step ys os'))"
    and "stream_text os = stream_text os'"
    and "set (fst (run_calls immediate_step xs os)) \<subseteq> {True}"
    and "set (fst (run_calls immediate_step ys os')) \<subseteq> {True}"
    and "\<forall>e \<in> set (xs @ ys). readable e"
  shows "map (\<lambda>e. (level e, error e)) xs = map (\<lambda>e. (level e, error e)) ys"
proof -
  have "concat (map log_line xs) = concat (map log_line ys)"
    using assms(1,2) by (simp add: all_written [OF assms(3)] all_written [OF assms(4)])
  moreover have "line_key = (\<lambda>e. (level e, error e))" by (simp add: line_key_def fun_eq_iff)
  ultimately show ?thesis using log_lines_inject [OF _ assms(5)] by simp
qed

definition open_file :: ostream where
  "open_file = \<lparr>writes = [], room = 4096, good = True, sync_succeeds = True\<rparr>"

theorem log_text_determines_records_witness:
  "let xs = [\<lparr>timestamp = 5, thread_id = 1, level = WARNING, error = make_Error DATABASE 2000 ''slow''\<rparr>];
       ys = [\<lparr>timestamp = 9, thread_id = 2, level = WARNING, error = make_Error DATABASE 2000 ''slow''\<rparr>]
   in stream_text (snd (run_calls immediate_step xs open_file)) =
        stream_text (snd (run_calls immediate_step ys open_file)) \<and>
      fst (run_calls immediate_step xs open_file) = [True] \<and>
      map (\<lambda>e. (level e, error e)) xs = map (\<lambda>e. (level e, error e)) ys"
proof -
  let ?e = "\<lambda>t i. \<lparr>timestamp = t, thread_id = i, level = WARNING, error = make_Error DATABASE 2000 ''slow''\<rparr>"
  have "length (dec 2000) = 4" by code_simp
  then have fits: "length (log_line (?e t i)) \<le> 4096" for t i
    by (simp add: log_line_def line_prefix_def level_name_def category_name_def level_defs)
  have same: "log_line (?e t i) = log_line (?e 5 1)" for t i by (simp add: log_line_def line_prefix_def)
  have answers: "fst (run_calls immediate_step [?e t i] open_file) = [True]" for t i
    unfolding immediate_answers using fits by (simp add: open_file_def)
  have same_text: "stream_text (snd (run_calls immediate_step [?e t i] open_file)) = log_line (?e 5 1)" for t i
    unfolding immediate_text using fits same [of t i] by (simp add: open_file_def)
  have "\<forall>e \<in> set ([?e 5 1] @ [?e 9 2]). readable e"
    by (simp add: readable_def named_level_def named_def newline_def)
  then have "map (\<lambda>e. (level e, error e)) [?e 5 1] = map (\<lambda>e. (level e, error e)) [?e 9 2]"
    by (intro log_text_determines_records [where os = open_file and os' = open_file])
      (simp_all only: same_text answers, simp_all)
  then show ?thesis by (simp only: Let_def same_text answers)
qed

text \<open>
  C39. A message is written verbatim, so one that holds a newline is not one line: for any two records
  there is a single one, with the level, category and code of the first, whose message makes the sink write
  exactly the text of both.
\<close>

theorem newline_in_message_forges_a_record:
  "stream_text (snd (run_calls immediate_step
      [a\<lparr>error := (error a)\<lparr>err_message := err_message (error a) @ [newline] @ line_prefix b @ err_message (error b)\<rparr>\<rparr>] os)) =
   stream_text (snd (run_calls immediate_step [a, b] os))"
  unfolding immediate_text by (simp add: log_line_def line_prefix_def)

end
