(* ===== verification/Log_Pipeline.thy ===== *)
theory Log_Pipeline
  imports Async_Waiting Stream_Sinks
begin

text \<open>
  The logging path of \<open>include/vosp/logger.hpp\<close> from end to end: producers write to an asynchronous
  logger, its background thread hands the records to the parallel-dispatch backend, and the backend
  to a \<open>Sink<Immediate>\<close> on an output stream with limited room.
\<close>

section \<open>The configuration\<close>

text \<open>The state of the program holds the backend and the stream; the sink is object 0.\<close>

type_synonym pipeline = "Logger \<times> ostream"

definition stream_sink :: "pipeline sink_write" where
  "stream_sink target entry s =
     (case immediate_step entry (snd s) of (answer, os) \<Rightarrow> (Returned answer, (fst s, os)))"

abbreviation put_backend :: "Logger \<Rightarrow> pipeline \<Rightarrow> pipeline" where
  "put_backend lg s \<equiv> (lg, snd s)"

definition pipeline_backend :: "policy \<Rightarrow> pipeline metadata \<Rightarrow> Level \<Rightarrow> Error \<Rightarrow> (pipeline, bool) callable" where
  "pipeline_backend accepts md = virtual_write_owned (Logger_vtable accepts md stream_sink fst put_backend)"

text \<open>The line of a record does not depend on when and where it is written.\<close>

definition record_line :: "PendingRecord \<Rightarrow> string" where
  "record_line r =
     ''['' @ level_name (record_level r) @ ''] ['' @ category_name (err_category (record_error r)) @
       ''] code='' @ dec (unat (err_code (record_error r))) @ '' message='' @ err_message (record_error r) @ [newline]"

lemma record_line: "log_line (log_entry md (record_level r) (record_error r) s) = record_line r"
  by (simp add: log_line_def line_prefix_def log_entry_def record_line_def)

section \<open>Delivery to the stream\<close>

lemma backend_writes_line:
  assumes "accepts (record_level r)"
  shows "\<exists>os'. pipeline_backend accepts md (record_level r) (record_error r) (Logger_new [0], os) =
      (Returned (good os'), (Logger_new [0], os')) \<and>
    stream_view os' = emit (record_line r) (stream_view os)"
proof -
  let ?s = "(Logger_new [0], os)"
  let ?entry = "log_entry md (record_level r) (record_error r) ?s"
  have one: "attached (Logger_new [0]) = [0]" by (simp add: attached_new insert_last_def)
  then have "sinks (Logger_new [0]) \<noteq> []" by auto
  then have call: "pipeline_backend accepts md (record_level r) (record_error r) ?s = stream_sink 0 ?entry ?s"
    using write_entry_broadcast [of fst ?s accepts md stream_sink "record_level r" "record_error r"]
      Logger_new_ok [of "[0]"] assms
    by (simp add: pipeline_backend_def Logger_vtable_def one del: broadcast.simps)
  obtain answer os' where step: "immediate_step ?entry os = (answer, os')" by force
  have "map_prod id stream_view (immediate_step ?entry os) = line_step ?entry (stream_view os)"
    by (rule immediate.commutes) simp
  then have "answer = good os'" "stream_view os' = emit (record_line r) (stream_view os)"
    by (simp_all add: step line_step_def record_line good_view)
  then show ?thesis by (simp add: call stream_sink_def step)
qed

abbreviation pipeline_step :: "policy \<Rightarrow> pipeline metadata \<Rightarrow> backend_call \<Rightarrow> (pipeline, bool) callable" where
  "pipeline_step accepts md \<equiv> backend_step (pipeline_backend accepts md) fst put_backend"

abbreviation line_of :: "PendingRecord \<Rightarrow> LogEntry" where
  "line_of r \<equiv> log_entry MinimalMetadataPolicy (record_level r) (record_error r) ()"

lemma pipeline_run:
  assumes "\<forall>r \<in> set rs. accepts (record_level r)"
  shows "\<exists>os'. run_calls (pipeline_step accepts md) (map Backend_write rs) (Logger_new [0], os) =
      (map Returned (fst (run_calls line_step (map line_of rs) (stream_view os))), (Logger_new [0], os')) \<and>
    stream_view os' = snd (run_calls line_step (map line_of rs) (stream_view os))"
  using assms
proof (induction rs arbitrary: os)
  case Nil
  then show ?case by simp
next
  case (Cons r rs)
  then obtain os1 where os1: "pipeline_backend accepts md (record_level r) (record_error r) (Logger_new [0], os) =
      (Returned (good os1), (Logger_new [0], os1))" "stream_view os1 = emit (record_line r) (stream_view os)"
    using backend_writes_line [of accepts r md os] by auto
  from Cons obtain os2 where os2: "run_calls (pipeline_step accepts md) (map Backend_write rs) (Logger_new [0], os1) =
      (map Returned (fst (run_calls line_step (map line_of rs) (stream_view os1))), (Logger_new [0], os2))"
      "stream_view os2 = snd (run_calls line_step (map line_of rs) (stream_view os1))"
    by auto
  have "line_step (line_of r) (stream_view os) = (good os1, stream_view os1)"
    by (simp add: line_step_def record_line os1(2) [symmetric] good_view)
  then show ?case using os1(1) os2 by (simp split: prod.splits)
qed

lemma written_writes: "map fst log = map Backend_write rs \<Longrightarrow> written log = rs"
  by (induction log arbitrary: rs rule: written.induct) auto

lemma failed_writes_zip:
  "length rs = length bs \<Longrightarrow>
     failed_writes (zip (map Backend_write rs) (map Returned bs)) = length (filter Not bs)"
  by (induction rs bs rule: list_induct2) auto

text \<open>Which of the records fit on the stream.\<close>

definition fits :: "ostream \<Rightarrow> PendingRecord list \<Rightarrow> nat \<Rightarrow> bool" where
  "fits os rs k \<longleftrightarrow> good os \<and> length (concat (map record_line (take (Suc k) rs))) \<le> room os"

lemma fits_answers:
  "fst (run_calls line_step (map line_of rs) (stream_view os)) = map (fits os rs) [0..<length rs]"
  by (simp add: stream_view_def line_answers fits_def take_map comp_def record_line)

lemma fits_all:
  assumes "good os" and "length (concat (map record_line rs)) \<le> room os"
  shows "fits os rs k"
proof -
  have "concat (map record_line rs) =
      concat (map record_line (take (Suc k) rs)) @ concat (map record_line (drop (Suc k) rs))"
    by (simp flip: concat_append map_append)
  then have "length (concat (map record_line (take (Suc k) rs))) \<le> length (concat (map record_line rs))" by simp
  with assms show ?thesis by (simp add: fits_def)
qed

section \<open>Properties\<close>

text \<open>
  C14. Logging to a stream, end to end: whatever producers, owners and the background thread do, the text
  of the stream has grown by the lines of the records delivered so far, in the order in which they
  were accepted and cut off only where the stream was full, and \<open>failed_records()\<close> counts the records
  whose line did not fit. When nothing waits or is in delivery, which is when \<open>flush()\<close> returns, those
  are all the accepted records, and on a stream with room for them none has failed.
\<close>

theorem async_log_reaches_the_stream:
  assumes "waiting_reach accepts (pipeline_backend accepts md) fst put_backend (Logger_new [0], os) m"
    and "map fst (backend_log (run m)) = map Backend_write rs"
  shows "accepted_records (run m) = rs @ undelivered (worker (run m)) @ queue (logger (run m)) \<and>
    stream_text (snd (program (run m))) = stream_text os @
      (if good os then take (room os) (concat (map record_line rs)) else []) \<and>
    failed_records (logger (run m)) = of_nat (length (filter (\<lambda>k. \<not> fits os rs k) [0..<length rs])) \<and>
    (async_drained (logger (run m)) \<and> good os \<and> length (concat (map record_line rs)) \<le> room os \<longrightarrow>
      stream_text (snd (program (run m))) = stream_text os @ concat (map record_line (accepted_records (run m))) \<and>
      failed_records (logger (run m)) = 0)"
proof -
  let ?bs = "map (fits os rs) [0..<length rs]"
  note inv = async_reach_inv [OF waiting_reach_run [OF assms(1)]]
  have written: "written (backend_log (run m)) = rs"
    using assms(2) by (rule written_writes)
  have "\<forall>r \<in> set rs. accepts (record_level r)" using inv written by (auto simp: async_inv_def)
  from pipeline_run [OF this, of md os] inv assms(2) obtain os'
    where os': "map snd (backend_log (run m)) = map Returned ?bs" "program (run m) = (Logger_new [0], os')"
      "stream_view os' = emit (concat (map record_line rs)) (stream_view os)"
    by (auto simp: async_inv_def fits_answers line_steps comp_def record_line)
  have out: "stream_text (snd (program (run m))) = stream_text os @
      (if good os then take (room os) (concat (map record_line rs)) else [])"
    using os'(2,3) by (simp add: stream_view_def split: if_splits)
  have "backend_log (run m) = zip (map Backend_write rs) (map Returned ?bs)"
    by (metis zip_map_fst_snd assms(2) os'(1))
  then have "failed_writes (backend_log (run m)) = length (filter Not ?bs)"
    using failed_writes_zip [of rs ?bs] by (simp only: length_map length_upt minus_nat.diff_0)
  then have failed: "failed_records (logger (run m)) = of_nat (length (filter (\<lambda>k. \<not> fits os rs k) [0..<length rs]))"
    using inv by (simp add: async_inv_def filter_map comp_def)
  have accepted: "accepted_records (run m) = rs @ undelivered (worker (run m)) @ queue (logger (run m))"
    using inv written by (simp add: async_inv_def)
  have "accepted_records (run m) = rs" if "async_drained (logger (run m))"
    using accepted that inv by (cases "worker (run m)") (auto simp: async_inv_def async_drained_def)
  then show ?thesis using out failed accepted fits_all [of os rs] by auto
qed


text \<open>One record is accepted, delivered to a stream with room for fifty characters, and flushed.\<close>

definition down :: PendingRecord where
  "down = \<lparr>record_level = INFO, record_error = make_Error NETWORK 1000 ''down''\<rparr>"

definition delivery_schedule :: "move list" where
  "delivery_schedule = [Begin (Client 0) (Publishing (record_level down) (record_error down)), Turn (Client 0), Work, Work, Work]"

lemma delivery_run:
  assumes "pipeline_backend AcceptAllPolicy md (record_level down) (record_error down) s = (Returned b, s')"
  shows "\<exists>m. play AcceptAllPolicy (pipeline_backend AcceptAllPolicy md) delivery_schedule (waiting_start s) = Some m \<and>
    backend_log (run m) = [(Backend_write down, Returned b)] \<and> async_drained (logger (run m)) \<and>
    accepted_records (run m) = [down]"
  using assms
  by (simp add: delivery_schedule_def down_def run_simps)

theorem async_log_reaches_the_stream_witness:
  "\<exists>m. waiting_reach AcceptAllPolicy (pipeline_backend AcceptAllPolicy MinimalMetadataPolicy) fst put_backend
       (Logger_new [0], \<lparr>writes = [], room = 50, good = True, sync_succeeds = True\<rparr>) m \<and>
     stream_text (snd (program (run m))) = ''[INFO] [NETWORK] code=1000 message=down'' @ [newline]"
proof -
  let ?os = "\<lparr>writes = [], room = 50, good = True, sync_succeeds = True\<rparr>"
  let ?b = "pipeline_backend AcceptAllPolicy MinimalMetadataPolicy"
  have acc: "AcceptAllPolicy (record_level down)" by (simp add: AcceptAllPolicy_def)
  obtain os' where written_line: "?b (record_level down) (record_error down) (Logger_new [0], ?os) =
      (Returned (good os'), (Logger_new [0], os'))"
    using backend_writes_line [of AcceptAllPolicy down MinimalMetadataPolicy ?os, OF acc] by blast
  obtain m where m: "play AcceptAllPolicy ?b delivery_schedule (waiting_start (Logger_new [0], ?os)) = Some m"
    "backend_log (run m) = [(Backend_write down, Returned (good os'))]" "async_drained (logger (run m))"
    "accepted_records (run m) = [down]"
    using delivery_run [OF written_line] by blast
  have reach: "waiting_reach AcceptAllPolicy ?b fst put_backend (Logger_new [0], ?os) m"
    by (rule play_reach [OF m(1) waiting_reach.constructed])
  have "dec 1000 = ''1000''" by code_simp
  then have line: "record_line down = ''[INFO] [NETWORK] code=1000 message=down'' @ [newline]"
    by (simp add: record_line_def down_def level_name_def level_defs category_name_def)
  have "map fst (backend_log (run m)) = map Backend_write [down]" by (simp add: m(2))
  from async_log_reaches_the_stream [OF reach this] m(3,4) line
  have "stream_text (snd (program (run m))) = ''[INFO] [NETWORK] code=1000 message=down'' @ [newline]" by simp
  with reach show ?thesis by blast
qed

end
