(* ===== verification/Buffered_Sink.thy ===== *)
theory Buffered_Sink
  imports Stream_Sinks
begin

text \<open>
  \<open>Sink<sink_policy::Buffered>\<close> of \<open>include/vosp/logger.hpp\<close>: one buffer (shard) per writing thread,
  written to the stream when it reaches a threshold or on \<open>flush\<close>. A thread finds its shard through
  two thread-local variables that all buffered sinks share: the id of the sink they belong to and
  the address of the shard, here its index in the deque. Other sinks used by the same threads
  overwrite them, which is an operation of the model.
\<close>

section \<open>State and operations\<close>

record Shard =
  producer :: nat
  buffer :: string

record Buffered =
  output_stream :: ostream
  flush_threshold :: nat
  instance_id :: nat
  shards :: "Shard list"
  cached :: "nat \<Rightarrow> nat \<times> nat"

definition default_flush_threshold :: nat where "default_flush_threshold = 64 * 1024"

text \<open>\<open>next_id\<close> is the counter shared by all sinks, which starts at one; \<open>cs\<close> the thread-local
  variables of the threads, which start at zero.\<close>

definition Buffered_new ::
  "ostream \<Rightarrow> nat \<Rightarrow> nat \<Rightarrow> (nat \<Rightarrow> nat \<times> nat) \<Rightarrow> (std_exception + Buffered) \<times> nat" where
  "Buffered_new os threshold next_id cs =
     (if threshold = 0
      then (Inl (Invalid_argument ''flush threshold must be greater than zero''), next_id + 1)
      else (Inr \<lparr>output_stream = os, flush_threshold = threshold, instance_id = next_id, shards = [],
              cached = cs\<rparr>, next_id + 1))"

text \<open>Finding the shard of thread \<open>t\<close>.\<close>

fun find_shard :: "nat \<Rightarrow> Shard list \<Rightarrow> nat option" where
  "find_shard t [] = None"
| "find_shard t (s # ss) = (if producer s = t then Some 0 else map_option Suc (find_shard t ss))"

definition current_thread_shard :: "nat \<Rightarrow> Buffered \<Rightarrow> nat \<times> Buffered" where
  "current_thread_shard t b =
     (if fst (cached b t) = instance_id b then (snd (cached b t), b)
      else (case find_shard t (shards b) of
          Some i \<Rightarrow> (i, b\<lparr>cached := (cached b)(t := (instance_id b, i))\<rparr>)
        | None \<Rightarrow> (length (shards b),
            b\<lparr>shards := shards b @ [\<lparr>producer = t, buffer = []\<rparr>],
              cached := (cached b)(t := (instance_id b, length (shards b)))\<rparr>)))"

definition set_buffer :: "nat \<Rightarrow> string \<Rightarrow> Buffered \<Rightarrow> Buffered" where
  "set_buffer i s b = b\<lparr>shards := (shards b)[i := (shards b ! i)\<lparr>buffer := s\<rparr>]\<rparr>"

definition flush_shard :: "nat \<Rightarrow> Buffered \<Rightarrow> bool \<times> Buffered" where
  "flush_shard i b =
     (if buffer (shards b ! i) = [] then (True, b)
      else (let b1 = set_buffer i [] (b\<lparr>output_stream := ostream_write (buffer (shards b ! i)) (output_stream b)\<rparr>)
            in (good (output_stream b1), b1)))"

definition buffered_write :: "nat \<Rightarrow> LogEntry \<Rightarrow> Buffered \<Rightarrow> (bool \<times> Buffered) option" where
  "buffered_write t entry b =
     (case prepare_text_record entry of
        None \<Rightarrow> None
      | Some r \<Rightarrow>
          (case current_thread_shard t b of (i, b1) \<Rightarrow>
            (let s1 = buffer (shards b1 ! i) @ take (prefix_size r) (prefix r);
                 s2 = (if message_is_buffered r then s1 else s1 @ message r @ [newline]);
                 b2 = set_buffer i s2 b1
             in if length s2 < flush_threshold b2 then Some (True, b2) else Some (flush_shard i b2))))"

fun flush_all :: "nat list \<Rightarrow> bool \<Rightarrow> Buffered \<Rightarrow> bool \<times> Buffered" where
  "flush_all [] success b = (success, b)"
| "flush_all (i # is) success b =
     (case flush_shard i b of (done, b1) \<Rightarrow> flush_all is (done \<and> success) b1)"

definition buffered_flush :: "Buffered \<Rightarrow> bool \<times> Buffered" where
  "buffered_flush b =
     (case flush_all [0..<length (shards b)] True b of (success, b1) \<Rightarrow>
        (let b2 = b1\<lparr>output_stream := ostream_flush (output_stream b1)\<rparr> in (good (output_stream b2) \<and> success, b2)))"

text \<open>The destructor flushes, and drops the answer.\<close>

definition buffered_destroy :: "Buffered \<Rightarrow> Buffered" where
  "buffered_destroy b = snd (buffered_flush b)"

datatype sink_call = Write nat LogEntry | Flush | Other_sink nat nat nat

fun sink_call_step :: "sink_call \<Rightarrow> Buffered \<Rightarrow> bool \<times> Buffered" where
  "sink_call_step (Write t entry) b = the (buffered_write t entry b)"
| "sink_call_step Flush b = buffered_flush b"
| "sink_call_step (Other_sink t n i) b =
     (if n = instance_id b then (True, b) else (True, b\<lparr>cached := (cached b)(t := (n, i))\<rparr>))"

section \<open>The buffers as a map from threads\<close>

definition buffers :: "Buffered \<Rightarrow> nat \<rightharpoonup> string" where
  "buffers b = map_of (map (\<lambda>s. (producer s, buffer s)) (shards b))"

definition buffered_ok :: "Buffered \<Rightarrow> bool" where
  "buffered_ok b \<longleftrightarrow> 0 < flush_threshold b \<and> distinct (map producer (shards b)) \<and>
     (\<forall>s \<in> set (shards b). length (buffer s) < flush_threshold b) \<and>
     (\<forall>t. fst (cached b t) = instance_id b \<longrightarrow>
        snd (cached b t) < length (shards b) \<and> producer (shards b ! snd (cached b t)) = t)"

lemma find_shard_Some:
  "find_shard t ss = Some i \<Longrightarrow> i < length ss \<and> producer (ss ! i) = t"
  by (induction t ss arbitrary: i rule: find_shard.induct) (auto split: if_splits)

lemma find_shard_None: "find_shard t ss = None \<longleftrightarrow> t \<notin> producer ` set ss"
  by (induction t ss rule: find_shard.induct) auto

lemma map_of_shards_nth:
  "distinct (map producer ss) \<Longrightarrow> i < length ss \<Longrightarrow>
     map_of (map (\<lambda>s. (producer s, buffer s)) ss) (producer (ss ! i)) = Some (buffer (ss ! i))"
  by (rule map_of_is_SomeI) (auto simp: comp_def)

lemma map_of_shards_update:
  "distinct (map producer ss) \<Longrightarrow> i < length ss \<Longrightarrow>
     map_of (map (\<lambda>s. (producer s, buffer s)) (ss[i := (ss ! i)\<lparr>buffer := x\<rparr>])) =
     (map_of (map (\<lambda>s. (producer s, buffer s)) ss))(producer (ss ! i) \<mapsto> x)"
proof (induction ss arbitrary: i)
  case Nil
  then show ?case by simp
next
  case (Cons s ss)
  show ?case
  proof (cases i)
    case 0
    then show ?thesis by (simp add: fun_eq_iff)
  next
    case (Suc m)
    with Cons.prems have "producer (ss ! m) \<in> producer ` set ss" by simp
    with Cons.prems have "producer s \<noteq> producer (ss ! m)" by auto
    with Suc Cons show ?thesis by (auto simp: fun_eq_iff)
  qed
qed

lemma producers_update: "map producer (ss[i := (ss ! i)\<lparr>buffer := x\<rparr>]) = map producer ss"
proof (cases "i < length ss")
  case True
  have "(map producer ss)[i := map producer ss ! i] = map producer ss" by (rule list_update_id)
  with True show ?thesis by (simp add: map_update)
qed (simp add: list_update_beyond)

section \<open>Each operation on the map\<close>

lemma set_buffer_effect:
  assumes "distinct (map producer (shards b))" and "i < length (shards b)"
  shows "buffers (set_buffer i x b) = (buffers b)(producer (shards b ! i) \<mapsto> x)"
    and "map producer (shards (set_buffer i x b)) = map producer (shards b)"
    and "output_stream (set_buffer i x b) = output_stream b" and "cached (set_buffer i x b) = cached b"
    and "flush_threshold (set_buffer i x b) = flush_threshold b"
    and "instance_id (set_buffer i x b) = instance_id b"
  using map_of_shards_update [OF assms, of x] producers_update [of "shards b" i x]
  by (simp_all add: set_buffer_def buffers_def)

lemma set_buffer_ok:
  assumes "buffered_ok b" and "i < length (shards b)" and "length x < flush_threshold b"
  shows "buffered_ok (set_buffer i x b)"
proof -
  have len: "length (shards (set_buffer i x b)) = length (shards b)" by (simp add: set_buffer_def)
  have dist: "distinct (map producer (shards b))" using assms(1) by (simp add: buffered_ok_def)
  note eff = set_buffer_effect [OF dist assms(2), of x]
  have "producer (shards (set_buffer i x b) ! j) = producer (shards b ! j)" if "j < length (shards b)" for j
    using arg_cong [OF eff(2), of "\<lambda>xs. xs ! j"] that by (simp add: len)
  moreover have "length (buffer s) < flush_threshold b" if "s \<in> set (shards (set_buffer i x b))" for s
    using that assms by (auto simp: set_buffer_def buffered_ok_def dest!: set_update_subset_insert [THEN subsetD])
  ultimately show ?thesis
    using assms(1) eff len unfolding buffered_ok_def by (metis (no_types))
qed

text \<open>A thread gets its own shard, which may be new and empty.\<close>

lemma current_shard:
  assumes "buffered_ok b"
  obtains i b1 where "current_thread_shard t b = (i, b1)" and "buffered_ok b1" and "i < length (shards b1)"
    and "producer (shards b1 ! i) = t" and "output_stream b1 = output_stream b"
    and "flush_threshold b1 = flush_threshold b" and "instance_id b1 = instance_id b"
    and "buffer (shards b1 ! i) = (case buffers b t of None \<Rightarrow> [] | Some x \<Rightarrow> x)"
    and "\<And>u. u \<noteq> t \<Longrightarrow> buffers b1 u = buffers b u"
proof -
  have dist: "distinct (map producer (shards b))" using assms by (simp add: buffered_ok_def)
  have own: "buffers b t = Some (buffer (shards b ! i))" if "i < length (shards b)" "producer (shards b ! i) = t" for i
    using map_of_shards_nth [OF dist that(1)] that(2) by (simp add: buffers_def)
  show thesis
  proof (cases "fst (cached b t) = instance_id b")
    case True
    then have "snd (cached b t) < length (shards b)" "producer (shards b ! snd (cached b t)) = t"
      using assms by (auto simp: buffered_ok_def)
    with True assms own show thesis by (intro that [of "snd (cached b t)" b]) (simp_all add: current_thread_shard_def)
  next
    case False
    show thesis
    proof (cases "find_shard t (shards b)")
      case (Some i)
      note found = find_shard_Some [OF Some]
      let ?b = "b\<lparr>cached := (cached b)(t := (instance_id b, i))\<rparr>"
      have "buffered_ok ?b" using assms found by (simp add: buffered_ok_def)
      moreover have "buffers ?b = buffers b" by (simp add: buffers_def)
      ultimately show thesis
        using False Some found own [of i] by (intro that [of i ?b]) (simp_all add: current_thread_shard_def)
    next
      case None
      then have new: "t \<notin> producer ` set (shards b)" by (simp add: find_shard_None)
      let ?b = "b\<lparr>shards := shards b @ [\<lparr>producer = t, buffer = []\<rparr>],
        cached := (cached b)(t := (instance_id b, length (shards b)))\<rparr>"
      have "buffers b t = None" using new by (simp add: buffers_def map_of_eq_None_iff image_iff)
      moreover have "buffered_ok ?b" using assms new by (auto simp: buffered_ok_def nth_append)
      moreover have "buffers ?b u = buffers b u" if "u \<noteq> t" for u
        using that by (simp add: buffers_def map_add_def split: option.split)
      ultimately show thesis
        using False None by (intro that [of "length (shards b)" ?b]) (simp_all add: current_thread_shard_def)
    qed
  qed
qed

text \<open>What a thread has buffered.\<close>

definition pending :: "Buffered \<Rightarrow> nat \<Rightarrow> string" where
  "pending b t = (case buffers b t of None \<Rightarrow> [] | Some x \<Rightarrow> x)"

lemma pending_nth:
  "distinct (map producer (shards b)) \<Longrightarrow> i < length (shards b) \<Longrightarrow>
     pending b (producer (shards b ! i)) = buffer (shards b ! i)"
  by (simp add: pending_def buffers_def map_of_shards_nth)

lemma pending_set_buffer:
  assumes "distinct (map producer (shards b))" and "i < length (shards b)"
  shows "pending (set_buffer i x b) = (pending b)(producer (shards b ! i) := x)"
  using set_buffer_effect(1) [OF assms, of x] by (simp add: pending_def fun_eq_iff)

lemma set_buffer_twice:
  "i < length (shards b) \<Longrightarrow> set_buffer i x (set_buffer i y b) = set_buffer i x b"
  by (simp add: set_buffer_def)

lemma set_buffer_output:
  "set_buffer i x (b\<lparr>output_stream := os\<rparr>) = (set_buffer i x b)\<lparr>output_stream := os\<rparr>"
  by (simp add: set_buffer_def)

lemma output_frame [simp]:
  "pending (b\<lparr>output_stream := os\<rparr>) = pending b"
  "buffered_ok (b\<lparr>output_stream := os\<rparr>) = buffered_ok b"
  by (simp_all add: pending_def buffers_def buffered_ok_def fun_eq_iff)

lemma flush_shard_effect:
  assumes "buffered_ok b" and "i < length (shards b)"
  obtains ans b1 where "flush_shard i b = (ans, b1)" and "buffered_ok b1"
    and "pending b1 = (pending b)(producer (shards b ! i) := [])"
    and "output_stream b1 = (if pending b (producer (shards b ! i)) = [] then output_stream b
           else ostream_write (pending b (producer (shards b ! i))) (output_stream b))"
    and "ans \<longleftrightarrow> pending b (producer (shards b ! i)) = [] \<or> good (output_stream b1)"
    and "map producer (shards b1) = map producer (shards b)" and "instance_id b1 = instance_id b"
proof -
  have dist: "distinct (map producer (shards b))" and thr: "0 < flush_threshold b"
    using assms(1) by (simp_all add: buffered_ok_def)
  let ?x = "buffer (shards b ! i)"
  note own = pending_nth [OF dist assms(2)]
  show thesis
  proof (cases "?x = []")
    case True
    then show thesis
      using assms(1) own by (intro that [of True b]) (simp_all add: flush_shard_def fun_eq_iff)
  next
    case False
    let ?os = "ostream_write ?x (output_stream b)"
    let ?b = "(set_buffer i [] b)\<lparr>output_stream := ?os\<rparr>"
    have "flush_shard i b = (good ?os, ?b)" using False by (simp add: flush_shard_def Let_def set_buffer_output)
    moreover have "buffered_ok ?b" using set_buffer_ok [OF assms, of "[]"] thr by simp
    moreover have "pending ?b = (pending b)(producer (shards b ! i) := [])"
      using pending_set_buffer [OF dist assms(2)] by simp
    ultimately show thesis
      using own False set_buffer_effect [OF dist assms(2), of "[]"]
      by (intro that [of "good ?os" ?b]) simp_all
  qed
qed

lemma buffered_write_effect:
  assumes "buffered_ok b"
  obtains ans b1 where "buffered_write t entry b = Some (ans, b1)" and "buffered_ok b1"
    and "if length (pending b t @ log_line entry) < flush_threshold b
         then ans \<and> output_stream b1 = output_stream b \<and> pending b1 = (pending b)(t := pending b t @ log_line entry)
         else output_stream b1 = ostream_write (pending b t @ log_line entry) (output_stream b) \<and>
           ans = good (output_stream b1) \<and> pending b1 = (pending b)(t := [])"
    and "instance_id b1 = instance_id b" and "flush_threshold b1 = flush_threshold b"
proof -
  obtain r where r: "prepare_text_record entry = Some r" "message r = err_message (error entry)"
    "take (prefix_size r) (prefix r) =
       (if message_is_buffered r then log_line entry else line_prefix entry)"
    using prepared_record by blast
  obtain i b1 where sh: "current_thread_shard t b = (i, b1)" "buffered_ok b1" "i < length (shards b1)"
    "producer (shards b1 ! i) = t" "output_stream b1 = output_stream b"
    "flush_threshold b1 = flush_threshold b" "instance_id b1 = instance_id b"
    "buffer (shards b1 ! i) = pending b t" "\<And>u. u \<noteq> t \<Longrightarrow> buffers b1 u = buffers b u"
    using current_shard [OF assms, of t] unfolding pending_def by metis
  have dist: "distinct (map producer (shards b1))" and thr: "0 < flush_threshold b1"
    using sh(2) by (simp_all add: buffered_ok_def)
  have own: "pending b1 t = pending b t" using pending_nth [OF dist sh(3)] sh(4,8) by simp
  have same: "pending b1 = pending b"
  proof
    fix u show "pending b1 u = pending b u"
      using own sh(9) [of u] by (cases "u = t") (simp_all add: pending_def)
  qed
  let ?x = "pending b t @ log_line entry"
  let ?b2 = "set_buffer i ?x b1"
  have "log_line entry = line_prefix entry @ message r @ [newline]" by (simp add: log_line_def r(2))
  then have call: "buffered_write t entry b =
      (if length ?x < flush_threshold ?b2 then Some (True, ?b2) else Some (flush_shard i ?b2))"
    using r(1,3) sh(1,8) by (cases "message_is_buffered r") (simp_all add: buffered_write_def Let_def)
  note eff = set_buffer_effect [OF dist sh(3)] and pend = pending_set_buffer [OF dist sh(3)]
  show thesis
  proof (cases "length ?x < flush_threshold b")
    case True
    with call eff sh(2-7) pend same show thesis
      by (intro that [of True ?b2]) (simp_all add: set_buffer_ok)
  next
    case False
    let ?os = "ostream_write ?x (output_stream b)"
    let ?b3 = "(set_buffer i [] b1)\<lparr>output_stream := ?os\<rparr>"
    have "buffer (shards ?b2 ! i) = ?x" using sh(3) by (simp add: set_buffer_def)
    moreover have "log_line entry \<noteq> []" by (simp add: log_line_def)
    ultimately have "flush_shard i ?b2 = (good ?os, ?b3)"
      using sh(3,5) eff(3) [of ?x]
      by (simp add: flush_shard_def Let_def set_buffer_output set_buffer_twice)
    moreover have "buffered_ok ?b3" using set_buffer_ok [OF sh(2,3), of "[]"] thr by simp
    ultimately show thesis
      using False call eff sh(4,6,7) pend same
      by (intro that [of "good ?os" ?b3]) (simp_all del: append_assoc)
  qed
qed

section \<open>Nothing is lost and threads keep their order\<close>

text \<open>
  While the stream is healthy, its text is a sequence of chunks, each written for one thread, and
  the chunks of a thread followed by what it has buffered are the lines of its records in order.
\<close>

definition chunks_of :: "nat \<Rightarrow> (nat \<times> string) list \<Rightarrow> string" where
  "chunks_of t cs = concat (map snd (filter (\<lambda>c. fst c = t) cs))"

lemma chunks_of_simps [simp]:
  "chunks_of t [] = []"
  "chunks_of t (cs @ [(u, x)]) = (if u = t then chunks_of t cs @ x else chunks_of t cs)"
  by (simp_all add: chunks_of_def)

definition conserves :: "string \<Rightarrow> (nat \<Rightarrow> LogEntry list) \<Rightarrow> Buffered \<Rightarrow> bool" where
  "conserves before history b \<longleftrightarrow> good (output_stream b) \<longrightarrow>
     (\<exists>cs. stream_text (output_stream b) = before @ concat (map snd cs) \<and>
        (\<forall>t. chunks_of t cs @ pending b t = concat (map log_line (history t))))"

lemma good_write:
  "good (ostream_write x os) \<Longrightarrow> good os \<and> stream_text (ostream_write x os) = stream_text os @ x"
  by (auto simp: ostream_write_def split: if_splits)

text \<open>Moving the buffer of a thread to the stream conserves its text.\<close>

lemma conserves_move:
  assumes "conserves before history b" and "output_stream b1 = ostream_write (pending b t @ x) (output_stream b)"
    and "pending b1 = (pending b)(t := [])"
    and "\<And>u. concat (map log_line (history' u)) = concat (map log_line (history u)) @ (if u = t then x else [])"
  shows "conserves before history' b1"
proof (unfold conserves_def, intro impI)
  assume "good (output_stream b1)"
  with assms(2) have "good (output_stream b)"
    and moved: "stream_text (output_stream b1) = stream_text (output_stream b) @ pending b t @ x"
    using good_write [of "pending b t @ x" "output_stream b"] by simp_all
  with assms(1) obtain cs where cs: "stream_text (output_stream b) = before @ concat (map snd cs)"
    "\<forall>u. chunks_of u cs @ pending b u = concat (map log_line (history u))"
    by (auto simp: conserves_def)
  have "stream_text (output_stream b1) = before @ concat (map snd (cs @ [(t, pending b t @ x)]))"
    by (simp add: moved cs(1))
  moreover have "chunks_of u (cs @ [(t, pending b t @ x)]) @ pending b1 u =
      concat (map log_line (history' u))" for u
    using cs(2) [rule_format, of u] by (auto simp: assms(3,4) simp flip: append_assoc)
  ultimately show "\<exists>cs. stream_text (output_stream b1) = before @ concat (map snd cs) \<and>
      (\<forall>t. chunks_of t cs @ pending b1 t = concat (map log_line (history' t)))"
    by blast
qed

lemma conserves_flush_shard:
  assumes "conserves before history b" and "buffered_ok b" and "i < length (shards b)"
    and "flush_shard i b = (ans, b1)"
  shows "conserves before history b1"
proof -
  let ?t = "producer (shards b ! i)"
  obtain b2 where b2: "flush_shard i b = (ans, b2)" "pending b2 = (pending b)(?t := [])"
    "output_stream b2 = (if pending b ?t = [] then output_stream b
       else ostream_write (pending b ?t) (output_stream b))"
    using flush_shard_effect [OF assms(2,3)] assms(4) by (metis prod.inject)
  with assms(4) have b1: "b1 = b2" by simp
  show ?thesis
  proof (cases "pending b ?t = []")
    case True
    then have "pending b2 = pending b" using b2(2) by auto
    with True assms(1) b2(3) show ?thesis by (simp add: conserves_def b1)
  next
    case False
    with b2 show ?thesis by (intro conserves_move [OF assms(1), of _ ?t "[]"]) (simp_all add: b1)
  qed
qed

lemma conserves_write:
  assumes "conserves before history b" and "buffered_ok b" and "buffered_write t entry b = Some (ans, b1)"
  shows "conserves before (history(t := history t @ [entry])) b1"
proof -
  let ?x = "pending b t @ log_line entry"
  have eff: "if length ?x < flush_threshold b
      then ans \<and> output_stream b1 = output_stream b \<and> pending b1 = (pending b)(t := ?x)
      else output_stream b1 = ostream_write ?x (output_stream b) \<and>
        ans = good (output_stream b1) \<and> pending b1 = (pending b)(t := [])"
    using buffered_write_effect [OF assms(2), of t entry] assms(3) by (metis option.inject prod.inject)
  show ?thesis
  proof (cases "length ?x < flush_threshold b")
    case True
    with eff have out: "output_stream b1 = output_stream b" "pending b1 = (pending b)(t := ?x)" by simp_all
    show ?thesis
      unfolding conserves_def out
    proof (intro impI)
      assume "good (output_stream b)"
      with assms(1) obtain cs where cs: "stream_text (output_stream b) = before @ concat (map snd cs)"
        "\<forall>u. chunks_of u cs @ pending b u = concat (map log_line (history u))"
        by (auto simp: conserves_def)
      have "chunks_of u cs @ ((pending b)(t := ?x)) u =
          concat (map log_line ((history(t := history t @ [entry])) u))" for u
        using cs(2) [rule_format, of u] by (auto simp flip: append_assoc)
      with cs(1) show "\<exists>cs. stream_text (output_stream b) = before @ concat (map snd cs) \<and>
          (\<forall>u. chunks_of u cs @ ((pending b)(t := ?x)) u =
            concat (map log_line ((history(t := history t @ [entry])) u)))" by blast
    qed
  next
    case False
    with eff show ?thesis by (intro conserves_move [OF assms(1), of _ t "log_line entry"]) simp_all
  qed
qed

lemma flush_all_effect:
  "buffered_ok b \<Longrightarrow> \<forall>i \<in> set is. i < length (shards b) \<Longrightarrow> conserves before history b \<Longrightarrow>
     flush_all is success b = (ans, b1) \<Longrightarrow>
   buffered_ok b1 \<and> conserves before history b1 \<and> instance_id b1 = instance_id b \<and>
     map producer (shards b1) = map producer (shards b) \<and>
     (\<forall>t. pending b1 t = (if t \<in> (\<lambda>i. producer (shards b ! i)) ` set is then [] else pending b t))"
proof (induction "is" arbitrary: success b)
  case Nil
  then show ?case by simp
next
  case (Cons i js)
  have i: "i < length (shards b)" using Cons.prems(2) by simp
  obtain a b2 where b2: "flush_shard i b = (a, b2)" "buffered_ok b2"
    "pending b2 = (pending b)(producer (shards b ! i) := [])"
    "map producer (shards b2) = map producer (shards b)" "instance_id b2 = instance_id b"
    using flush_shard_effect [OF Cons.prems(1) i] by metis
  have len: "length (shards b2) = length (shards b)" using arg_cong [OF b2(4), of length] by simp
  have prods: "producer (shards b2 ! j) = producer (shards b ! j)" if "j \<in> set js" for j
    using arg_cong [OF b2(4), of "\<lambda>xs. xs ! j"] that Cons.prems(2) len by simp
  have "flush_all js (a \<and> success) b2 = (ans, b1)" using Cons.prems(4) b2(1) by simp
  from Cons.IH [OF b2(2) _ conserves_flush_shard [OF Cons.prems(3,1) i b2(1)] this]
  have rest: "buffered_ok b1 \<and> conserves before history b1 \<and> instance_id b1 = instance_id b2 \<and>
     map producer (shards b1) = map producer (shards b2) \<and>
     (\<forall>t. pending b1 t = (if t \<in> (\<lambda>i. producer (shards b2 ! i)) ` set js then [] else pending b2 t))"
    using Cons.prems(2) len by simp
  have "(\<lambda>i. producer (shards b2 ! i)) ` set js = (\<lambda>i. producer (shards b ! i)) ` set js"
    using prods by simp
  with rest b2(3-5) show ?case by auto
qed

lemma pending_none: "t \<notin> producer ` set (shards b) \<Longrightarrow> pending b t = []"
proof -
  assume "t \<notin> producer ` set (shards b)"
  then have "buffers b t = None" by (simp add: buffers_def map_of_eq_None_iff image_image)
  then show "pending b t = []" by (simp add: pending_def)
qed

lemma buffered_flush_effect:
  assumes "buffered_ok b" and "conserves before history b" and "buffered_flush b = (ans, b1)"
  shows "buffered_ok b1" and "conserves before history b1" and "\<And>t. pending b1 t = []"
    and "ans \<Longrightarrow> good (output_stream b1)" and "instance_id b1 = instance_id b"
proof -
  obtain a b2 where b2: "flush_all [0..<length (shards b)] True b = (a, b2)" by force
  then have b1: "b1 = b2\<lparr>output_stream := ostream_flush (output_stream b2)\<rparr>"
    and ans: "ans = (good (ostream_flush (output_stream b2)) \<and> a)"
    using assms(3) by (auto simp: buffered_flush_def Let_def)
  note all = flush_all_effect [OF assms(1) _ assms(2) b2, simplified]
  have fl: "good (ostream_flush os) \<Longrightarrow> good os \<and> writes (ostream_flush os) = writes os" for os
    by (auto simp: ostream_flush_def split: if_splits)
  show "buffered_ok b1" using all by (simp add: b1)
  have "conserves before history b2" using all by blast
  then show "conserves before history b1"
    using fl [of "output_stream b2"] by (simp add: conserves_def b1)
  show "pending b1 t = []" for t
  proof (cases "t \<in> producer ` set (shards b)")
    case True
    then obtain i where "i < length (shards b)" "producer (shards b ! i) = t"
      by (metis imageE in_set_conv_nth)
    then have "t \<in> (\<lambda>i. producer (shards b ! i)) ` {0..<length (shards b)}" by force
    with all show ?thesis by (simp add: b1)
  next
    case False
    have "pending b2 t = [] \<or> pending b2 t = pending b t" using all by metis
    with pending_none [OF False] show ?thesis by (auto simp: b1)
  qed
  show "ans \<Longrightarrow> good (output_stream b1)" by (simp add: b1 ans)
  show "instance_id b1 = instance_id b" using all by (simp add: b1)
qed

text \<open>Any sequence of calls on a fresh sink.\<close>

fun history_of :: "sink_call list \<Rightarrow> nat \<Rightarrow> LogEntry list" where
  "history_of [] = (\<lambda>_. [])"
| "history_of (Write t entry # cs) = (history_of cs)(t := entry # history_of cs t)"
| "history_of (c # cs) = history_of cs"

lemma history_append: "history_of (cs @ ds) t = history_of cs t @ history_of ds t"
  by (induction cs rule: history_of.induct) auto

definition after_calls :: "sink_call list \<Rightarrow> Buffered \<Rightarrow> Buffered" where
  "after_calls cs b = snd (run_calls sink_call_step cs b)"

lemma after_calls_snoc: "after_calls (cs @ [c]) b = snd (sink_call_step c (after_calls cs b))"
  by (induction cs arbitrary: b) (simp_all add: after_calls_def split: prod.splits)

lemma Buffered_new_ok:
  assumes "fst (Buffered_new os n i cs) = Inr b" and "\<forall>t. fst (cs t) < i"
  shows "buffered_ok b" and "conserves (stream_text os) (\<lambda>_. []) b"
proof -
  have b: "b = \<lparr>output_stream = os, flush_threshold = n, instance_id = i, shards = [], cached = cs\<rparr>" "0 < n"
    using assms(1) by (auto simp: Buffered_new_def split: if_splits)
  have "fst (cs t) \<noteq> i" for t using assms(2) by (simp add: less_imp_neq)
  then show "buffered_ok b" using b by (simp add: buffered_ok_def)
  show "conserves (stream_text os) (\<lambda>_. []) b"
    by (auto simp: conserves_def b pending_def buffers_def intro!: exI [of _ "[]"])
qed

lemma after_calls_inv:
  assumes "fst (Buffered_new os n i cs) = Inr b" and "\<forall>t. fst (cs t) < i"
  shows "buffered_ok (after_calls calls b) \<and>
    conserves (stream_text os) (history_of calls) (after_calls calls b)"
proof (induction calls rule: rev_induct)
  case Nil
  then show ?case using Buffered_new_ok [OF assms] by (simp add: after_calls_def)
next
  case (snoc c calls)
  let ?b = "after_calls calls b"
  have ok: "buffered_ok ?b" and cons: "conserves (stream_text os) (history_of calls) ?b"
    using snoc by blast+
  show ?case
  proof (cases c)
    case (Write t entry)
    obtain ans b1 where b1: "buffered_write t entry ?b = Some (ans, b1)" "buffered_ok b1"
      using buffered_write_effect [OF ok] by metis
    have "history_of (calls @ [c]) = (history_of calls)(t := history_of calls t @ [entry])"
      by (auto simp: Write history_append fun_eq_iff)
    moreover have "after_calls (calls @ [c]) b = b1" by (simp add: after_calls_snoc Write b1(1))
    ultimately show ?thesis using b1(2) conserves_write [OF cons ok b1(1)] by (simp only: simp_thms)
  next
    case Flush
    obtain ans b1 where b1: "buffered_flush ?b = (ans, b1)" by force
    have "history_of (calls @ [c]) = history_of calls" by (simp add: Flush history_append fun_eq_iff)
    with buffered_flush_effect(1,2) [OF ok cons b1] b1 show ?thesis
      by (simp add: after_calls_snoc Flush)
  next
    case (Other_sink t k j)
    have "history_of (calls @ [c]) = history_of calls" by (simp add: Other_sink history_append fun_eq_iff)
    moreover have "conserves (stream_text os) (history_of calls) (?b\<lparr>cached := x\<rparr>)" for x
      using cons by (simp add: conserves_def pending_def buffers_def)
    ultimately show ?thesis
      using ok cons by (auto simp: after_calls_snoc Other_sink buffered_ok_def)
  qed
qed

section \<open>Properties\<close>

text \<open>
  The buffered sink loses and reorders nothing within a thread: after any calls on a fresh sink,
  in which other sinks may use the threads' cached variables, a stream that is still healthy holds
  chunks each written for one thread, and for each thread its chunks followed by its buffer are
  exactly the lines of the records it wrote, in order.
\<close>

lemma buffered_sink_keeps_each_threads_order:
  assumes "fst (Buffered_new os threshold next_id cs) = Inr b" and "\<forall>t. fst (cs t) < next_id"
    and "good (output_stream (after_calls calls b))"
  shows "\<exists>chunks. stream_text (output_stream (after_calls calls b)) =
      stream_text os @ concat (map snd chunks) \<and>
    (\<forall>t. chunks_of t chunks @ pending (after_calls calls b) t = concat (map log_line (history_of calls t)))"
  using after_calls_inv [OF assms(1,2), of calls] assms(3) by (simp add: conserves_def)

definition empty_stream :: ostream where
  "empty_stream = \<lparr>writes = [], room = 10 ^ 6, good = True, sync_succeeds = True\<rparr>"

definition sample_entry :: LogEntry where
  "sample_entry = \<lparr>timestamp = 0, thread_id = 0, level = INFO, error = make_Error NETWORK 1000 ''down''\<rparr>"

lemma buffered_sink_keeps_each_threads_order_witness:
  "\<exists>b chunks. fst (Buffered_new empty_stream 1 1 (\<lambda>_. (0, 0))) = Inr b \<and>
     stream_text (output_stream (after_calls [Write 4 sample_entry] b)) = concat (map snd chunks) \<and>
     chunks_of 4 chunks @ pending (after_calls [Write 4 sample_entry] b) 4 = log_line sample_entry"
proof -
  obtain b where b: "fst (Buffered_new empty_stream 1 1 (\<lambda>_. (0, 0))) = Inr b"
    by (simp add: Buffered_new_def)
  have fields: "output_stream b = empty_stream" "flush_threshold b = 1"
    using b by (auto simp: Buffered_new_def)
  have "buffered_ok b" by (rule Buffered_new_ok(1) [OF b]) simp
  then obtain ans b1 where b1: "buffered_write 4 sample_entry b = Some (ans, b1)"
    "if length (pending b 4 @ log_line sample_entry) < flush_threshold b
         then ans \<and> output_stream b1 = output_stream b \<and>
           pending b1 = (pending b)(4 := pending b 4 @ log_line sample_entry)
         else output_stream b1 = ostream_write (pending b 4 @ log_line sample_entry) (output_stream b) \<and>
           ans = good (output_stream b1) \<and> pending b1 = (pending b)(4 := [])"
    by (rule buffered_write_effect [of b 4 sample_entry]) (rule that)
  have "pending b 4 = []"
    using b by (auto simp: Buffered_new_def pending_def buffers_def)
  moreover have "length (log_line sample_entry) \<le> 10 ^ 6"
    using length_line_prefix [of sample_entry] by (simp add: log_line_def sample_entry_def)
  ultimately have "good (output_stream b1)"
    using b1(2) by (auto simp: fields ostream_write_def empty_stream_def split: if_splits)
  moreover have "after_calls [Write 4 sample_entry] b = b1" by (simp add: after_calls_def b1(1))
  ultimately show ?thesis
    using buffered_sink_keeps_each_threads_order [OF b, of "[Write 4 sample_entry]"] b
    by (auto simp: empty_stream_def intro!: exI [of _ b])
qed

text \<open>
  \<open>flush()\<close> delivers: when it answers true, every record written to the sink so far, by any
  thread, is in the stream, and no buffer holds anything.
\<close>

lemma flush_delivers_every_record:
  assumes "fst (Buffered_new os threshold next_id cs) = Inr b" and "\<forall>t. fst (cs t) < next_id"
    and "buffered_flush (after_calls calls b) = (True, b')"
  shows "\<exists>chunks. stream_text (output_stream b') = stream_text os @ concat (map snd chunks) \<and>
    (\<forall>t. chunks_of t chunks = concat (map log_line (history_of calls t)) \<and> pending b' t = [])"
proof -
  have ok: "buffered_ok (after_calls calls b)"
    and cons: "conserves (stream_text os) (history_of calls) (after_calls calls b)"
    using after_calls_inv [OF assms(1,2)] by blast+
  note eff = buffered_flush_effect [OF ok cons assms(3)]
  show ?thesis using eff(2,4) by (simp add: conserves_def eff(3))
qed

text \<open>So does the destructor, when the stream is still healthy after it.\<close>

lemma destruction_delivers:
  assumes "fst (Buffered_new os threshold next_id cs) = Inr b" and "\<forall>t. fst (cs t) < next_id"
    and "good (output_stream (buffered_destroy (after_calls calls b)))"
  shows "\<exists>chunks. stream_text (output_stream (buffered_destroy (after_calls calls b))) =
      stream_text os @ concat (map snd chunks) \<and>
    (\<forall>t. chunks_of t chunks = concat (map log_line (history_of calls t)))"
proof -
  obtain ans b' where b': "buffered_flush (after_calls calls b) = (ans, b')" by force
  have ok: "buffered_ok (after_calls calls b)"
    and cons: "conserves (stream_text os) (history_of calls) (after_calls calls b)"
    using after_calls_inv [OF assms(1,2)] by blast+
  note eff = buffered_flush_effect [OF ok cons b']
  show ?thesis using eff(2) assms(3) by (simp add: buffered_destroy_def b' conserves_def eff(3))
qed

lemma flush_delivers_every_record_witness:
  "\<exists>b b'. fst (Buffered_new empty_stream 8 1 (\<lambda>_. (0, 0))) = Inr b \<and>
     buffered_flush (after_calls [] b) = (True, b') \<and> pending b' 4 = []"
proof -
  obtain b where b: "fst (Buffered_new empty_stream 8 1 (\<lambda>_. (0, 0))) = Inr b"
    by (simp add: Buffered_new_def)
  obtain b' where "buffered_flush (after_calls [] b) = (True, b')"
    using b by (auto simp: Buffered_new_def after_calls_def buffered_flush_def ostream_flush_def
        empty_stream_def)
  moreover from flush_delivers_every_record [OF b _ this] have "pending b' 4 = []" by auto
  ultimately show ?thesis using b by blast
qed

text \<open>
  Memory is bounded: after any calls every thread's buffer is shorter than the threshold, and
  no thread has two buffers; a zero threshold is rejected.
\<close>

lemma buffers_stay_below_the_threshold:
  assumes "fst (Buffered_new os threshold next_id cs) = Inr b" and "\<forall>t. fst (cs t) < next_id"
  shows "0 < threshold \<and> distinct (map producer (shards (after_calls calls b))) \<and>
    length (pending (after_calls calls b) t) < flush_threshold (after_calls calls b)"
proof -
  have ok: "buffered_ok (after_calls calls b)" using after_calls_inv [OF assms] by blast
  have pos: "0 < threshold" using assms(1) by (auto simp: Buffered_new_def split: if_splits)
  have dist: "distinct (map producer (shards (after_calls calls b)))"
    using ok by (simp add: buffered_ok_def)
  have "length (pending (after_calls calls b) t) < flush_threshold (after_calls calls b)"
  proof (cases "t \<in> producer ` set (shards (after_calls calls b))")
    case True
    then obtain i where "i < length (shards (after_calls calls b))"
      "producer (shards (after_calls calls b) ! i) = t" by (metis imageE in_set_conv_nth)
    with pending_nth [OF dist] ok show ?thesis by (metis buffered_ok_def nth_mem)
  next
    case False
    with pending_none [OF False] ok show ?thesis by (simp add: buffered_ok_def)
  qed
  with pos dist show ?thesis by blast
qed

lemma buffers_stay_below_the_threshold_witness:
  "\<exists>b. fst (Buffered_new empty_stream 8 1 (\<lambda>_. (0, 0))) = Inr b \<and>
     length (pending (after_calls [Write 4 sample_entry, Flush] b) 4) <
       flush_threshold (after_calls [Write 4 sample_entry, Flush] b)"
proof -
  obtain b where b: "fst (Buffered_new empty_stream 8 1 (\<lambda>_. (0, 0))) = Inr b"
    by (simp add: Buffered_new_def)
  with buffers_stay_below_the_threshold [OF b] show ?thesis by simp
qed

end
