(* ===== verification/Concurrent_Buffering.thy ===== *)
theory Concurrent_Buffering
  imports Buffered_Sink
begin

text \<open>
  The buffered sink of \<open>include/vosp/logger.hpp\<close> under concurrent use. A write finds the shard of its
  thread and then works on it under the mutex of the shard; \<open>flush\<close> takes a snapshot of the shards
  and writes them out one by one, each under its own mutex, before it flushes the stream, so that
  writes of other threads may come between. Every step is one of these critical sections.
\<close>

section \<open>Sections and steps\<close>

text \<open>What \<open>write\<close> does under the mutex of its shard.\<close>

definition append_to_shard :: "nat \<Rightarrow> LogEntry \<Rightarrow> Buffered \<Rightarrow> (bool \<times> Buffered) option" where
  "append_to_shard i entry b =
     (case prepare_text_record entry of
        None \<Rightarrow> None
      | Some r \<Rightarrow>
          (let s1 = buffer (shards b ! i) @ take (prefix_size r) (prefix r);
               s2 = (if message_is_buffered r then s1 else s1 @ message r @ [newline]);
               b1 = set_buffer i s2 b
           in if length s2 < flush_threshold b1 then Some (True, b1) else Some (flush_shard i b1)))"

lemma buffered_write_sections:
  "buffered_write t entry b = (case current_thread_shard t b of (i, b1) \<Rightarrow> append_to_shard i entry b1)"
  by (simp add: buffered_write_def append_to_shard_def split: option.split prod.split)

text \<open>A thread is outside the sink, has found its shard, or has some shards left to write out; the last
  component of \<open>Flushing\<close> is a ghost, the records written when the flush began.\<close>

datatype sink_phase =
    Outside
  | Located LogEntry nat
  | Flushing "nat list" bool "nat \<Rightarrow> LogEntry list"

text \<open>The last three fields are ghosts: the records each thread has written, the chunks of text that
  went to the stream with the thread they belong to, and the flushes that have returned.\<close>

record buffering =
  sink :: Buffered
  phases :: "nat \<Rightarrow> sink_phase"
  history :: "nat \<Rightarrow> LogEntry list"
  chunks :: "(nat \<times> string) list"
  flushes :: "((nat \<Rightarrow> LogEntry list) \<times> bool) list"

definition buffering_start :: "Buffered \<Rightarrow> buffering" where
  "buffering_start b = \<lparr>sink = b, phases = (\<lambda>_. Outside), history = (\<lambda>_. []), chunks = [], flushes = []\<rparr>"

text \<open>The chunk that a section has added to the stream.\<close>

definition chunk_of :: "nat \<Rightarrow> Buffered \<Rightarrow> Buffered \<Rightarrow> (nat \<times> string) list" where
  "chunk_of t b b' =
     (if good (output_stream b')
      then [(t, drop (length (stream_text (output_stream b))) (stream_text (output_stream b')))] else [])"

inductive buffering_step :: "nat \<Rightarrow> buffering \<Rightarrow> buffering \<Rightarrow> bool" for t where
  locates: "phases s t = Outside \<Longrightarrow> current_thread_shard t (sink s) = (i, b) \<Longrightarrow>
     buffering_step t s (s\<lparr>sink := b, phases := (phases s)(t := Located entry i)\<rparr>)"
| appends: "phases s t = Located entry i \<Longrightarrow> append_to_shard i entry (sink s) = Some (ans, b) \<Longrightarrow>
     buffering_step t s (s\<lparr>sink := b, phases := (phases s)(t := Outside),
       history := (history s)(t := history s t @ [entry]), chunks := chunks s @ chunk_of t (sink s) b\<rparr>)"
| snapshots: "phases s t = Outside \<Longrightarrow>
     buffering_step t s
       (s\<lparr>phases := (phases s)(t := Flushing [0..<length (shards (sink s))] True (history s))\<rparr>)"
| flushes_shard: "phases s t = Flushing (i # is) success since \<Longrightarrow> flush_shard i (sink s) = (ans, b) \<Longrightarrow>
     buffering_step t s (s\<lparr>sink := b, phases := (phases s)(t := Flushing is (ans \<and> success) since),
       chunks := chunks s @ chunk_of (producer (shards (sink s) ! i)) (sink s) b\<rparr>)"
| flush_returns: "phases s t = Flushing [] success since \<Longrightarrow>
     b = (sink s)\<lparr>output_stream := ostream_flush (output_stream (sink s))\<rparr> \<Longrightarrow>
     buffering_step t s (s\<lparr>sink := b, phases := (phases s)(t := Outside),
       flushes := flushes s @ [(since, good (output_stream b) \<and> success)]\<rparr>)"
| uses_other_sink: "phases s t = Outside \<Longrightarrow> n \<noteq> instance_id (sink s) \<Longrightarrow>
     buffering_step t s (s\<lparr>sink := (sink s)\<lparr>cached := (cached (sink s))(t := (n, i))\<rparr>\<rparr>)"

inductive buffering_reach :: "Buffered \<Rightarrow> buffering \<Rightarrow> bool" for b where
  fresh_sink: "buffering_reach b (buffering_start b)"
| continues: "buffering_reach b s \<Longrightarrow> buffering_step t s s' \<Longrightarrow> buffering_reach b s'"

section \<open>The invariant\<close>

definition begins_with :: "'a list \<Rightarrow> 'a list \<Rightarrow> bool" where
  "begins_with xs ys \<longleftrightarrow> (\<exists>zs. ys = xs @ zs)"

lemma begins_with_refl [simp]: "begins_with xs xs" "begins_with [] xs" "begins_with xs (xs @ ys)"
  by (simp_all add: begins_with_def)

lemma begins_with_append: "begins_with xs ys \<Longrightarrow> begins_with xs (ys @ zs)"
  by (auto simp: begins_with_def)

lemma begins_with_trans: "begins_with xs ys \<Longrightarrow> begins_with ys zs \<Longrightarrow> begins_with xs zs"
  by (auto simp: begins_with_def)

abbreviation lines :: "LogEntry list \<Rightarrow> string" where
  "lines es \<equiv> concat (map log_line es)"

definition thread_ok :: "buffering \<Rightarrow> nat \<Rightarrow> bool" where
  "thread_ok s t \<longleftrightarrow>
     (case phases s t of
        Outside \<Rightarrow> True
      | Located entry i \<Rightarrow> cached (sink s) t = (instance_id (sink s), i)
      | Flushing is success since \<Rightarrow>
          (\<forall>i \<in> set is. i < length (shards (sink s))) \<and>
          (\<forall>u. begins_with (lines (since u)) (lines (history s u))) \<and>
          (good (output_stream (sink s)) \<longrightarrow>
            (\<forall>u. u \<notin> (\<lambda>i. producer (shards (sink s) ! i)) ` set is \<longrightarrow>
              begins_with (lines (since u)) (chunks_of u (chunks s)))))"

definition text_ok :: "string \<Rightarrow> buffering \<Rightarrow> bool" where
  "text_ok before s \<longleftrightarrow>
     begins_with (before @ concat (map snd (chunks s))) (stream_text (output_stream (sink s))) \<and>
     (\<forall>t. begins_with (chunks_of t (chunks s)) (lines (history s t))) \<and>
     (good (output_stream (sink s)) \<longrightarrow>
       stream_text (output_stream (sink s)) = before @ concat (map snd (chunks s)) \<and>
       (\<forall>t. chunks_of t (chunks s) @ pending (sink s) t = lines (history s t)))"

definition flushes_ok :: "buffering \<Rightarrow> bool" where
  "flushes_ok s \<longleftrightarrow>
     (\<forall>f \<in> set (flushes s). snd f \<longrightarrow> (\<forall>u. begins_with (lines (fst f u)) (chunks_of u (chunks s))))"

definition buffering_inv :: "string \<Rightarrow> buffering \<Rightarrow> bool" where
  "buffering_inv before s \<longleftrightarrow>
     buffered_ok (sink s) \<and> text_ok before s \<and> (\<forall>t. thread_ok s t) \<and> flushes_ok s"


section \<open>What a section does to the stream\<close>

text \<open>A section of thread \<open>t\<close> (or one that writes out the shard of \<open>t\<close>) adds a record's line \<open>x\<close>, or
  nothing, to the text of the thread, and may move all of it to the stream.\<close>

definition section_moves :: "nat \<Rightarrow> string \<Rightarrow> Buffered \<Rightarrow> Buffered \<Rightarrow> bool" where
  "section_moves t x b b' \<longleftrightarrow>
     (output_stream b' = output_stream b \<and> pending b' = (pending b)(t := pending b t @ x)) \<or>
     (output_stream b' = ostream_write (pending b t @ x) (output_stream b) \<and> pending b' = (pending b)(t := []))"

lemma write_grows:
  "\<exists>zs. stream_text (ostream_write y os) = stream_text os @ zs"
  "good (ostream_write y os) \<Longrightarrow> good os \<and> stream_text (ostream_write y os) = stream_text os @ y"
  by (auto simp: ostream_write_def split: if_splits)

lemma section_moves_good:
  assumes "section_moves t x b b'" and "good (output_stream b')"
  obtains y where "good (output_stream b)" and "stream_text (output_stream b') = stream_text (output_stream b) @ y"
    and "chunk_of t b b' = [(t, y)]" and "y @ pending b' t = pending b t @ x"
    and "\<And>u. u \<noteq> t \<Longrightarrow> pending b' u = pending b u"
proof -
  have "\<exists>y. good (output_stream b) \<and> stream_text (output_stream b') = stream_text (output_stream b) @ y \<and>
      y @ pending b' t = pending b t @ x \<and> (\<forall>u. u \<noteq> t \<longrightarrow> pending b' u = pending b u)"
    using assms(1) unfolding section_moves_def
  proof (elim disjE conjE)
    assume "output_stream b' = output_stream b" "pending b' = (pending b)(t := pending b t @ x)"
    then show ?thesis using assms(2) by simp
  next
    assume "output_stream b' = ostream_write (pending b t @ x) (output_stream b)" "pending b' = (pending b)(t := [])"
    then show ?thesis using assms(2) write_grows(2) [of "pending b t @ x" "output_stream b"] by simp
  qed
  then show thesis using assms(2) by (auto simp: chunk_of_def intro: that)
qed

lemma section_moves_grows:
  "section_moves t x b b' \<Longrightarrow> \<exists>zs. stream_text (output_stream b') = stream_text (output_stream b) @ zs"
  using write_grows(1) by (auto simp: section_moves_def)

lemma section_moves_text:
  assumes "section_moves t x b b'" and "text_ok before s" and "sink s = b"
    and "sink s' = b'" and "chunks s' = chunks s @ chunk_of t b b'"
    and "\<And>u. lines (history s' u) = lines (history s u) @ (if u = t then x else [])"
  shows "text_ok before s'"
proof (cases "good (output_stream b')")
  case False
  then have "chunks s' = chunks s" using assms(5) by (simp add: chunk_of_def)
  moreover obtain zs where "stream_text (output_stream b') = stream_text (output_stream b) @ zs"
    using section_moves_grows [OF assms(1)] by blast
  ultimately show ?thesis
    using assms(2) False by (auto simp: text_ok_def assms(3,4,6) intro: begins_with_append)
next
  case True
  from section_moves_good [OF assms(1) this] obtain y where y: "good (output_stream b)"
    "stream_text (output_stream b') = stream_text (output_stream b) @ y" "chunk_of t b b' = [(t, y)]"
    "y @ pending b' t = pending b t @ x" "\<And>u. u \<noteq> t \<Longrightarrow> pending b' u = pending b u"
    by blast
  have old: "stream_text (output_stream b) = before @ concat (map snd (chunks s))"
    "\<And>u. chunks_of u (chunks s) @ pending b u = lines (history s u)"
    using assms(2) y(1) by (simp_all add: text_ok_def assms(3))
  have "stream_text (output_stream b') = before @ concat (map snd (chunks s'))"
    by (simp add: y(2,3) old(1) assms(5))
  moreover have all: "chunks_of u (chunks s') @ pending b' u = lines (history s' u)" for u
  proof (cases "u = t")
    case True
    have "chunks_of t (chunks s') @ pending b' t = chunks_of t (chunks s) @ (y @ pending b' t)"
      by (simp add: assms(5) y(3))
    then show ?thesis using old(2) [of t] True by (simp add: y(4) assms(6) flip: append_assoc)
  next
    case False
    then show ?thesis using old(2) [of u] by (simp add: assms(5,6) y(3,5))
  qed
  moreover have "begins_with (chunks_of u (chunks s')) (lines (history s' u))" for u
    using all [of u] begins_with_refl(3) by metis
  ultimately show ?thesis by (simp add: text_ok_def assms(4))
qed

lemma chunks_grow: "begins_with (chunks_of u cs) (chunks_of u (cs @ ds))"
  by (simp add: chunks_of_def)

lemma begins_with_later: "begins_with xs (chunks_of u cs) \<Longrightarrow> begins_with xs (chunks_of u (cs @ ds))"
  using begins_with_trans chunks_grow by blast

section \<open>The sections of the sink\<close>

lemma set_buffer_producers:
  "map producer (shards (set_buffer i x b)) = map producer (shards b)" "cached (set_buffer i x b) = cached b"
  "map producer (shards (b\<lparr>output_stream := os\<rparr>)) = map producer (shards b)"
  "cached (b\<lparr>output_stream := os\<rparr>) = cached b"
  by (simp_all add: set_buffer_def producers_update)

lemma append_section:
  assumes "buffered_ok b" and "cached b t = (instance_id b, i)" and "append_to_shard i entry b = Some (ans, b')"
  shows "buffered_ok b'" and "section_moves t (log_line entry) b b'"
    and "instance_id b' = instance_id b" and "cached b' = cached b"
    and "map producer (shards b') = map producer (shards b)"
proof -
  have "current_thread_shard t b = (i, b)" using assms(2) by (simp add: current_thread_shard_def)
  then have same: "buffered_write t entry b = append_to_shard i entry b" by (simp add: buffered_write_sections)
  from buffered_write_effect [OF assms(1), of t entry] obtain a b1 where
    "buffered_write t entry b = Some (a, b1)" "buffered_ok b1" "instance_id b1 = instance_id b"
    "if length (pending b t @ log_line entry) < flush_threshold b
     then a \<and> output_stream b1 = output_stream b \<and> pending b1 = (pending b)(t := pending b t @ log_line entry)
     else output_stream b1 = ostream_write (pending b t @ log_line entry) (output_stream b) \<and>
       a = good (output_stream b1) \<and> pending b1 = (pending b)(t := [])"
    by metis
  with assms(3) same show "buffered_ok b'" "instance_id b' = instance_id b" "section_moves t (log_line entry) b b'"
    by (auto simp: section_moves_def split: if_splits)
  show "cached b' = cached b" "map producer (shards b') = map producer (shards b)"
    using assms(3)
    by (auto simp: append_to_shard_def flush_shard_def set_buffer_producers Let_def split: option.splits if_splits)
qed

lemma flush_section:
  assumes "buffered_ok b" and "i < length (shards b)" and "flush_shard i b = (ans, b')"
  shows "buffered_ok b'" and "section_moves (producer (shards b ! i)) [] b b'"
    and "pending b' (producer (shards b ! i)) = []"
    and "instance_id b' = instance_id b" and "cached b' = cached b"
    and "map producer (shards b') = map producer (shards b)"
proof -
  from flush_shard_effect [OF assms(1,2)] obtain a b1 where b1: "flush_shard i b = (a, b1)" "buffered_ok b1"
    "pending b1 = (pending b)(producer (shards b ! i) := [])"
    "output_stream b1 = (if pending b (producer (shards b ! i)) = [] then output_stream b
       else ostream_write (pending b (producer (shards b ! i))) (output_stream b))"
    "map producer (shards b1) = map producer (shards b)" "instance_id b1 = instance_id b"
    by metis
  with assms(3) show "buffered_ok b'" "pending b' (producer (shards b ! i)) = []"
      "instance_id b' = instance_id b" "map producer (shards b') = map producer (shards b)" by auto
  show "section_moves (producer (shards b ! i)) [] b b'"
    using assms(3) b1 by (auto simp: section_moves_def)
  show "cached b' = cached b"
    using assms(3) by (auto simp: flush_shard_def set_buffer_producers Let_def split: if_splits)
qed

lemma locate_section:
  assumes "buffered_ok b" and "current_thread_shard t b = (i, b')"
  shows "buffered_ok b'" and "pending b' = pending b" and "output_stream b' = output_stream b"
    and "instance_id b' = instance_id b" and "cached b' = (cached b)(t := (instance_id b, i))"
    and "\<exists>ps. map producer (shards b') = map producer (shards b) @ ps"
proof -
  obtain j b1 where b1: "current_thread_shard t b = (j, b1)" "buffered_ok b1" "j < length (shards b1)"
    "producer (shards b1 ! j) = t" "output_stream b1 = output_stream b" "instance_id b1 = instance_id b"
    "buffer (shards b1 ! j) = pending b t" "\<And>u. u \<noteq> t \<Longrightarrow> buffers b1 u = buffers b u"
    using current_shard [OF assms(1), of t] unfolding pending_def by metis
  with assms(2) show "buffered_ok b'" "output_stream b' = output_stream b" "instance_id b' = instance_id b" by simp_all
  have "distinct (map producer (shards b1))" using b1(2) by (simp add: buffered_ok_def)
  then have "pending b1 t = pending b t" using pending_nth [of b1 j] b1(3,4,7) by simp
  then have "pending b1 u = pending b u" for u using b1(8) [of u] by (cases "u = t") (simp_all add: pending_def)
  then show "pending b' = pending b" using assms(2) b1(1) by auto
  show "cached b' = (cached b)(t := (instance_id b, i))"
    using assms(2)
    by (auto simp: current_thread_shard_def fun_eq_iff prod_eq_iff split: if_splits option.splits)
  show "\<exists>ps. map producer (shards b') = map producer (shards b) @ ps"
    using assms(2) by (auto simp: current_thread_shard_def split: if_splits option.splits)
qed

section \<open>Steps keep the invariant\<close>

text \<open>What never changes or only grows.\<close>

definition grows :: "buffering \<Rightarrow> buffering \<Rightarrow> bool" where
  "grows s s' \<longleftrightarrow> instance_id (sink s') = instance_id (sink s) \<and>
     (\<exists>ps. map producer (shards (sink s')) = map producer (shards (sink s)) @ ps) \<and>
     (\<exists>ds. chunks s' = chunks s @ ds) \<and>
     (\<forall>u. begins_with (lines (history s u)) (lines (history s' u))) \<and>
     (good (output_stream (sink s')) \<longrightarrow> good (output_stream (sink s)))"

lemma producer_stays:
  assumes "map producer ss' = map producer ss @ ps" and "i < length ss"
  shows "i < length ss'" and "producer (ss' ! i) = producer (ss ! i)"
proof -
  have "length ss' = length ss + length ps" using arg_cong [OF assms(1), of length] by simp
  then show len: "i < length ss'" using assms(2) by simp
  have "map producer ss' ! i = map producer ss ! i" using assms by (simp add: nth_append)
  then show "producer (ss' ! i) = producer (ss ! i)" using len assms(2) by simp
qed

lemma producers_image: "(\<lambda>i. producer (ss ! i)) ` {0..<length ss} = producer ` set ss"
proof -
  have "set ss = (\<lambda>i. ss ! i) ` {0..<length ss}" by (auto simp: set_conv_nth)
  then show ?thesis by (simp add: image_image)
qed

lemma thread_ok_frame:
  assumes "thread_ok s u" and "phases s' u = phases s u" and "cached (sink s') u = cached (sink s) u"
    and "grows s s'"
  shows "thread_ok s' u"
proof (cases "phases s u")
  case (Flushing js success since)
  obtain ps ds where g: "map producer (shards (sink s')) = map producer (shards (sink s)) @ ps"
    "chunks s' = chunks s @ ds" "\<And>v. begins_with (lines (history s v)) (lines (history s' v))"
    "good (output_stream (sink s')) \<Longrightarrow> good (output_stream (sink s))"
    using assms(4) unfolding grows_def by blast
  have old: "\<And>i. i \<in> set js \<Longrightarrow> i < length (shards (sink s))" "\<And>v. begins_with (lines (since v)) (lines (history s v))"
    "\<And>v. good (output_stream (sink s)) \<Longrightarrow> v \<notin> (\<lambda>i. producer (shards (sink s) ! i)) ` set js \<Longrightarrow>
      begins_with (lines (since v)) (chunks_of v (chunks s))"
    using assms(1) by (auto simp: thread_ok_def Flushing)
  have "(\<lambda>i. producer (shards (sink s') ! i)) ` set js = (\<lambda>i. producer (shards (sink s) ! i)) ` set js"
    using producer_stays(2) [OF g(1) old(1)] by (intro image_cong) auto
  moreover have "begins_with (lines (since v)) (lines (history s' v))" for v
    using begins_with_trans [OF old(2) g(3)] .
  ultimately show ?thesis
    using producer_stays(1) [OF g(1) old(1)] old(3) g(4) begins_with_later [of _ _ "chunks s" ds]
    by (simp add: thread_ok_def assms(2) Flushing g(2))
next
  case (Located entry i)
  then show ?thesis using assms by (simp add: thread_ok_def grows_def)
qed (use assms(2) in \<open>simp add: thread_ok_def\<close>)

lemma flushes_ok_grow:
  assumes "flushes_ok s" and "flushes s' = flushes s" and "grows s s'"
  shows "flushes_ok s'"
  using assms(1,3) begins_with_later unfolding flushes_ok_def grows_def assms(2) by metis

lemma inv_frame:
  assumes "buffering_inv before s" and "grows s s'" and "buffered_ok (sink s')" and "text_ok before s'"
    and "flushes s' = flushes s" and "\<And>u. u \<noteq> t \<Longrightarrow> phases s' u = phases s u"
    and "\<And>u. u \<noteq> t \<Longrightarrow> cached (sink s') u = cached (sink s) u" and "thread_ok s' t"
  shows "buffering_inv before s'"
  unfolding buffering_inv_def
proof (intro conjI allI)
  fix u
  show "thread_ok s' u"
    using assms(1) thread_ok_frame [of s u s'] assms(2,6-8) by (cases "u = t") (auto simp: buffering_inv_def)
  show "flushes_ok s'" by (rule flushes_ok_grow [OF _ assms(5,2)]) (use assms(1) in \<open>simp add: buffering_inv_def\<close>)
qed (use assms in simp_all)

lemma buffering_step_inv: "buffering_step t s s' \<Longrightarrow> buffering_inv before s \<Longrightarrow> buffering_inv before s'"
proof (induction rule: buffering_step.induct)
  case (locates s i b entry)
  have ok: "buffered_ok (sink s)" and t: "text_ok before s" using locates(3) by (simp_all add: buffering_inv_def)
  note sec = locate_section [OF ok locates(2)]
  show ?case
    by (rule inv_frame [OF locates(3), where t = t])
      (use sec t in \<open>auto simp: grows_def text_ok_def thread_ok_def\<close>)
next
  case (appends s entry i ans b)
  have ok: "buffered_ok (sink s)" and t: "text_ok before s" and c: "cached (sink s) t = (instance_id (sink s), i)"
    using appends(1,3) unfolding buffering_inv_def thread_ok_def by (auto split: sink_phase.splits dest: spec [of _ t])
  note sec = append_section [OF ok c appends(2)]
  let ?s = "s\<lparr>sink := b, phases := (phases s)(t := Outside),
    history := (history s)(t := history s t @ [entry]), chunks := chunks s @ chunk_of t (sink s) b\<rparr>"
  have "text_ok before ?s" by (rule section_moves_text [OF sec(2) t]) simp_all
  moreover have "good (output_stream b) \<Longrightarrow> good (output_stream (sink s))"
    using section_moves_good [OF sec(2)] by metis
  ultimately show ?case
    by (intro inv_frame [OF appends(3), where t = t])
      (use sec in \<open>auto simp: grows_def thread_ok_def\<close>)
next
  case (snapshots s)
  have ok: "buffered_ok (sink s)" and t: "text_ok before s" using snapshots(2) by (simp_all add: buffering_inv_def)
  have "begins_with (lines (history s u)) (chunks_of u (chunks s))"
    if "good (output_stream (sink s))" "u \<notin> producer ` set (shards (sink s))" for u
  proof -
    have "chunks_of u (chunks s) @ pending (sink s) u = lines (history s u)" using t that(1) by (simp add: text_ok_def)
    then show ?thesis using pending_none [OF that(2)] by simp
  qed
  moreover have "(\<lambda>i. producer (shards (sink s) ! i)) ` {0..<length (shards (sink s))} = producer ` set (shards (sink s))"
    by (rule producers_image)
  ultimately show ?case
    by (intro inv_frame [OF snapshots(2), where t = t])
      (use ok t in \<open>auto simp: grows_def text_ok_def thread_ok_def\<close>)
next
  case (flushes_shard s i js success since ans b)
  have ok: "buffered_ok (sink s)" and t: "text_ok before s" and th: "thread_ok s t"
    using flushes_shard(3) by (simp_all add: buffering_inv_def)
  have i: "i < length (shards (sink s))" using th flushes_shard(1) by (simp add: thread_ok_def)
  let ?t = "producer (shards (sink s) ! i)"
  note sec = flush_section [OF ok i flushes_shard(2)]
  let ?s = "s\<lparr>sink := b, phases := (phases s)(t := Flushing js (ans \<and> success) since),
    chunks := chunks s @ chunk_of ?t (sink s) b\<rparr>"
  have t': "text_ok before ?s" by (rule section_moves_text [OF sec(2) t]) simp_all
  have good: "good (output_stream b) \<Longrightarrow> good (output_stream (sink s))"
    using section_moves_good [OF sec(2)] by metis
  have grow: "grows s ?s" using sec good by (simp add: grows_def)
  have moved: "begins_with (lines (since u)) (chunks_of u (chunks ?s))"
    if "good (output_stream b)" "u \<notin> (\<lambda>i. producer (shards b ! i)) ` set js" for u
  proof (cases "u = ?t")
    case True
    have "chunks_of u (chunks ?s) @ pending b u = lines (history s u)" using t' that(1) by (simp add: text_ok_def)
    then have "chunks_of u (chunks ?s) = lines (history s u)" using sec(3) by (simp add: True)
    then show ?thesis using th flushes_shard(1) by (simp add: thread_ok_def)
  next
    case False
    have "producer (shards b ! j) = producer (shards (sink s) ! j)" if "j \<in> set js" for j
      using producer_stays(2) [of "shards b" "shards (sink s)" "[]" j] sec(6) th flushes_shard(1) that
      by (simp add: thread_ok_def)
    then have "u \<notin> (\<lambda>i. producer (shards (sink s) ! i)) ` set (i # js)" using that(2) False by auto
    then show ?thesis
      using th flushes_shard(1) good [OF that(1)] begins_with_later by (simp add: thread_ok_def)
  qed
  have "thread_ok ?s t"
    using th flushes_shard(1) moved arg_cong [OF sec(6), of length] by (auto simp: thread_ok_def)
  then show ?case
    by (intro inv_frame [OF flushes_shard(3) grow, where t = t]) (use sec t' in simp_all)
next
  case (flush_returns s success since b)
  have ok: "buffered_ok (sink s)" and t: "text_ok before s" and th: "thread_ok s t" and f: "flushes_ok s"
    using flush_returns(3) by (simp_all add: buffering_inv_def)
  have fl: "good (ostream_flush os) \<Longrightarrow> good os" "stream_text (ostream_flush os) = stream_text os" for os
    by (auto simp: ostream_flush_def split: if_splits)
  let ?s = "s\<lparr>sink := b, phases := (phases s)(t := Outside),
    flushes := flushes s @ [(since, good (output_stream b) \<and> success)]\<rparr>"
  have "flushes_ok ?s"
    using f th flush_returns(1,2) fl(1) [of "output_stream (sink s)"] by (auto simp: flushes_ok_def thread_ok_def)
  moreover have "thread_ok ?s u" for u
  proof (cases "u = t")
    case False
    have "grows s ?s" using fl(1) by (simp add: grows_def flush_returns(2))
    then show ?thesis
      using thread_ok_frame [of s u ?s] False flush_returns(2,3) by (simp add: buffering_inv_def)
  qed (simp add: thread_ok_def)
  ultimately show ?case
    using ok t fl by (auto simp: buffering_inv_def text_ok_def flush_returns(2))
next
  case (uses_other_sink s n i)
  have ok: "buffered_ok (sink s)" and t: "text_ok before s" using uses_other_sink(3) by (simp_all add: buffering_inv_def)
  show ?case
    by (rule inv_frame [OF uses_other_sink(3), where t = t])
      (use ok t uses_other_sink(1,2) in \<open>auto simp: grows_def text_ok_def thread_ok_def buffered_ok_def pending_def buffers_def\<close>)
qed

lemma buffering_reach_inv:
  assumes "fst (Buffered_new os threshold next_id cs) = Inr b" and "\<forall>t. fst (cs t) < next_id"
    and "buffering_reach b s"
  shows "buffering_inv (stream_text os) s"
  using assms(3)
proof (induction rule: buffering_reach.induct)
  case fresh_sink
  have "output_stream b = os" "shards b = []" using assms(1) by (auto simp: Buffered_new_def split: if_splits)
  then show ?case
    using Buffered_new_ok(1) [OF assms(1,2)]
    by (simp add: buffering_inv_def buffering_start_def text_ok_def thread_ok_def flushes_ok_def pending_def buffers_def)
next
  case (continues s t s')
  then show ?case using buffering_step_inv by blast
qed

section \<open>Schedules\<close>

text \<open>\<open>perform\<close> computes the step that a move names.\<close>

datatype sink_move = Locate LogEntry | Append | Snapshot | Flush_next

fun perform :: "nat \<Rightarrow> sink_move \<Rightarrow> buffering \<Rightarrow> buffering option" where
  "perform t (Locate entry) s =
     (case phases s t of
        Outside \<Rightarrow>
          (case current_thread_shard t (sink s) of (i, b) \<Rightarrow>
             Some (s\<lparr>sink := b, phases := (phases s)(t := Located entry i)\<rparr>))
      | _ \<Rightarrow> None)"
| "perform t Append s =
     (case phases s t of
        Located entry i \<Rightarrow>
          (case append_to_shard i entry (sink s) of
             Some (ans, b) \<Rightarrow> Some (s\<lparr>sink := b, phases := (phases s)(t := Outside),
               history := (history s)(t := history s t @ [entry]), chunks := chunks s @ chunk_of t (sink s) b\<rparr>)
           | None \<Rightarrow> None)
      | _ \<Rightarrow> None)"
| "perform t Snapshot s =
     (case phases s t of
        Outside \<Rightarrow> Some (s\<lparr>phases := (phases s)(t := Flushing [0..<length (shards (sink s))] True (history s))\<rparr>)
      | _ \<Rightarrow> None)"
| "perform t Flush_next s =
     (case phases s t of
        Flushing (i # js) success since \<Rightarrow>
          (case flush_shard i (sink s) of (ans, b) \<Rightarrow>
             Some (s\<lparr>sink := b, phases := (phases s)(t := Flushing js (ans \<and> success) since),
               chunks := chunks s @ chunk_of (producer (shards (sink s) ! i)) (sink s) b\<rparr>))
      | Flushing [] success since \<Rightarrow>
          (let b = (sink s)\<lparr>output_stream := ostream_flush (output_stream (sink s))\<rparr> in
             Some (s\<lparr>sink := b, phases := (phases s)(t := Outside),
               flushes := flushes s @ [(since, good (output_stream b) \<and> success)]\<rparr>))
      | _ \<Rightarrow> None)"

lemma perform_step: "perform t m s = Some s' \<Longrightarrow> buffering_step t s s'"
proof (induction t m s rule: perform.induct)
  case (1 t entry s)
  then show ?case by (auto intro: buffering_step.locates split: sink_phase.splits prod.splits)
next
  case (2 t s)
  then show ?case by (auto intro: buffering_step.appends split: sink_phase.splits option.splits)
next
  case (3 t s)
  then show ?case by (auto intro: buffering_step.snapshots split: sink_phase.splits)
next
  case (4 t s)
  then show ?case
    by (auto simp: Let_def intro: buffering_step.flushes_shard buffering_step.flush_returns [OF _ refl, simplified]
        split: sink_phase.splits list.splits prod.splits)
qed

fun performs :: "(nat \<times> sink_move) list \<Rightarrow> buffering \<Rightarrow> buffering option" where
  "performs [] s = Some s"
| "performs ((t, m) # ms) s = (case perform t m s of Some s' \<Rightarrow> performs ms s' | None \<Rightarrow> None)"

lemma performs_reach: "performs ms s = Some s' \<Longrightarrow> buffering_reach b s \<Longrightarrow> buffering_reach b s'"
proof (induction ms s rule: performs.induct)
  case (2 t m ms s)
  then show ?case using perform_step buffering_reach.continues by (fastforce split: option.splits)
qed simp

text \<open>Thread 4 writes two records; between them thread 5 starts a flush that returns afterwards.\<close>

definition overlapping_flush :: "(nat \<times> sink_move) list" where
  "overlapping_flush = [(4, Locate sample_entry), (4, Append), (5, Snapshot), (4, Locate sample_entry),
     (5, Flush_next), (4, Append), (5, Flush_next)]"

lemma overlapping_run:
  "case performs overlapping_flush (buffering_start (projr (fst (Buffered_new \<lparr>writes = [], room = 50, good = True, sync_succeeds = True\<rparr> 45 1 (\<lambda>_. (0, 0)))))) of
     Some s \<Rightarrow> map snd (flushes s) = [True] \<and> length (fst (hd (flushes s)) 4) = 1 \<and> length (history s 4) = 2 \<and>
       good (output_stream (sink s)) \<and> pending (sink s) 4 = log_line sample_entry
   | None \<Rightarrow> False"
  by code_simp


section \<open>Properties\<close>

text \<open>
  C8. The buffered sink loses and reorders nothing within a thread: however the sections of writes,
  flushes and other sinks interleave, the text of the stream begins with the chunks that went to it,
  and the chunks of a thread are the beginning of the lines of its records, in order; while the stream
  is healthy it holds nothing but the chunks, and what the threads have buffered is exactly the rest.
\<close>

theorem concurrent_buffering_keeps_order:
  assumes "fst (Buffered_new os threshold next_id cs) = Inr b" and "\<forall>t. fst (cs t) < next_id"
    and "buffering_reach b s"
  shows "(\<exists>rest. stream_text (output_stream (sink s)) = stream_text os @ concat (map snd (chunks s)) @ rest \<and>
      (good (output_stream (sink s)) \<longrightarrow> rest = [])) \<and>
    (\<exists>rest. \<forall>t. chunks_of t (chunks s) @ rest t = lines (history s t) \<and>
      (good (output_stream (sink s)) \<longrightarrow> rest t = pending (sink s) t))"
proof
  have inv: "text_ok (stream_text os) s" using buffering_reach_inv [OF assms] by (simp add: buffering_inv_def)
  show "\<exists>rest. stream_text (output_stream (sink s)) = stream_text os @ concat (map snd (chunks s)) @ rest \<and>
      (good (output_stream (sink s)) \<longrightarrow> rest = [])"
    using inv by (cases "good (output_stream (sink s))") (auto simp: text_ok_def begins_with_def)
  show "\<exists>rest. \<forall>t. chunks_of t (chunks s) @ rest t = lines (history s t) \<and>
      (good (output_stream (sink s)) \<longrightarrow> rest t = pending (sink s) t)"
  proof (cases "good (output_stream (sink s))")
    case True
    then show ?thesis using inv by (intro exI [of _ "pending (sink s)"]) (simp add: text_ok_def)
  next
    case False
    have "\<forall>t. \<exists>r. lines (history s t) = chunks_of t (chunks s) @ r"
      using inv by (simp add: text_ok_def begins_with_def)
    then obtain r where "\<And>t. lines (history s t) = chunks_of t (chunks s) @ r t" by metis
    then show ?thesis using False by (intro exI [of _ r]) simp
  qed
qed

text \<open>The sink of the witnesses: room for fifty characters, written out at forty-five.\<close>

definition small_stream :: ostream where
  "small_stream = \<lparr>writes = [], room = 50, good = True, sync_succeeds = True\<rparr>"

lemma overlapping_reach:
  obtains b s where "fst (Buffered_new small_stream 45 1 (\<lambda>_. (0, 0))) = Inr b" and "buffering_reach b s"
    and "map snd (flushes s) = [True]" and "length (fst (hd (flushes s)) 4) = 1" and "length (history s 4) = 2"
    and "good (output_stream (sink s))" and "pending (sink s) 4 = log_line sample_entry"
proof -
  obtain b where b: "fst (Buffered_new small_stream 45 1 (\<lambda>_. (0, 0))) = Inr b" by (simp add: Buffered_new_def)
  then have "case performs overlapping_flush (buffering_start b) of
     Some s \<Rightarrow> map snd (flushes s) = [True] \<and> length (fst (hd (flushes s)) 4) = 1 \<and> length (history s 4) = 2 \<and>
       good (output_stream (sink s)) \<and> pending (sink s) 4 = log_line sample_entry
   | None \<Rightarrow> False"
    using overlapping_run by (simp add: small_stream_def)
  then obtain s where "performs overlapping_flush (buffering_start b) = Some s"
    "map snd (flushes s) = [True] \<and> length (fst (hd (flushes s)) 4) = 1 \<and> length (history s 4) = 2 \<and>
       good (output_stream (sink s)) \<and> pending (sink s) 4 = log_line sample_entry"
    by (auto split: option.splits)
  then show thesis using that b performs_reach buffering_reach.fresh_sink by metis
qed

theorem concurrent_buffering_keeps_order_witness:
  "\<exists>b s. fst (Buffered_new small_stream 45 1 (\<lambda>_. (0, 0))) = Inr b \<and> buffering_reach b s \<and>
     length (history s 4) = 2 \<and>
     chunks_of 4 (chunks s) @ log_line sample_entry = lines (history s 4)"
proof -
  obtain b s where s: "fst (Buffered_new small_stream 45 1 (\<lambda>_. (0, 0))) = Inr b" "buffering_reach b s"
    "length (history s 4) = 2" "good (output_stream (sink s))" "pending (sink s) 4 = log_line sample_entry"
    using overlapping_reach by metis
  have "\<forall>t. fst ((\<lambda>_. (0, 0)) t :: nat \<times> nat) < 1" by simp
  from concurrent_buffering_keeps_order [OF s(1) this s(2), THEN conjunct2] s(4,5)
  have "chunks_of 4 (chunks s) @ log_line sample_entry = lines (history s 4)" by metis
  with s show ?thesis by blast
qed

text \<open>
  C9. \<open>flush()\<close> delivers what was written before it: when a call of \<open>flush\<close> has answered true, the
  lines of all records that any thread had written when the call began are in the stream, whatever
  other threads wrote and flushed meanwhile.
\<close>

theorem concurrent_flush_delivers:
  assumes "fst (Buffered_new os threshold next_id cs) = Inr b" and "\<forall>t. fst (cs t) < next_id"
    and "buffering_reach b s" and "(before, True) \<in> set (flushes s)"
  shows "(\<exists>rest. stream_text (output_stream (sink s)) = stream_text os @ concat (map snd (chunks s)) @ rest) \<and>
    (\<forall>t. \<exists>later. chunks_of t (chunks s) = lines (before t) @ later)"
proof
  have inv: "text_ok (stream_text os) s" "flushes_ok s"
    using buffering_reach_inv [OF assms(1-3)] by (simp_all add: buffering_inv_def)
  show "\<exists>rest. stream_text (output_stream (sink s)) = stream_text os @ concat (map snd (chunks s)) @ rest"
    using inv(1) by (auto simp: text_ok_def begins_with_def)
  show "\<forall>t. \<exists>later. chunks_of t (chunks s) = lines (before t) @ later"
    using inv(2) assms(4) by (auto simp: flushes_ok_def begins_with_def)
qed

theorem concurrent_flush_delivers_witness:
  "\<exists>b s before. buffering_reach b s \<and> flushes s = [(before, True)] \<and> length (before 4) = 1 \<and>
     (\<exists>later. chunks_of 4 (chunks s) = lines (before 4) @ later)"
proof -
  obtain b s where s: "fst (Buffered_new small_stream 45 1 (\<lambda>_. (0, 0))) = Inr b" "buffering_reach b s"
    "map snd (flushes s) = [True]" "length (fst (hd (flushes s)) 4) = 1"
    using overlapping_reach by metis
  then obtain before where f: "flushes s = [(before, True)]" by auto
  have "\<forall>t. fst ((\<lambda>_. (0, 0)) t :: nat \<times> nat) < 1" by simp
  from concurrent_flush_delivers [OF s(1) this s(2), of before] f s(4)
  have "\<exists>later. chunks_of 4 (chunks s) = lines (before 4) @ later" by simp
  with s f show ?thesis by auto
qed

end
