(* ===== verification/Programs.thy ===== *)
theory Programs
  imports Routing Logger_Sync Stream_Sinks
begin

text \<open>
  The two programs of the repository that use the library end to end: \<open>main.cpp\<close>, which logs one
  record to standard output, and the fuzzing entry point of \<open>fuzz/vosp_error_fuzzer.cpp\<close>, which
  drives three registers and a multi-threaded system with an arbitrary byte string and traps when
  an error differs from its copy.
\<close>

section \<open>The demonstration program\<close>

text \<open>The state is \<open>std::cout\<close>; the only sink is object 0.\<close>

definition cout_sink :: "ostream sink_write" where
  "cout_sink target entry os = (case immediate_step entry os of (answer, os') \<Rightarrow> (Returned answer, os'))"

definition ready_error :: Error where
  "ready_error = make_Error NETWORK 1001 ''MicroErrorSystem is ready''"

definition main_program :: "(ostream \<Rightarrow> int) \<Rightarrow> (ostream \<Rightarrow> nat) \<Rightarrow> ostream \<Rightarrow> int completion \<times> ostream" where
  "main_program now get_id os =
     (case log_info (Logger_vtable AcceptAllPolicy (FullMetadataPolicy now get_id) cout_sink
             (\<lambda>_. Logger_new [0]) (\<lambda>lg os. os)) False ready_error os of
        (Returned logged, os') \<Rightarrow> (Returned (if logged then 0 else 1), os')
      | (Threw_std what, os') \<Rightarrow> (Threw_std what, os')
      | (Threw_other, os') \<Rightarrow> (Threw_other, os'))"

lemma immediate_step_line:
  "immediate_step entry os = (fst (line_step entry (stream_view os)), snd (immediate_step entry os)) \<and>
     stream_view (snd (immediate_step entry os)) = emit (log_line entry) (stream_view os)"
  using immediate.commutes [of entry os]
  by (cases "immediate_step entry os") (simp add: line_step_def)

section \<open>The fuzzing entry point\<close>

definition decode_category :: "u8 \<Rightarrow> Category" where
  "decode_category value =
     (let n = value mod 5 in
      if n = 0 then NETWORK
      else if n = 1 then DATABASE
      else if n = 2 then FILESYSTEM
      else if n = 3 then NONE
      else Category 0x7ffe)"

text \<open>The registers are objects 0, 1 and 2; the network register is also used directly.\<close>

definition fuzz_system :: ErrorSystem where
  "fuzz_system = System_new MultiThreaded [0, 1, 2]"

definition fuzz_operation :: "u32 \<Rightarrow> string \<Rightarrow> u8 list \<Rightarrow> nat \<Rightarrow> Register heap \<Rightarrow> Register heap" where
  "fuzz_operation code transition_message data index h =
     (let e = make_Error (decode_category (data ! index)) (of_nat (unat code + index)) transition_message;
          op = unat (data ! index AND 3)
      in if op = 0 then snd (system_add Register_vtable fuzz_system e h)
         else if op = 1 then snd (system_remove Register_vtable fuzz_system e h)
         else if op = 2 then
           snd (system_add Register_vtable fuzz_system e (snd (system_add Register_vtable fuzz_system e h)))
         else (let h1 = h(0 := snd (add e (h 0))) in h1(0 := snd (remove e (h1 0)))))"

datatype fuzz_result = Trapped | Fuzz_threw std_exception | Returned_zero "Register list"

definition fuzz_one_input :: "u8 list \<Rightarrow> fuzz_result" where
  "fuzz_one_input data =
     (let size = length data in
      if size = 0 then Returned_zero []
      else
        (let category = decode_category (data ! 0);
             code = (if size > 1 then ucast (data ! 1) else 0 :: u32);
             message_size = min (if size > 2 then size - 2 else 0) (16 * 1024);
             message = map (\<lambda>b. char_of (unat b)) (take message_size (drop (min size 2) data));
             error = make_Error category code message;
             copy = make_Error category code message
         in if \<not> error_eq error copy \<or> \<not> error_eq error copy then Trapped
            else
              (case Register_new NETWORK 16 64 of Inl x \<Rightarrow> Fuzz_threw x | Inr network \<Rightarrow>
              (case Register_new DATABASE 16 64 of Inl x \<Rightarrow> Fuzz_threw x | Inr database \<Rightarrow>
              (case Register_new FILESYSTEM 16 64 of Inl x \<Rightarrow> Fuzz_threw x | Inr filesystem \<Rightarrow>
                (let transition_message = take (min (length message) 8) message;
                     transition_end = min size 66;
                     h = fold (fuzz_operation code transition_message data) [2..<transition_end]
                           (\<lambda>a. if a = 0 then network else if a = 1 then database else filesystem)
                 in Returned_zero (map h [0, 1, 2])))))))"

definition fuzz_heap_ok :: "Register heap \<Rightarrow> bool" where
  "fuzz_heap_ok h \<longleftrightarrow> (\<forall>a. reg_inv (h a) \<and> capacity_limit (h a) = 64) \<and>
     map (\<lambda>a. register_category (h a)) [0, 1, 2] = [NETWORK, DATABASE, FILESYSTEM]"

lemma fuzz_dispatch_ok: "fuzz_heap_ok h \<Longrightarrow> fuzz_heap_ok (snd (dispatch Register_vtable op as e h))"
  using register_vt.dispatch_good [of UNIV h op as e]
    register_vt.dispatch_limit [of op as e h] register_vt.dispatch_category [of op as e h]
  by (simp add: fuzz_heap_ok_def Register_vtable_def)

lemma fuzz_direct_ok: "fuzz_heap_ok h \<Longrightarrow> fuzz_heap_ok (h(0 := snd (invoke Register_vtable op e (h 0))))"
  using register_vt.good_invoke [of "h 0" op e] register_vt.limit_invoke [of op e "h 0"]
    register_vt.category_invoke [of op e "h 0"]
  by (simp add: fuzz_heap_ok_def Register_vtable_def)

lemma fuzz_member_ok:
  "fuzz_heap_ok h \<Longrightarrow> fuzz_heap_ok (h(0 := snd (add e (h 0))))"
  "fuzz_heap_ok h \<Longrightarrow> fuzz_heap_ok (h(0 := snd (remove e (h 0))))"
  using fuzz_direct_ok [of h Op_add e] fuzz_direct_ok [of h Op_remove e]
  by (simp_all add: Register_vtable_def)

lemma fuzz_operation_ok: "fuzz_heap_ok h \<Longrightarrow> fuzz_heap_ok (fuzz_operation code msg data index h)"
  unfolding fuzz_operation_def Let_def system_add_def system_remove_def handler_add_def handler_remove_def
  by (intro if_split [of fuzz_heap_ok, THEN iffD2] conjI impI fuzz_member_ok fuzz_dispatch_ok)

lemma fuzz_operations_ok: "fuzz_heap_ok h \<Longrightarrow> fuzz_heap_ok (fold (fuzz_operation code msg data) is h)"
  by (induction "is" arbitrary: h) (simp_all add: fuzz_operation_ok)

lemma fuzz_registers:
  "Register_new c 16 64 = Inr \<lparr>register_category = c, capacity_limit = 64, errors = []\<rparr>"
  by (simp add: Register_new_def validate_limits_def max_register_capacity_def)

section \<open>Properties\<close>

text \<open>
  C40. The fuzzing entry point never traps and never throws, whatever bytes it gets, and the three
  registers it leaves hold at most 64 errors each, all of the register's own category and one per
  code: errors of the category NONE and of the unnamed category reach none of them.
\<close>

theorem fuzz_entry_point_never_traps:
  "case fuzz_one_input data of
     Returned_zero rs \<Rightarrow> rs = [] \<or> (map register_category rs = [NETWORK, DATABASE, FILESYSTEM] \<and>
       list_all (\<lambda>r. register_size r \<le> 64 \<and> distinct (map err_code (snapshot id r)) \<and>
         list_all (\<lambda>e. err_category e = register_category r) (snapshot id r)) rs)
   | _ \<Rightarrow> False"
proof (cases "data = []")
  case True
  then show ?thesis by (simp add: fuzz_one_input_def)
next
  case False
  let ?new = "\<lambda>c. \<lparr>register_category = c, capacity_limit = 64, errors = []\<rparr>"
  let ?h0 = "\<lambda>a :: nat. if a = 0 then ?new NETWORK else if a = 1 then ?new DATABASE else ?new FILESYSTEM"
  have start: "fuzz_heap_ok ?h0"
    by (auto simp: fuzz_heap_ok_def reg_inv_def max_register_capacity_def umap_ok_def umap_size_def umap_find_def)
  have "\<exists>code msg is. fuzz_one_input data =
      Returned_zero (map (fold (fuzz_operation code msg data) is ?h0) [0, 1, 2])"
    using False unfolding fuzz_one_input_def Let_def
    by (simp only: length_0_conv if_False error_eq_iff simp_thms fuzz_registers sum.case) (intro exI, rule refl)
  then obtain code msg js where "fuzz_one_input data =
      Returned_zero (map (fold (fuzz_operation code msg data) js ?h0) [0, 1, 2])"
    by (elim exE) (rule that)
  from this fuzz_operations_ok [OF start]
  obtain h where run: "fuzz_one_input data = Returned_zero (map h [0, 1, 2])"
    and heap: "fuzz_heap_ok h" by (rule that)
  have trav: "traversal id" by (simp add: traversal_def)
  have good: "register_size (h a) \<le> 64 \<and> distinct (map err_code (snapshot id (h a))) \<and>
      list_all (\<lambda>e. err_category e = register_category (h a)) (snapshot id (h a))" for a
  proof -
    have "reg_inv (h a)" and "capacity_limit (h a) = 64" using heap by (simp_all add: fuzz_heap_ok_def)
    with reg_inv_limits [OF this(1) trav] show ?thesis by (simp add: list_all_iff)
  qed
  have "map register_category (map h [0, 1, 2]) = [NETWORK, DATABASE, FILESYSTEM]"
    using heap by (simp add: fuzz_heap_ok_def)
  with good [of 0] good [of 1] good [of 2] show ?thesis unfolding run by simp
qed

text \<open>
  The demonstration program prints exactly the line of its record and exits with 0 when standard
  output takes it; when output is bad or full it exits with 1. It never ends with an exception.
\<close>

lemma main_prints_one_line:
  "fst (main_program now get_id os) =
     Returned (if good os \<and> length ''[INFO] [NETWORK] code=1001 message=MicroErrorSystem is ready'' < room os
       then 0 else 1) \<and>
   stream_text (snd (main_program now get_id os)) = stream_text os @
     (if good os then take (room os) (''[INFO] [NETWORK] code=1001 message=MicroErrorSystem is ready'' @ [newline])
      else [])"
proof -
  let ?md = "FullMetadataPolicy now get_id"
  let ?entry = "log_entry ?md INFO ready_error os"
  let ?text = "''[INFO] [NETWORK] code=1001 message=MicroErrorSystem is ready''"
  have "dec 1001 = ''1001''" by code_simp
  then have line: "log_line ?entry = ?text @ [newline]"
    by (simp add: log_line_def line_prefix_def log_entry_def level_name_def level_defs category_name_def
        ready_error_def)
  have one: "attached (Logger_new [0]) = [0]" by (simp add: attached_new insert_last_def)
  then have "sinks (Logger_new [0]) \<noteq> []" by auto
  then have call: "log_info (Logger_vtable AcceptAllPolicy ?md cout_sink (\<lambda>_. Logger_new [0]) (\<lambda>lg os. os))
      False ready_error os = cout_sink 0 ?entry os"
    using write_entry_broadcast [of "\<lambda>_. Logger_new [0]" os AcceptAllPolicy ?md cout_sink INFO ready_error]
      Logger_new_ok [of "[0]"]
    by (simp add: log_info_def publish_def Logger_vtable_def one AcceptAllPolicy_def del: broadcast.simps)
  obtain answer os' where step: "immediate_step ?entry os = (answer, os')" by force
  from immediate_step_line [of ?entry os]
  have res: "answer = (good os \<and> length (log_line ?entry) \<le> room os)"
    "stream_view os' = emit (log_line ?entry) (stream_view os)"
    by (simp_all add: step line_step_def stream_view_def)
  have out: "main_program now get_id os = (Returned (if answer then 0 else 1), os')"
    unfolding main_program_def call cout_sink_def step by simp
  have fits: "length (log_line ?entry) \<le> room os \<longleftrightarrow> length ?text < room os"
    unfolding line by auto
  have "stream_text os' = stream_text os @ (if good os then take (room os) (?text @ [newline]) else [])"
    using res(2) unfolding line stream_view_def by (cases "good os") (simp_all only: emit.simps if_True if_False prod.inject append_Nil2)
  with out res(1) fits show ?thesis by (simp only: fst_conv snd_conv)
qed

end
