(* ===== verification/Spec2Isabelle.thy ===== *)
theory Spec2Isabelle
  imports Concurrent_Register Concurrent_Routing Pool_Callbacks Concurrent_Logging Async_System Log_Pipeline
    Concurrent_Buffering Programs
begin

text \<open>
  A verification of the C++23 header library \<open>vosp\<close> (MicroErrorFramework): the error registers and
  systems of \<open>include/vosp/error.hpp\<close>, the worker pool of \<open>include/vosp/worker_pool.hpp\<close>, the loggers
  and sinks of \<open>include/vosp/logger.hpp\<close>, and the two programs \<open>main.cpp\<close> and
  \<open>fuzz/vosp_error_fuzzer.cpp\<close>.

  \<^bold>\<open>The program.\<close> Errors are values with a category, a code and a message. A \<open>Register\<close> stores the errors
  of one category by code, up to a limit. A handler routes an error to the first register of its
  category, with or without one mutex per register; an \<open>ErrorSystem\<close> is a handler behind a policy, and
  the asynchronous one submits its calls as jobs to an executor, such as the worker pool. The pool
  runs callbacks on a fixed number of threads from a ring of slots; the counts of queued and active
  tasks and the stopping flag are packed into one atomic word. A logger gives records to sinks,
  under a recursive mutex, without it, or through a bounded queue and a background thread. The two
  text sinks write lines to a stream, at once or through one buffer per thread.

  \<^bold>\<open>Conventions.\<close> A class is a \<open>record\<close> of its fields, a member function a function on it; a call that
  throws, answers an error or would be undefined has that outcome as a value (\<open>Inl\<close>, \<open>Threw\<close>, \<open>None\<close>).
  \<open>std::size_t\<close> in atomic words and counters and \<open>std::uint32_t\<close> codes are machine words; sizes of
  containers are \<open>nat\<close>. Objects that alias each other (registers of a handler, sinks of a logger) are
  addresses into a heap or into the state of the program. \<open>std::unordered_map\<close> is an association list
  with distinct keys, and where its traversal order shows it is a parameter. What a callback or a sink
  does is a parameter: any function on the state, with any outcome. Concurrent code is an
  inductive step relation whose steps are single atomic operations or critical sections; its
  reachable states carry the invariants, and an executable version of it runs concrete schedules.

  \<^bold>\<open>Theories.\<close>
  \<^item> \<open>Prelude\<close>, \<open>Unordered_Map\<close>, \<open>Refinement\<close>: word types, decimal text, maps, and the locale
    \<open>data_refinement\<close> by which sequences of calls on a concrete state are those of a specification.
  \<^item> \<open>Error_Model\<close>: \<open>Category\<close>, \<open>Error\<close>, \<open>Result\<close>, \<open>to_string\<close>, the formatter, \<open>ErrorHash\<close>, \<open>attempt\<close>.
    Printing identifies errors with named categories; \<open>attempt\<close> turns every exception into an error.
  \<^item> \<open>Registers\<close>, \<open>Concurrent_Register\<close>: every operation of \<open>Register\<close>; it refines a bounded map, keeps its
    limits, and is unchanged by failed calls, whose errors name its category; threads that share a default register linearise.
  \<^item> \<open>Routing\<close>, \<open>Concurrent_Routing\<close>: \<open>IRegister\<close> as a table of virtual functions (locales \<open>iregister\<close>,
    \<open>map_register\<close>), \<open>BasicHandler\<close>, the synchronous systems; they refine one bounded map per category.
    With a mutex per register every interleaving is a sequential run; without it, and with registers that
    do not lock themselves, an update can be lost.
  \<^item> \<open>Pool_State\<close>, \<open>Pool_Ring\<close>, \<open>Worker_Pool\<close>: the packed word and when its fields do not carry into each
    other, the ring (locale \<open>bounded_queue\<close>), and every critical section and atomic update of the pool.
  \<^item> \<open>Pool_Invariant\<close>, \<open>Pool_Protocol\<close>, \<open>Pool_Correctness\<close>, \<open>Pool_Theorems\<close>: workers and clients interleave by
    critical sections. Tasks are executed in order, each once; futures report what happened; nothing
    terminates the program; the queue is bounded; shutdown is final; workers drain the queue.
  \<^item> \<open>Pool_Machine\<close>, \<open>Machine_Invariant\<close>, \<open>Machine_Wakeups\<close>, \<open>Machine_Idle\<close>, \<open>Pool_Blocking\<close>,
    \<open>Machine_Termination\<close>, \<open>Pool_Waiting\<close>: the same pool by atomic operations, with the waiting loops, their
    counters, the completion epoch, notifications and joins. It refines the protocol, and runs of
    turns end.
  \<^item> \<open>Pool_Callbacks\<close>: the machine with the calls that callbacks make on their own pool, which keep the worker
    where it is until they return. Nobody sleeps for ever if notifications reach every eligible waiter, no
    callback waits for its own pool and some worker is not inside a call of its callback; a
    callback inside \<open>wait()\<close> stays there.
  \<^item> \<open>Async_System\<close>: the asynchronous system over any executor (locale \<open>executor\<close>), interpreted by the
    pool. The closure of a job is not atomic: the threads of the executor go through the handler by the
    steps of \<open>Concurrent_Routing\<close>, and the job is settled with what its thread comes out with. The
    operations that took effect are a run of one bounded map per category, each belongs to one job, and
    the futures hold their replies.
  \<^item> \<open>Log_Model\<close>, \<open>Logger_Sync\<close>, \<open>Concurrent_Logging\<close>: levels, policies, \<open>ILogger\<close> (locale
    \<open>logging_service\<close>), \<open>capture\<close> and what it makes of a failure on a logger; the synchronous logger as functions, and as threads with both of
    its mutexes, the lock-free pointer and callbacks that call the logger again.
  \<^item> \<open>Async_Logger\<close>, \<open>Async_Waiting\<close>: the asynchronous logger by critical sections, and with its condition
    variables, \<open>shutdown_mutex_\<close>, the join, and calls from within callbacks.
  \<^item> \<open>Text_Record\<close>, \<open>Stream_Sinks\<close>, \<open>Buffered_Sink\<close>, \<open>Concurrent_Buffering\<close>: the line of a record, assembled
    through a cursor into a 512-character array; both text sinks on a stream with limited room, and what
    can be read back from the text they leave; the buffered sink as functions and under interleaving.
  \<^item> \<open>Log_Pipeline\<close>, \<open>Programs\<close>: an asynchronous logger on an immediate sink end to end, \<open>main\<close>, and the
    fuzzing entry point.

  \<^bold>\<open>Bounds.\<close> The limits are the source's: 1000000 errors in a register, 1024 workers, 1024 queue slots,
  batches of 16, 1024 records in the logger's queue, 512 characters for a record. Loops of the source
  are recursions with termination proofs; the decimal text of a code recurses on \<open>n div 10\<close>. The
  only fuel is the length of the schedules that witnesses run. Counters that wrap (failed records,
  dispatches, epochs) are 64-bit words; where a wrap would matter (waiters, completion epochs) the
  theorem has the bound as a hypothesis.

  \<^bold>\<open>Assumptions.\<close> Atomic operations are sequentially consistent: the acquire, release and relaxed orders
  of the source are not distinguished, so a wake-up lost to a reordered load of a waiting counter is
  outside the model. \<open>std::atomic::notify_one\<close> wakes at least one waiter of its choice and
  \<open>notify_all\<close> all of them, which is what the standard says; which one is a parameter. A condition
  variable may wake without a reason. Allocation succeeds, and streams report failure by their state,
  not by exceptions. Callbacks and sinks return, apart from the calls on their own pool or logger that
  the model gives them. In the machine of the pool a claim and an insertion are one step each and so
  exclude each other, although they hold different mutexes: a bulk insertion that still
  counts a slot as taken while a worker frees it inserts fewer tasks in that round, and a bulk claim
  takes fewer, than in the model. The rest follows in the next round.

  \<^bold>\<open>What came out.\<close> Four things differ from what the code means or its documentation says, each with
  its theorem: \<open>idle_reported_with_2048_active_tasks\<close> (the active count overflows its eleven bits),
  \<open>notify_one_can_lose_a_wakeup\<close> (producers and workers wait on one atomic),
  \<open>shutdown_in_a_callback_deadlocks\<close> (the asynchronous logger locks before it looks which thread it is
  on), and \<open>newline_in_message_forges_a_record\<close>.

  \<^bold>\<open>Not modelled.\<close> Concepts, aliases, selectors and deduction guides, which are resolved at compile
  time; the destruction of objects that are still in use; \<open>queue_storage_bytes()\<close>, which depends on
  \<open>sizeof\<close>; the Helgrind annotations; \<open>vosp.hpp\<close> and \<open>vosp/version.hpp\<close>, which hold includes, an alias
  and version constants; the benchmarks, which measure the library, and the tests.
\<close>

end
